(* ===== verification/Prelude.thy ===== *)
theory Prelude
  imports Main
    "HOL-Library.Word"
    "HOL-Library.Monad_Syntax"
    "HOL-Library.Multiset"
    "HOL-Library.AList"
    "HOL-Library.Product_Lexorder"
    "HOL-Library.List_Lexorder"
begin

text \<open>
  What every component of the model shares: the machine integers of the Rust source,
  the panicking operations of the language (vector indexing, slicing, loops that
  may panic) as functions into \<open>option\<close> where \<open>None\<close> is a panic of the
  running thread, hash maps as association lists behind the \<open>hash_map\<close> interface,
  and \<open>sort\<close> followed by \<open>dedup\<close>.
\<close>

named_theorems vec_simps \<open>lengths and reads of checked vector updates\<close>

type_synonym u8 = "8 word"
type_synonym u16 = "16 word"
type_synonym u32 = "32 word"
type_synonym u64 = "64 word"
type_synonym bytes = "8 word list"

text \<open>Errors of third-party calls are only formatted into log lines by the source.\<close>

type_synonym err = string

section \<open>Machine integers\<close>

text \<open>\<^verbatim>\<open>saturating_sub\<close> on an unsigned integer.\<close>

definition saturating_sub :: "'a::len word \<Rightarrow> 'a word \<Rightarrow> 'a word" where
  "saturating_sub a b = (if a < b then 0 else a - b)"

lemma unat_saturating_sub [simp]: "unat (saturating_sub a b) = unat a - unat b"
proof (cases "a < b")
  case True
  then show ?thesis by (simp add: saturating_sub_def word_less_nat_alt)
next
  case False
  then have "b \<le> a" by simp
  then show ?thesis using False by (simp add: saturating_sub_def unat_sub)
qed

lemma saturating_sub_mono: "a \<le> b \<Longrightarrow> saturating_sub a c \<le> saturating_sub b c"
  by (simp add: word_le_nat_alt diff_le_mono)

lemma saturating_sub_le: "saturating_sub a b \<le> a"
  by (simp add: word_le_nat_alt)

section \<open>Vectors: indexing and slicing that may panic\<close>

definition vec_get :: "'a list \<Rightarrow> nat \<Rightarrow> 'a option" where
  "vec_get xs i = (if i < length xs then Some (xs ! i) else None)"

definition vec_set :: "'a list \<Rightarrow> nat \<Rightarrow> 'a \<Rightarrow> 'a list option" where
  "vec_set xs i v = (if i < length xs then Some (xs[i := v]) else None)"

text \<open>\<^verbatim>\<open>&xs[a..=b]\<close>: panics when \<open>b\<close> is not an index or \<open>a > b + 1\<close>.\<close>

definition slice_incl :: "'a list \<Rightarrow> nat \<Rightarrow> nat \<Rightarrow> 'a list option" where
  "slice_incl xs a b =
     (if b < length xs \<and> a \<le> Suc b then Some (drop a (take (Suc b) xs)) else None)"

text \<open>\<^verbatim>\<open>&xs[..n]\<close>: panics when \<open>n\<close> exceeds the length.\<close>

definition slice_to :: "'a list \<Rightarrow> nat \<Rightarrow> 'a list option" where
  "slice_to xs n = (if n \<le> length xs then Some (take n xs) else None)"

lemma vec_get_in [vec_simps]: "i < length xs \<Longrightarrow> vec_get xs i = Some (xs ! i)"
  by (simp add: vec_get_def)

lemma vec_get_out [vec_simps]: "length xs \<le> i \<Longrightarrow> vec_get xs i = None"
  by (simp add: vec_get_def)

lemma vec_get_Some_iff: "vec_get xs i = Some v \<longleftrightarrow> i < length xs \<and> xs ! i = v"
  by (auto simp: vec_get_def)

lemma vec_set_in [vec_simps]: "i < length xs \<Longrightarrow> vec_set xs i v = Some (xs[i := v])"
  by (simp add: vec_set_def)

lemma vec_set_Some_iff: "vec_set xs i v = Some ys \<longleftrightarrow> i < length xs \<and> ys = xs[i := v]"
  by (auto simp: vec_set_def)

lemma slice_incl_in [vec_simps]:
  "a \<le> b \<Longrightarrow> b < length xs \<Longrightarrow> slice_incl xs a b = Some (drop a (take (Suc b) xs))"
  by (simp add: slice_incl_def)

lemma set_slice:
  "b < length xs \<Longrightarrow> set (drop a (take (Suc b) xs)) = {xs ! j | j. a \<le> j \<and> j \<le> b}"
proof -
  assume b: "b < length xs"
  have len: "length (drop a (take (Suc b) xs)) = Suc b - a" using b by simp
  have nth: "k < Suc b - a \<Longrightarrow> drop a (take (Suc b) xs) ! k = xs ! (a + k)" for k
    using b by simp
  show ?thesis
  proof (intro set_eqI iffI)
    fix x assume "x \<in> set (drop a (take (Suc b) xs))"
    then obtain k where k: "k < Suc b - a" "drop a (take (Suc b) xs) ! k = x"
      using len by (metis in_set_conv_nth)
    then show "x \<in> {xs ! j | j. a \<le> j \<and> j \<le> b}" using nth[OF k(1)] by force
  next
    fix x assume "x \<in> {xs ! j | j. a \<le> j \<and> j \<le> b}"
    then obtain j where j: "a \<le> j" "j \<le> b" "x = xs ! j" by blast
    then have "drop a (take (Suc b) xs) ! (j - a) = x" and "j - a < Suc b - a"
      using nth[of "j - a"] by auto
    then show "x \<in> set (drop a (take (Suc b) xs))" using len nth_mem by metis
  qed
qed

section \<open>Loops whose body may panic\<close>

fun foldM :: "('a \<Rightarrow> 's \<Rightarrow> 's option) \<Rightarrow> 'a list \<Rightarrow> 's \<Rightarrow> 's option" where
  "foldM f [] s = Some s"
| "foldM f (x # xs) s = do { s' \<leftarrow> f x s; foldM f xs s' }"

lemma foldM_append: "foldM f (xs @ ys) s = do { s' \<leftarrow> foldM f xs s; foldM f ys s' }"
  by (induction xs arbitrary: s) (auto split: Option.bind_splits)

text \<open>
  The contract of a loop body: from a state that satisfies \<open>inv\<close>, on an element that
  satisfies \<open>ok\<close>, the body does not panic and re-establishes \<open>inv\<close>.
\<close>

locale fallible_step =
  fixes step :: "'a \<Rightarrow> 's \<Rightarrow> 's option"
    and inv :: "'s \<Rightarrow> bool"
    and ok :: "'a \<Rightarrow> bool"
  assumes step_ok: "inv s \<Longrightarrow> ok x \<Longrightarrow> \<exists>s'. step x s = Some s' \<and> inv s'"
begin

lemma step_SomeD: "inv s \<Longrightarrow> ok x \<Longrightarrow> step x s = Some s' \<Longrightarrow> inv s'"
  using step_ok by fastforce

lemma run_ok:
  "inv s \<Longrightarrow> \<forall>x\<in>set xs. ok x \<Longrightarrow> \<exists>s'. foldM step xs s = Some s' \<and> inv s'"
proof (induction xs arbitrary: s)
  case Nil
  then show ?case by simp
next
  case (Cons x xs)
  then obtain s1 where "step x s = Some s1" "inv s1" using step_ok[of s x] by auto
  with Cons.IH[of s1] Cons.prems show ?case by simp
qed

lemma run_inv: "inv s \<Longrightarrow> \<forall>x\<in>set xs. ok x \<Longrightarrow> foldM step xs s = Some s' \<Longrightarrow> inv s'"
  using run_ok[of s xs] by auto

end

text \<open>A loop body that moreover only moves up in a preorder: so does the whole loop.\<close>

locale monotone_step = fallible_step +
  fixes le :: "'s \<Rightarrow> 's \<Rightarrow> bool"
  assumes le_refl: "le s s"
    and le_trans: "le s t \<Longrightarrow> le t u \<Longrightarrow> le s u"
    and step_le: "inv s \<Longrightarrow> ok x \<Longrightarrow> step x s = Some s' \<Longrightarrow> le s s'"
begin

lemma run_le: "inv s \<Longrightarrow> \<forall>x\<in>set xs. ok x \<Longrightarrow> foldM step xs s = Some s' \<Longrightarrow> le s s'"
proof (induction xs arbitrary: s)
  case Nil
  then show ?case by (simp add: le_refl)
next
  case (Cons x xs)
  then obtain s1 where s1: "step x s = Some s1" "inv s1" "foldM step xs s1 = Some s'"
    using step_ok[of s x] by auto
  have "le s s1" using Cons.prems s1 step_le[of s x s1] by simp
  moreover have "le s1 s'" using Cons.IH[OF s1(2)] Cons.prems s1(3) by simp
  ultimately show ?case by (rule le_trans)
qed

end

section \<open>Threads\<close>

text \<open>
  A worker thread is \<^verbatim>\<open>while !exit.load() { select! { .. } }\<close>. One iteration either finds
  the exit flag set, or handles one event: the body then continues, breaks out of the loop, or
  panics (\<open>None\<close>). A run of the thread is the list of what its iterations observe; the
  other threads and the environment decide on that list.
\<close>

datatype 'e poll = ExitSet | Event 'e

datatype 's verdict = Continue (after: 's) | Break (after: 's)

fun event_loop :: "('e \<Rightarrow> 's \<Rightarrow> 's verdict option) \<Rightarrow> 'e poll list \<Rightarrow> 's \<Rightarrow> 's option" where
  "event_loop body [] s = Some s"
| "event_loop body (ExitSet # ps) s = Some s"
| "event_loop body (Event e # ps) s = do {
     r \<leftarrow> body e s;
     (case r of Continue s' \<Rightarrow> event_loop body ps s' | Break s' \<Rightarrow> Some s') }"

text \<open>The contract of a thread body, and what it gives for every run of the thread.\<close>

locale thread_body =
  fixes body :: "'e \<Rightarrow> 's \<Rightarrow> 's verdict option"
    and inv :: "'s \<Rightarrow> bool"
    and ok :: "'e \<Rightarrow> bool"
  assumes body_ok: "inv s \<Longrightarrow> ok e \<Longrightarrow> \<exists>r. body e s = Some r \<and> inv (after r)"
begin

lemma loop_ok:
  "inv s \<Longrightarrow> \<forall>e. Event e \<in> set ps \<longrightarrow> ok e \<Longrightarrow> \<exists>s'. event_loop body ps s = Some s' \<and> inv s'"
proof (induction ps arbitrary: s)
  case Nil
  then show ?case by simp
next
  case (Cons p ps)
  show ?case
  proof (cases p)
    case ExitSet
    then show ?thesis using Cons.prems by simp
  next
    case (Event e)
    then obtain r where r: "body e s = Some r" "inv (after r)"
      using body_ok[of s e] Cons.prems by auto
    then show ?thesis using Event Cons.IH[of "after r"] Cons.prems by (cases r) simp_all
  qed
qed

end

text \<open>
  Threads that share state: a step relation and a start state. An invariant is a property of the start
  that every step keeps; it then holds in every reachable state.
\<close>

locale step_invariant =
  fixes step :: "'s \<Rightarrow> 's \<Rightarrow> bool"
    and start :: 's
    and inv :: "'s \<Rightarrow> bool"
  assumes start_inv: "inv start"
    and step_inv: "inv s \<Longrightarrow> step s t \<Longrightarrow> inv t"
begin

lemma reachable_inv: "step\<^sup>*\<^sup>* start s \<Longrightarrow> inv s"
  by (induction rule: rtranclp_induct) (use start_inv step_inv in auto)

end

section \<open>Hash maps\<close>

text \<open>
  What the source relies on of \<^verbatim>\<open>HashMap\<close>: after an insertion the key is found
  and the others are as before, \<^verbatim>\<open>retain\<close> keeps exactly the entries that
  satisfy its closure, and the length counts the keys. The iteration order is not part
  of the contract.
\<close>

locale hash_map =
  fixes lookup :: "'m \<Rightarrow> 'k \<Rightarrow> 'v option"
    and insert_kv :: "'k \<Rightarrow> 'v \<Rightarrow> 'm \<Rightarrow> 'm"
    and retain_kv :: "('k \<Rightarrow> 'v \<Rightarrow> bool) \<Rightarrow> 'm \<Rightarrow> 'm"
    and len :: "'m \<Rightarrow> nat"
    and ok_map :: "'m \<Rightarrow> bool"
  assumes lookup_insert: "lookup (insert_kv k v m) = (lookup m)(k \<mapsto> v)"
    and ok_insert: "ok_map m \<Longrightarrow> ok_map (insert_kv k v m)"
    and lookup_retain: "ok_map m \<Longrightarrow>
      lookup (retain_kv p m) k = (case lookup m k of None \<Rightarrow> None
        | Some v \<Rightarrow> if p k v then Some v else None)"
    and ok_retain: "ok_map m \<Longrightarrow> ok_map (retain_kv p m)"
    and len_dom: "ok_map m \<Longrightarrow> len m = card (dom (lookup m))"
    and finite_dom: "finite (dom (lookup m))"
begin

lemma len_insert:
  "ok_map m \<Longrightarrow> len (insert_kv k v m) = (if lookup m k = None then Suc (len m) else len m)"
  by (auto simp: len_dom ok_insert lookup_insert finite_dom domIff insert_absorb)

lemma len_retain_le: "ok_map m \<Longrightarrow> len (retain_kv p m) \<le> len m"
  by (auto simp: len_dom ok_retain lookup_retain finite_dom intro!: card_mono split: option.splits)

end

definition alist_retain :: "('k \<Rightarrow> 'v \<Rightarrow> bool) \<Rightarrow> ('k \<times> 'v) list \<Rightarrow> ('k \<times> 'v) list" where
  "alist_retain p m = filter (\<lambda>(k, v). p k v) m"

definition alist_ok :: "('k \<times> 'v) list \<Rightarrow> bool" where
  "alist_ok m \<longleftrightarrow> distinct (map fst m)"

lemma map_of_alist_retain:
  "alist_ok m \<Longrightarrow> map_of (alist_retain p m) k = (case map_of m k of None \<Rightarrow> None
     | Some v \<Rightarrow> if p k v then Some v else None)"
proof (induction m)
  case Nil
  then show ?case by (simp add: alist_retain_def)
next
  case (Cons a m)
  obtain k' v' where a: "a = (k', v')" by (cases a)
  have notin: "k' \<notin> fst ` set m" and okm: "alist_ok m"
    using Cons.prems by (auto simp: alist_ok_def a)
  have "map_of m k' = None" using notin by (simp add: map_of_eq_None_iff)
  then show ?case using Cons.IH[OF okm] by (auto simp: alist_retain_def a split: option.splits)
qed

interpretation alist: hash_map "map_of" "AList.update" "alist_retain" "length" "alist_ok"
proof unfold_locales
  show "map_of (AList.update k v m) = (map_of m)(k \<mapsto> v)" for k v and m :: "('k \<times> 'v) list"
    by (rule update_conv')
  show "alist_ok m \<Longrightarrow> alist_ok (AList.update k v m)" for k v and m :: "('k \<times> 'v) list"
    by (simp add: alist_ok_def distinct_update)
  show "alist_ok m \<Longrightarrow> map_of (alist_retain p m) k = (case map_of m k of None \<Rightarrow> None
        | Some v \<Rightarrow> if p k v then Some v else None)" for p k and m :: "('k \<times> 'v) list"
    by (rule map_of_alist_retain)
  show "alist_ok m \<Longrightarrow> alist_ok (alist_retain p m)" for p and m :: "('k \<times> 'v) list"
    by (simp add: alist_ok_def alist_retain_def distinct_map_filter)
  show "alist_ok m \<Longrightarrow> length m = card (dom (map_of m))" for m :: "('k \<times> 'v) list"
    by (metis alist_ok_def distinct_card dom_map_of_conv_image_fst length_map list.set_map)
  show "finite (dom (map_of m))" for m :: "('k \<times> 'v) list"
    by (rule finite_dom_map_of)
qed

lemmas alist_map_simps [simp] = alist.lookup_insert

text \<open>\<^verbatim>\<open>map.entry(k).or_default()\<close>: the entry is created when it is missing.\<close>

definition or_default :: "'v \<Rightarrow> 'k \<Rightarrow> ('k \<times> 'v) list \<Rightarrow> 'v" where
  "or_default d k m = (case map_of m k of None \<Rightarrow> d | Some v \<Rightarrow> v)"

section \<open>Sorting and deduplication\<close>

text \<open>\<^verbatim>\<open>v.sort_unstable(); v.dedup();\<close> on a totally ordered element type.\<close>

definition sort_dedup :: "'a::linorder list \<Rightarrow> 'a list" where
  "sort_dedup xs = remdups_adj (sort xs)"

lemma set_sort_dedup [simp]: "set (sort_dedup xs) = set xs"
  by (simp add: sort_dedup_def)

lemma remdups_adj_sorted_strict: "sorted xs \<Longrightarrow> sorted_wrt (<) (remdups_adj xs)"
  by (induction xs rule: remdups_adj.induct) (auto simp: less_le)

lemma strict_sorted_sort_dedup: "sorted_wrt (<) (sort_dedup xs)"
  by (simp add: sort_dedup_def remdups_adj_sorted_strict)

lemma distinct_sort_dedup: "distinct (sort_dedup xs)"
  using strict_sorted_sort_dedup strict_sorted_iff by blast

end
