(* ===== verification/Net_Addr.thy ===== *)
theory Net_Addr
  imports Prelude
begin

text \<open>
  The address types of \<^verbatim>\<open>std::net\<close> that the source passes around, with the
  derived order of \<^verbatim>\<open>IpAddr\<close>: every IPv4 address is below every IPv6 address, and
  within a family addresses compare as big-endian numbers.
\<close>

datatype IpAddr = V4 "32 word" | V6 "128 word"

text \<open>
  A socket address: the IPv6 form also carries its flow information and scope identifier,
  which take part in equality.
\<close>

datatype SocketAddr = SocketAddrV4 "32 word" u16 | SocketAddrV6 "128 word" u16 u32 u32

fun SocketAddr_new :: "IpAddr \<Rightarrow> u16 \<Rightarrow> SocketAddr" where
  "SocketAddr_new (V4 a) port = SocketAddrV4 a port"
| "SocketAddr_new (V6 a) port = SocketAddrV6 a port 0 0"

fun sock_ip :: "SocketAddr \<Rightarrow> IpAddr" where
  "sock_ip (SocketAddrV4 a p) = V4 a"
| "sock_ip (SocketAddrV6 a p f c) = V6 a"

fun sock_port :: "SocketAddr \<Rightarrow> u16" where
  "sock_port (SocketAddrV4 a p) = p"
| "sock_port (SocketAddrV6 a p f c) = p"

lemma sock_SocketAddr_new [simp]:
  "sock_ip (SocketAddr_new ip port) = ip" "sock_port (SocketAddr_new ip port) = port"
  by (cases ip; simp)+

lemma SocketAddr_new_inject [simp]:
  "SocketAddr_new ip p = SocketAddr_new ip' p' \<longleftrightarrow> ip = ip' \<and> p = p'"
  by (metis sock_SocketAddr_new)

fun ip_le :: "IpAddr \<Rightarrow> IpAddr \<Rightarrow> bool" where
  "ip_le (V4 a) (V4 b) = (a \<le> b)"
| "ip_le (V4 a) (V6 b) = True"
| "ip_le (V6 a) (V4 b) = False"
| "ip_le (V6 a) (V6 b) = (a \<le> b)"

instantiation IpAddr :: linorder
begin

definition less_eq_IpAddr_def: "(x :: IpAddr) \<le> y \<longleftrightarrow> ip_le x y"

definition less_IpAddr_def: "(x :: IpAddr) < y \<longleftrightarrow> ip_le x y \<and> \<not> ip_le y x"

instance
proof
  fix x y z :: IpAddr
  show "x < y \<longleftrightarrow> x \<le> y \<and> \<not> y \<le> x" by (simp add: less_eq_IpAddr_def less_IpAddr_def)
  show "x \<le> x" by (cases x) (simp_all add: less_eq_IpAddr_def)
  show "x \<le> y \<Longrightarrow> y \<le> z \<Longrightarrow> x \<le> z"
    by (cases x; cases y; cases z) (auto simp: less_eq_IpAddr_def)
  show "x \<le> y \<Longrightarrow> y \<le> x \<Longrightarrow> x = y" by (cases x; cases y) (auto simp: less_eq_IpAddr_def)
  show "x \<le> y \<or> y \<le> x" by (cases x; cases y) (auto simp: less_eq_IpAddr_def)
qed

end

end
