(* ===== verification/Ledger.thy ===== *)
theory Ledger
  imports Net_Addr
begin

text \<open>
  The vocabulary the proxy shares with the crates it calls (\<^verbatim>\<open>solana_ledger\<close>,
  \<^verbatim>\<open>solana_entry\<close>, \<^verbatim>\<open>solana_perf\<close>, \<^verbatim>\<open>bincode\<close>): shreds as the
  source takes them apart, entries, and the record \<open>ledger\<close> of the third-party
  constants and functions, which the model takes as an argument. \<open>ledger_ok\<close> states the
  documented behaviour of those crates that the proxy relies on; no definition of the
  model assumes it.
\<close>

section \<open>Shreds\<close>

datatype ShredType = Data | Code

text \<open>Only \<^verbatim>\<open>MerkleCode\<close> is named by the source; the others are opaque.\<close>

datatype ShredVariant = MerkleCode (proof_size: u8) (chained: bool) (resigned: bool)
  | OtherVariant bytes

text \<open>
  The header fields that the source reads; \<open>ch_other\<close> stands for the remaining ones,
  which only take part in equality and hashing.
\<close>

record shred_common_header =
  ch_slot :: u64
  ch_index :: u32
  ch_fec_set_index :: u32
  ch_shred_variant :: ShredVariant
  ch_other :: bytes

record coding_shred_header =
  num_data_shreds :: u16
  num_coding_shreds :: u16
  cod_other :: bytes

text \<open>
  \<open>sd_data_complete\<close> and \<open>sd_last_in_slot\<close> are the results of the accessors
  \<^verbatim>\<open>data_complete()\<close> and \<^verbatim>\<open>last_in_slot()\<close>; the data header itself is
  only compared and hashed.
\<close>

record shred_data =
  sd_common_header :: shred_common_header
  sd_data_header :: bytes
  sd_data_complete :: bool
  sd_last_in_slot :: bool
  sd_payload :: bytes

record shred_code =
  sc_common_header :: shred_common_header
  sc_coding_header :: coding_shred_header
  sc_payload :: bytes

datatype shred = ShredData shred_data | ShredCode shred_code

fun common_header :: "shred \<Rightarrow> shred_common_header" where
  "common_header (ShredData s) = sd_common_header s"
| "common_header (ShredCode s) = sc_common_header s"

fun shred_payload :: "shred \<Rightarrow> bytes" where
  "shred_payload (ShredData s) = sd_payload s"
| "shred_payload (ShredCode s) = sc_payload s"

fun is_data :: "shred \<Rightarrow> bool" where
  "is_data (ShredData _) = True"
| "is_data (ShredCode _) = False"

abbreviation shred_slot :: "shred \<Rightarrow> u64" where
  "shred_slot s \<equiv> ch_slot (common_header s)"

abbreviation shred_index :: "shred \<Rightarrow> u32" where
  "shred_index s \<equiv> ch_index (common_header s)"

abbreviation shred_fec_set_index :: "shred \<Rightarrow> u32" where
  "shred_fec_set_index s \<equiv> ch_fec_set_index (common_header s)"

text \<open>A data shred that ends an entry batch.\<close>

fun completes :: "shred \<Rightarrow> bool" where
  "completes (ShredData s) = (sd_data_complete s \<or> sd_last_in_slot s)"
| "completes (ShredCode _) = False"

text \<open>A decoded entry; the source only counts its transactions.\<close>

record entry =
  transactions :: "bytes list"

text \<open>
  A received packet: its buffer, and of its metadata the size, the source address and the
  discard flag that deduplication sets.
\<close>

record packet =
  pk_buffer :: bytes
  pk_size :: nat
  pk_addr :: IpAddr
  pk_discard :: bool

section \<open>The third-party interface\<close>

text \<open>
  \<open>packet_data\<close> is \<^verbatim>\<open>Packet::data(..)\<close>,
  \<open>decode_shred\<close> is \<^verbatim>\<open>Shred::new_from_serialized_shred(..).and_then(Shred::try_from)\<close>,
  \<open>recover\<close> is \<^verbatim>\<open>shred::merkle::recover\<close>, \<open>deshred\<close> is \<^verbatim>\<open>Shredder::deshred\<close>,
  \<open>deserialize_entries\<close> is \<^verbatim>\<open>bincode::deserialize::<Vec<Entry>>\<close> and \<open>get_data\<close>
  is \<^verbatim>\<open>shred::layout::get_data\<close>. \<open>shred_type_u8\<close> is the discriminant that
  \<^verbatim>\<open>shred_type() as u8\<close> reads. \<open>set_order\<close> is the order in which a
  \<^verbatim>\<open>HashSet\<close> of shreds is iterated: the standard library leaves it open, so it is an
  argument like the rest.
\<close>

record ledger =
  MAX_DATA_SHREDS_PER_SLOT :: nat
  MAX_PROCESSING_AGE :: nat
  CODE_SIZE_OF_PAYLOAD :: nat
  SIZE_OF_MERKLE_PROOF_ENTRY :: nat
  SIZE_OF_SIGNATURE :: nat
  packet_data :: "packet \<Rightarrow> bytes option"
  decode_shred :: "bytes \<Rightarrow> err + shred"
  shred_type :: "shred \<Rightarrow> ShredType"
  shred_type_u8 :: "ShredType \<Rightarrow> u8"
  recover :: "shred list \<Rightarrow> err + (err + shred) list"
  deshred :: "bytes list \<Rightarrow> err + bytes"
  deserialize_entries :: "bytes \<Rightarrow> err + entry list"
  get_data :: "bytes \<Rightarrow> err + bytes"
  set_order :: "shred list \<Rightarrow> shred list"

section \<open>What the proxy relies on\<close>

text \<open>
  A sanitized Merkle shred: its indices are below the per-slot maximum, a data shred's
  index is not below that of its FEC set, a coding shred carries the Merkle coding variant and a
  payload of the fixed size, and the data of a data shred can be extracted.
\<close>

fun shred_ok :: "ledger \<Rightarrow> shred \<Rightarrow> bool" where
  "shred_ok L (ShredData s) \<longleftrightarrow>
     unat (ch_index (sd_common_header s)) < MAX_DATA_SHREDS_PER_SLOT L \<and>
     unat (ch_fec_set_index (sd_common_header s)) < MAX_DATA_SHREDS_PER_SLOT L \<and>
     ch_fec_set_index (sd_common_header s) \<le> ch_index (sd_common_header s) \<and>
     (\<exists>d. get_data L (sd_payload s) = Inr d)"
| "shred_ok L (ShredCode s) \<longleftrightarrow>
     unat (ch_index (sc_common_header s)) < MAX_DATA_SHREDS_PER_SLOT L \<and>
     unat (ch_fec_set_index (sc_common_header s)) < MAX_DATA_SHREDS_PER_SLOT L \<and>
     (\<exists>p c r. ch_shred_variant (sc_common_header s) = MerkleCode p c r) \<and>
     length (sc_payload s) = CODE_SIZE_OF_PAYLOAD L"

lemma shred_ok_bounds:
  "shred_ok L s \<Longrightarrow> unat (shred_index s) < MAX_DATA_SHREDS_PER_SLOT L"
  "shred_ok L s \<Longrightarrow> unat (shred_fec_set_index s) < MAX_DATA_SHREDS_PER_SLOT L"
  by (cases s; simp)+

definition decode_ok :: "ledger \<Rightarrow> bool" where
  "decode_ok L \<longleftrightarrow> (\<forall>b s. decode_shred L b = Inr s \<longrightarrow> shred_ok L s)"

definition type_ok :: "ledger \<Rightarrow> bool" where
  "type_ok L \<longleftrightarrow> (\<forall>s. shred_type L s = Data \<longleftrightarrow> is_data s)"

text \<open>
  Recovery returns sanitized shreds of the erasure batch it was given.
\<close>

definition recover_ok :: "ledger \<Rightarrow> bool" where
  "recover_ok L \<longleftrightarrow> (\<forall>xs ys s. recover L xs = Inr ys \<longrightarrow> Inr s \<in> set ys \<longrightarrow>
     shred_ok L s \<and> (\<forall>x\<in>set xs. shred_slot x = shred_slot s
       \<and> shred_fec_set_index x = shred_fec_set_index s))"

definition order_ok :: "ledger \<Rightarrow> bool" where
  "order_ok L \<longleftrightarrow> (\<forall>xs. mset (set_order L xs) = mset xs)"

definition ledger_ok :: "ledger \<Rightarrow> bool" where
  "ledger_ok L \<longleftrightarrow> decode_ok L \<and> type_ok L \<and> recover_ok L \<and> order_ok L"

lemma decoded_shred_ok: "ledger_ok L \<Longrightarrow> decode_shred L b = Inr s \<Longrightarrow> shred_ok L s"
  by (simp add: ledger_ok_def decode_ok_def)

lemma shred_type_Data: "ledger_ok L \<Longrightarrow> shred_type L s = Data \<longleftrightarrow> is_data s"
  by (simp add: ledger_ok_def type_ok_def)

lemma recovered_shred_ok:
  assumes "ledger_ok L" "recover L xs = Inr ys" "Inr s \<in> set ys"
  shows "shred_ok L s"
    and "x \<in> set xs \<Longrightarrow> shred_slot x = shred_slot s \<and> shred_fec_set_index x = shred_fec_set_index s"
  using assms by (auto simp: ledger_ok_def recover_ok_def)

lemma mset_set_order: "ledger_ok L \<Longrightarrow> mset (set_order L xs) = mset xs"
  by (simp add: ledger_ok_def order_ok_def)

lemma set_set_order: "ledger_ok L \<Longrightarrow> set (set_order L xs) = set xs"
  by (metis mset_set_order mset_eq_setD)

end
