(* ===== verification/Tracker.thy ===== *)
theory Tracker
  imports Ledger
begin

text \<open>
  The per-slot bookkeeping of \<^verbatim>\<open>proxy/src/deshred.rs\<close>: \<open>ShredStatus\<close>, the
  \<open>ShredsStateTracker\<close> with its default, \<open>update_state_tracker\<close>,
  \<open>get_indexes\<close> and \<open>get_data_shred_info\<close>, the invariant \<open>wf_tracker\<close>
  that ties the four vectors together, and the declarative meaning of a segment
  (\<open>is_segment\<close>), which \<open>get_indexes\<close> is shown to compute.
\<close>

section \<open>State\<close>

datatype ShredStatus = Unknown | NotDataComplete | DataComplete

record ShredsStateTracker =
  data_status :: "ShredStatus list"
  data_shreds :: "shred option list"
  already_recovered_fec_sets :: "bool list"
  already_deshredded :: "bool list"

definition default_tracker :: "ledger \<Rightarrow> ShredsStateTracker" where
  "default_tracker L = \<lparr>
     data_status = replicate (MAX_DATA_SHREDS_PER_SLOT L) Unknown,
     data_shreds = replicate (MAX_DATA_SHREDS_PER_SLOT L) None,
     already_recovered_fec_sets = replicate (MAX_DATA_SHREDS_PER_SLOT L) False,
     already_deshredded = replicate (MAX_DATA_SHREDS_PER_SLOT L) False\<rparr>"

section \<open>Recording a shred\<close>

text \<open>
  The result is \<open>None\<close> when an index is out of range (a panic); otherwise the new
  tracker with the shred's index, or with \<open>None\<close> when the shred was seen before.
  The disjunction of the source is evaluated left to right.
\<close>

definition update_state_tracker ::
  "ledger \<Rightarrow> shred \<Rightarrow> ShredsStateTracker \<Rightarrow> (ShredsStateTracker \<times> nat option) option" where
  "update_state_tracker L shred t = do {
     let index = unat (shred_index shred);
     recovered \<leftarrow> vec_get (already_recovered_fec_sets t) (unat (shred_fec_set_index shred));
     if recovered then Some (t, None)
     else do {
       seen \<leftarrow> (if shred_type L shred = Data
                 then do { d \<leftarrow> vec_get (data_shreds t) index;
                           if d \<noteq> None then Some True
                           else do { st \<leftarrow> vec_get (data_status t) index; Some (st \<noteq> Unknown) } }
                 else Some False);
       if seen then Some (t, None)
       else (case shred of
           ShredData s \<Rightarrow> do {
             ds \<leftarrow> vec_set (data_shreds t) index (Some shred);
             st \<leftarrow> vec_set (data_status t) index
                    (if sd_data_complete s \<or> sd_last_in_slot s then DataComplete
                     else NotDataComplete);
             Some (t\<lparr>data_shreds := ds, data_status := st\<rparr>, Some index) }
         | ShredCode _ \<Rightarrow> Some (t, Some index)) } }"

section \<open>Finding a segment\<close>

text \<open>
  The first loop of \<open>get_indexes\<close>. \<open>Some None\<close> is the early \<^verbatim>\<open>return None\<close>;
  \<open>Some (Some e)\<close> leaves the loop with \<^verbatim>\<open>end = e\<close>, which is the length of the
  vector when no \<open>DataComplete\<close> was met.
\<close>

function scan_right :: "ShredsStateTracker \<Rightarrow> nat \<Rightarrow> nat option option" where
  "scan_right t e =
     (if e < length (data_status t) then do {
        deshredded \<leftarrow> vec_get (already_deshredded t) e;
        if deshredded then Some None
        else (case data_status t ! e of
            Unknown \<Rightarrow> Some None
          | DataComplete \<Rightarrow> Some (Some e)
          | NotDataComplete \<Rightarrow> scan_right t (Suc e)) }
      else Some (Some e))"
  by pat_completeness auto
termination
  by (relation "measure (\<lambda>(t, e). length (data_status t) - e)") auto

text \<open>The second loop: \<open>next\<close> goes down to \<open>0\<close>, \<open>start\<close> follows one step behind.\<close>

fun scan_left :: "ShredsStateTracker \<Rightarrow> nat \<Rightarrow> nat \<Rightarrow> nat \<Rightarrow> (nat \<times> nat \<times> bool) option option" where
  "scan_left t e start nxt = do {
     st \<leftarrow> vec_get (data_status t) nxt;
     (case st of
        NotDataComplete \<Rightarrow> do {
          deshredded \<leftarrow> vec_get (already_deshredded t) nxt;
          if deshredded then Some None
          else if nxt = 0 then Some (Some (0, e, False))
          else scan_left t e nxt (nxt - 1) }
      | DataComplete \<Rightarrow> Some (Some (start, e, False))
      | Unknown \<Rightarrow> Some (Some (start, e, True))) }"

definition get_indexes :: "ShredsStateTracker \<Rightarrow> nat \<Rightarrow> (nat \<times> nat \<times> bool) option option" where
  "get_indexes t index =
     (if length (data_status t) \<le> index then Some None
      else do {
        r \<leftarrow> scan_right t index;
        (case r of
           None \<Rightarrow> Some None
         | Some e \<Rightarrow>
             if e = length (data_status t) then Some None
             else if e = 0 then Some (Some (0, 0, False))
             else if index = 0 then Some (Some (0, e, False))
             else scan_left t e index (index - 1)) })"

declare scan_right.simps [simp del] scan_left.simps [simp del]

section \<open>Counting a FEC set\<close>

text \<open>
  \<open>(num_expected_data_shreds, num_expected_coding_shreds, num_data_shreds,
  num_coding_shreds)\<close>, all \<^verbatim>\<open>u16\<close>. The subtraction and the additions wrap, as in
  a release build; \<^verbatim>\<open>as u16\<close> truncates.
\<close>

type_synonym fec_info = "u16 \<times> u16 \<times> u16 \<times> u16"

fun count_shred :: "shred \<Rightarrow> fec_info \<Rightarrow> fec_info" where
  "count_shred (ShredCode s) (ed, ec, nd, nc) =
     (num_data_shreds (sc_coding_header s), num_coding_shreds (sc_coding_header s), nd, nc + 1)"
| "count_shred (ShredData s) (ed, ec, nd, nc) =
     (if ed = 0 \<and> (sd_data_complete s \<or> sd_last_in_slot s)
      then ucast (ch_index (sd_common_header s) - ch_fec_set_index (sd_common_header s)) + 1
      else ed, ec, nd + 1, nc)"

definition get_data_shred_info :: "ledger \<Rightarrow> shred list \<Rightarrow> fec_info" where
  "get_data_shred_info L shreds = fold count_shred (set_order L shreds) (0, 0, 0, 0)"

section \<open>The tracker invariant\<close>

text \<open>
  What one index holds: nothing and status \<open>Unknown\<close>, or the data shred of that index
  with the status its flags say.
\<close>

definition cell_ok :: "ledger \<Rightarrow> nat \<Rightarrow> shred option \<Rightarrow> ShredStatus \<Rightarrow> bool" where
  "cell_ok L i d st = (case d of
      None \<Rightarrow> st = Unknown
    | Some s \<Rightarrow> is_data s \<and> unat (shred_index s) = i \<and> shred_ok L s
        \<and> st = (if completes s then DataComplete else NotDataComplete))"

definition wf_tracker :: "ledger \<Rightarrow> ShredsStateTracker \<Rightarrow> bool" where
  "wf_tracker L t \<longleftrightarrow>
     length (data_status t) = MAX_DATA_SHREDS_PER_SLOT L \<and>
     length (data_shreds t) = MAX_DATA_SHREDS_PER_SLOT L \<and>
     length (already_recovered_fec_sets t) = MAX_DATA_SHREDS_PER_SLOT L \<and>
     length (already_deshredded t) = MAX_DATA_SHREDS_PER_SLOT L \<and>
     (\<forall>i < MAX_DATA_SHREDS_PER_SLOT L. cell_ok L i (data_shreds t ! i) (data_status t ! i)) \<and>
     (\<forall>i < MAX_DATA_SHREDS_PER_SLOT L. already_deshredded t ! i \<longrightarrow> data_shreds t ! i \<noteq> None)"

lemma wf_default_tracker [simp]: "wf_tracker L (default_tracker L)"
  by (simp add: wf_tracker_def default_tracker_def cell_ok_def)

lemma wf_tracker_lengths:
  assumes "wf_tracker L t"
  shows "length (data_status t) = MAX_DATA_SHREDS_PER_SLOT L"
    and "length (data_shreds t) = MAX_DATA_SHREDS_PER_SLOT L"
    and "length (already_recovered_fec_sets t) = MAX_DATA_SHREDS_PER_SLOT L"
    and "length (already_deshredded t) = MAX_DATA_SHREDS_PER_SLOT L"
  using assms by (simp_all add: wf_tracker_def)

lemma wf_tracker_status:
  assumes "wf_tracker L t" "i < MAX_DATA_SHREDS_PER_SLOT L"
  shows "data_status t ! i = (case data_shreds t ! i of None \<Rightarrow> Unknown
           | Some s \<Rightarrow> if completes s then DataComplete else NotDataComplete)"
  using assms by (auto simp: wf_tracker_def cell_ok_def split: option.splits)

lemma wf_tracker_shred:
  assumes "wf_tracker L t" "i < MAX_DATA_SHREDS_PER_SLOT L" "data_shreds t ! i = Some s"
  shows "is_data s" "unat (shred_index s) = i" "shred_ok L s"
  using assms by (auto simp: wf_tracker_def cell_ok_def split: option.splits)

lemma wf_tracker_known:
  assumes "wf_tracker L t" "i < MAX_DATA_SHREDS_PER_SLOT L" "data_status t ! i \<noteq> Unknown"
  shows "\<exists>s. data_shreds t ! i = Some s"
  using assms wf_tracker_status[OF assms(1,2)] by (cases "data_shreds t ! i") auto

text \<open>Storing a data shred at its own, empty, index.\<close>

definition store_shred :: "shred \<Rightarrow> ShredsStateTracker \<Rightarrow> ShredsStateTracker" where
  "store_shred s t = t\<lparr>
     data_shreds := (data_shreds t)[unat (shred_index s) := Some s],
     data_status := (data_status t)[unat (shred_index s) :=
       (if completes s then DataComplete else NotDataComplete)]\<rparr>"

lemma wf_store_shred:
  assumes "wf_tracker L t" "shred_ok L s" "is_data s"
  shows "wf_tracker L (store_shred s t)"
proof -
  have "cell_ok L i (data_shreds (store_shred s t) ! i) (data_status (store_shred s t) ! i)"
    if "i < MAX_DATA_SHREDS_PER_SLOT L" for i
    using assms that by (cases "i = unat (shred_index s)")
      (auto simp: wf_tracker_def store_shred_def cell_ok_def)
  moreover have "data_shreds (store_shred s t) ! i \<noteq> None"
    if "i < MAX_DATA_SHREDS_PER_SLOT L" "already_deshredded t ! i" for i
    using assms that by (cases "i = unat (shred_index s)")
      (auto simp: wf_tracker_def store_shred_def)
  ultimately show ?thesis using assms(1) by (simp add: wf_tracker_def store_shred_def)
qed

text \<open>
  The meaning of \<open>update_state_tracker\<close> on a well-formed tracker: ignored when the FEC set is
  finished or the data index is taken, stored when it is a new data shred, and acknowledged
  without a change when it is a coding shred.
\<close>

definition seen_before :: "shred \<Rightarrow> ShredsStateTracker \<Rightarrow> bool" where
  "seen_before s t \<longleftrightarrow> already_recovered_fec_sets t ! unat (shred_fec_set_index s)
     \<or> (is_data s \<and> data_shreds t ! unat (shred_index s) \<noteq> None)"

lemma update_state_tracker_eq:
  assumes L: "ledger_ok L" and wf: "wf_tracker L t" and s: "shred_ok L s"
  shows "update_state_tracker L s t =
    Some (if seen_before s t then (t, None)
          else (if is_data s then store_shred s t else t, Some (unat (shred_index s))))"
proof -
  note b = shred_ok_bounds[OF s] and len = wf_tracker_lengths[OF wf]
  have st: "data_status t ! unat (shred_index s) \<noteq> Unknown \<longleftrightarrow>
      data_shreds t ! unat (shred_index s) \<noteq> None"
    using wf_tracker_status[OF wf b(1)] by (auto split: option.splits)
  show ?thesis
  proof (cases s)
    case (ShredData d)
    then have "shred_type L s = Data" using shred_type_Data[OF L] by simp
    then show ?thesis using ShredData b len st
      by (auto simp: update_state_tracker_def Let_def vec_simps seen_before_def store_shred_def)
  next
    case (ShredCode c)
    then have "shred_type L s \<noteq> Data" using shred_type_Data[OF L] by simp
    then show ?thesis using ShredCode b len
      by (auto simp: update_state_tracker_def Let_def vec_simps seen_before_def)
  qed
qed

section \<open>Segments\<close>

text \<open>
  The rules in the documentation of \<open>get_indexes\<close>: the segment around \<open>i\<close> ends at the
  first \<open>DataComplete\<close> at or after \<open>i\<close>, starts just after the previous one or at the
  beginning, has no hole and no index that was deshredded before; \<open>u\<close> says that its left
  neighbour is \<open>Unknown\<close>, so the start is a guess.
\<close>

definition is_segment :: "ShredsStateTracker \<Rightarrow> nat \<Rightarrow> nat \<Rightarrow> nat \<Rightarrow> bool \<Rightarrow> bool" where
  "is_segment t i s e u \<longleftrightarrow>
     s \<le> i \<and> i \<le> e \<and> e < length (data_status t) \<and> data_status t ! e = DataComplete \<and>
     (\<forall>j. s \<le> j \<and> j < e \<longrightarrow> data_status t ! j = NotDataComplete) \<and>
     (\<forall>j. s \<le> j \<and> j \<le> e \<longrightarrow> \<not> already_deshredded t ! j) \<and>
     (if s = 0 then \<not> u else data_status t ! (s - 1) = (if u then Unknown else DataComplete))"

definition same_lengths :: "ShredsStateTracker \<Rightarrow> bool" where
  "same_lengths t \<longleftrightarrow> length (already_deshredded t) = length (data_status t)"

lemma wf_same_lengths [simp]: "wf_tracker L t \<Longrightarrow> same_lengths t"
  by (simp add: wf_tracker_def same_lengths_def)

text \<open>An index a segment may run through without ending there.\<close>

abbreviation open_at :: "ShredsStateTracker \<Rightarrow> nat \<Rightarrow> bool" where
  "open_at t j \<equiv> data_status t ! j = NotDataComplete \<and> \<not> already_deshredded t ! j"

lemma scan_right_total:
  assumes "same_lengths t"
  shows "\<exists>r. scan_right t e = Some r"
  using assms
proof (induction t e rule: scan_right.induct)
  case (1 t e)
  then show ?case
    by (subst scan_right.simps) (auto simp: vec_get_def same_lengths_def split: ShredStatus.splits)
qed

lemma scan_right_unfold:
  assumes "same_lengths t" "e < length (data_status t)"
  shows "scan_right t e = (if open_at t e then scan_right t (Suc e)
     else if data_status t ! e = DataComplete \<and> \<not> already_deshredded t ! e then Some (Some e)
     else Some None)"
  using assms by (subst scan_right.simps)
    (simp add: vec_get_def same_lengths_def split: ShredStatus.splits)

lemma all_from_Suc: "P e \<Longrightarrow> (\<forall>j. e \<le> j \<and> j < n \<longrightarrow> P j) \<longleftrightarrow> (\<forall>j. Suc e \<le> j \<and> j < n \<longrightarrow> P j)"
  by (metis Suc_leD le_neq_implies_less Suc_leI)

lemma scan_right_iff:
  assumes "same_lengths t" "e \<le> length (data_status t)"
  shows "scan_right t e = Some (Some e') \<longleftrightarrow>
     e \<le> e' \<and> e' \<le> length (data_status t) \<and> (\<forall>j. e \<le> j \<and> j < e' \<longrightarrow> open_at t j) \<and>
     (e' < length (data_status t) \<longrightarrow>
        data_status t ! e' = DataComplete \<and> \<not> already_deshredded t ! e')"
  using assms
proof (induction "length (data_status t) - e" arbitrary: e)
  case 0
  then show ?case by (subst scan_right.simps) auto
next
  case (Suc n)
  then have e: "e < length (data_status t)" by simp
  show ?case
  proof (cases "open_at t e")
    case opn: True
    have "e \<le> e' \<and> (e' < length (data_status t) \<longrightarrow> data_status t ! e' = DataComplete) \<longleftrightarrow>
        Suc e \<le> e' \<and> (e' < length (data_status t) \<longrightarrow> data_status t ! e' = DataComplete)"
      using opn e by (metis ShredStatus.distinct(5) Suc_leD Suc_leI le_neq_implies_less)
    then show ?thesis
      using opn Suc scan_right_unfold[OF Suc.prems(1) e] all_from_Suc[of "open_at t" e e']
      by auto
  next
    case closed: False
    have "(\<forall>j. e \<le> j \<and> j < e' \<longrightarrow> open_at t j) \<and> e \<le> e' \<longleftrightarrow> e' = e"
      using closed by (metis dual_order.eq_iff leD le_neq_implies_less)
    then show ?thesis using closed e scan_right_unfold[OF Suc.prems(1) e] by auto
  qed
qed

lemma scan_left_total:
  assumes "same_lengths t" "nxt < length (data_status t)"
  shows "\<exists>r. scan_left t e start nxt = Some r"
  using assms
proof (induction t e start nxt rule: scan_left.induct)
  case (1 t e start nxt)
  then show ?case
    by (subst scan_left.simps) (auto simp: vec_get_def same_lengths_def split: ShredStatus.splits)
qed

text \<open>Where the left scan from \<open>nxt\<close> stops.\<close>

definition left_bound :: "ShredsStateTracker \<Rightarrow> nat \<Rightarrow> nat \<Rightarrow> bool \<Rightarrow> bool" where
  "left_bound t nxt s u \<longleftrightarrow> s \<le> Suc nxt \<and> (\<forall>j. s \<le> j \<and> j \<le> nxt \<longrightarrow> open_at t j) \<and>
     (if s = 0 then \<not> u else data_status t ! (s - 1) = (if u then Unknown else DataComplete))"

lemma scan_left_iff:
  assumes "same_lengths t" "nxt < length (data_status t)"
  shows "scan_left t e (Suc nxt) nxt = Some (Some (s, e', u)) \<longleftrightarrow> e' = e \<and> left_bound t nxt s u"
  using assms
proof (induction nxt)
  case 0
  then show ?case
    by (subst scan_left.simps)
      (auto simp: vec_get_def same_lengths_def left_bound_def le_Suc_eq split: ShredStatus.splits)
next
  case (Suc n)
  have get: "vec_get (data_status t) (Suc n) = Some (data_status t ! Suc n)"
    "vec_get (already_deshredded t) (Suc n) = Some (already_deshredded t ! Suc n)"
    using Suc.prems by (auto simp: vec_get_def same_lengths_def)
  show ?case
  proof (cases "open_at t (Suc n)")
    case True
    have "left_bound t (Suc n) s u \<longleftrightarrow> left_bound t n s u"
      using True by (auto simp: left_bound_def le_Suc_eq split: if_splits)
    then show ?thesis using True get Suc.IH Suc.prems
      by (subst scan_left.simps) simp
  next
    case False
    then have "left_bound t (Suc n) s u \<longleftrightarrow>
        s = Suc (Suc n) \<and> data_status t ! Suc n = (if u then Unknown else DataComplete)"
      by (auto simp: left_bound_def le_Suc_eq split: if_splits)
    then show ?thesis using False get
      by (subst scan_left.simps) (auto split: ShredStatus.splits)
  qed
qed

definition right_bound :: "ShredsStateTracker \<Rightarrow> nat \<Rightarrow> nat \<Rightarrow> bool" where
  "right_bound t i e \<longleftrightarrow> i \<le> e \<and> e < length (data_status t) \<and>
     (\<forall>j. i \<le> j \<and> j < e \<longrightarrow> open_at t j) \<and>
     data_status t ! e = DataComplete \<and> \<not> already_deshredded t ! e"

lemma is_segment_bounds:
  "is_segment t i s e u \<longleftrightarrow>
     right_bound t i e \<and> (if i = 0 then s = 0 \<and> \<not> u else left_bound t (i - 1) s u)"
proof -
  have "(\<forall>j. s \<le> j \<and> j < e \<longrightarrow> data_status t ! j = NotDataComplete) \<and>
        (\<forall>j. s \<le> j \<and> j \<le> e \<longrightarrow> \<not> already_deshredded t ! j) \<longleftrightarrow>
      (\<forall>j. s \<le> j \<and> j < i \<longrightarrow> open_at t j) \<and> (\<forall>j. i \<le> j \<and> j < e \<longrightarrow> open_at t j) \<and>
      \<not> already_deshredded t ! e"
    if "s \<le> i" "i \<le> e"
  proof -
    have incl: "(\<forall>j. s \<le> j \<and> j \<le> e \<longrightarrow> P j) \<longleftrightarrow> (\<forall>j. s \<le> j \<and> j < e \<longrightarrow> P j) \<and> P e" for P
      using that by (auto simp: le_less)
    have "(\<forall>j. s \<le> j \<and> j < e \<longrightarrow> P j) \<longleftrightarrow>
        (\<forall>j. s \<le> j \<and> j < i \<longrightarrow> P j) \<and> (\<forall>j. i \<le> j \<and> j < e \<longrightarrow> P j)" for P
      using that by (meson le_trans less_le_trans linorder_not_less)
    from this[of "open_at t"] show ?thesis unfolding incl by blast
  qed
  moreover have "s \<le> Suc (i - 1) \<longleftrightarrow> s \<le> i" "(\<forall>j. s \<le> j \<and> j \<le> i - 1 \<longrightarrow> open_at t j) \<longleftrightarrow>
      (\<forall>j. s \<le> j \<and> j < i \<longrightarrow> open_at t j)" if "i \<noteq> 0"
    using that by auto
  ultimately show ?thesis
    by (cases "i = 0") (auto simp: is_segment_def right_bound_def left_bound_def)
qed

lemma get_indexes_total:
  assumes "same_lengths t"
  shows "\<exists>r. get_indexes t i = Some r"
proof (cases "length (data_status t) \<le> i")
  case False
  obtain r where r: "scan_right t i = Some r" using scan_right_total[OF assms] by blast
  show ?thesis using r scan_left_total[OF assms, of "i - 1"] False
    by (cases r) (auto simp: get_indexes_def)
qed (simp add: get_indexes_def)

lemma get_indexes_iff:
  assumes t: "same_lengths t"
  shows "get_indexes t i = Some (Some (s, e, u)) \<longleftrightarrow> is_segment t i s e u"
proof (cases "i < length (data_status t)")
  case False
  then show ?thesis by (auto simp: get_indexes_def is_segment_def)
next
  case i: True
  obtain r where r: "scan_right t i = Some r" using scan_right_total[OF t] by blast
  have right: "e' < length (data_status t) \<Longrightarrow> r = Some e' \<longleftrightarrow> right_bound t i e'" for e'
    using scan_right_iff[OF t, of i e'] i r by (auto simp: right_bound_def)
  have left: "i \<noteq> 0 \<Longrightarrow>
      scan_left t e' i (i - 1) = Some (Some (s, e, u)) \<longleftrightarrow> e = e' \<and> left_bound t (i - 1) s u" for e'
    using scan_left_iff[OF t, of "i - 1" e' s e u] i by auto
  have le: "r = Some e' \<Longrightarrow> e' \<noteq> length (data_status t) \<Longrightarrow> e' < length (data_status t)" for e'
    using scan_right_iff[OF t, of i e'] i r by auto
  have rb: "right_bound t i e \<Longrightarrow> r = Some e \<and> e \<noteq> length (data_status t)"
    using right[of e] by (auto simp: right_bound_def)
  show ?thesis
  proof (cases r)
    case None
    then show ?thesis using r i rb by (auto simp: get_indexes_def is_segment_bounds)
  next
    case (Some e')
    show ?thesis
    proof (cases "e' = length (data_status t)")
      case True
      then show ?thesis using r i Some rb by (auto simp: get_indexes_def is_segment_bounds)
    next
      case False
      then have e': "right_bound t i e'" using right[of e'] le[OF Some] Some by simp
      then have uniq: "right_bound t i e \<longleftrightarrow> e = e'" using rb Some by auto
      have "e' = 0 \<Longrightarrow> i = 0" using e' by (simp add: right_bound_def)
      then show ?thesis using r i Some False uniq left[of e']
        by (auto simp: get_indexes_def is_segment_bounds)
    qed
  qed
qed

lemma is_segment_unique:
  assumes "same_lengths t" "is_segment t i s e u" "is_segment t i s' e' u'"
  shows "s = s' \<and> e = e' \<and> u = u'"
  using assms by (metis get_indexes_iff option.inject prod.inject)

lemma fold_count_counts:
  "snd (snd (fold count_shred xs (ed, ec, nd, nc))) =
     (nd + of_nat (length (filter is_data xs)), nc + of_nat (length (filter (Not \<circ> is_data) xs)))"
proof (induction xs arbitrary: ed ec nd nc)
  case Nil
  then show ?case by simp
next
  case (Cons x xs)
  then show ?case by (cases x) (simp_all add: algebra_simps)
qed

text \<open>All coding shreds of a list announce the same batch sizes.\<close>

definition codes_announce :: "u16 \<Rightarrow> u16 \<Rightarrow> shred list \<Rightarrow> bool" where
  "codes_announce k m xs \<longleftrightarrow> (\<forall>c. ShredCode c \<in> set xs \<longrightarrow>
     num_data_shreds (sc_coding_header c) = k \<and> num_coding_shreds (sc_coding_header c) = m)"

lemma fold_count_announced:
  assumes "codes_announce k m xs" "k \<noteq> 0" "(ed, ec) = (k, m) \<or> (\<exists>s\<in>set xs. \<not> is_data s)"
  shows "\<exists>nd' nc'. fold count_shred xs (ed, ec, nd, nc) = (k, m, nd', nc')"
  using assms
proof (induction xs arbitrary: ed ec nd nc)
  case Nil
  then show ?case by simp
next
  case (Cons x xs)
  have agree: "codes_announce k m xs" using Cons.prems by (auto simp: codes_announce_def)
  show ?case
  proof (cases x)
    case (ShredCode c)
    then have "count_shred x (ed, ec, nd, nc) = (k, m, nd, nc + 1)"
      using Cons.prems by (simp add: codes_announce_def)
    then show ?thesis using Cons.IH[OF agree Cons.prems(2)] by simp
  next
    case (ShredData d)
    obtain ed' where ed': "count_shred x (ed, ec, nd, nc) = (ed', ec, nd + 1, nc)"
      "ed = k \<Longrightarrow> ed' = k"
      using ShredData Cons.prems(2) by auto
    have "(ed', ec) = (k, m) \<or> (\<exists>s\<in>set xs. \<not> is_data s)"
      using Cons.prems(3) ShredData ed'(2) by auto
    then show ?thesis using Cons.IH[OF agree Cons.prems(2)] ed'(1) by simp
  qed
qed

text \<open>The position a completing data shred gives to the end of its FEC set.\<close>

fun expected_from :: "shred \<Rightarrow> u16" where
  "expected_from s = ucast (shred_index s - shred_fec_set_index s) + 1"

definition completes_announce :: "u16 \<Rightarrow> shred list \<Rightarrow> bool" where
  "completes_announce k xs \<longleftrightarrow> (\<forall>s\<in>set xs. completes s \<longrightarrow> expected_from s = k)"

lemma fold_count_data_only:
  assumes "\<forall>s\<in>set xs. is_data s" "completes_announce k xs" "k \<noteq> 0" "ed \<in> {0, k}"
  shows "\<exists>nd'. fold count_shred xs (ed, ec, nd, nc) =
     (if ed = k \<or> (\<exists>s\<in>set xs. completes s) then k else 0, ec, nd', nc)"
  using assms
proof (induction xs arbitrary: ed nd)
  case Nil
  then show ?case by auto
next
  case (Cons x xs)
  then obtain d where d: "x = ShredData d" by (cases x) auto
  have k: "completes_announce k xs" using Cons.prems by (simp add: completes_announce_def)
  define ed' where "ed' = fst (count_shred x (ed, ec, nd, nc))"
  have ed': "ed' = (if ed = k \<or> completes x then k else 0)"
    using Cons.prems by (auto simp: d ed'_def completes_announce_def)
  have "fold count_shred (x # xs) (ed, ec, nd, nc) = fold count_shred xs (ed', ec, nd + 1, nc)"
    by (simp add: d ed'_def)
  moreover obtain nd' where "fold count_shred xs (ed', ec, nd + 1, nc) =
      (if ed' = k \<or> (\<exists>s\<in>set xs. completes s) then k else 0, ec, nd', nc)"
    using Cons.IH[OF _ k Cons.prems(3), of ed' "nd + 1"] Cons.prems(1) ed'
    by (metis insertCI list.set_intros(2))
  moreover have "ed' = k \<longleftrightarrow> ed = k \<or> completes x" using ed' Cons.prems(3) by simp
  ultimately show ?case by (simp add: disj_assoc)
qed

lemma length_filter_set_order:
  "ledger_ok L \<Longrightarrow> length (filter P (set_order L xs)) = length (filter P xs)"
  by (metis mset_filter mset_set_order size_mset)

lemma get_data_shred_info_counts:
  assumes "ledger_ok L" "get_data_shred_info L xs = (ed, ec, nd, nc)"
  shows "nd = of_nat (length (filter is_data xs))"
    and "nc = of_nat (length (filter (Not \<circ> is_data) xs))"
  using assms fold_count_counts[of "set_order L xs" 0 0 0 0]
  by (simp_all add: get_data_shred_info_def length_filter_set_order)

text \<open>
  With a coding shred in the set, the sizes it announces are what is returned, whatever
  the iteration order.
\<close>

lemma get_data_shred_info_coded:
  assumes L: "ledger_ok L" and c: "codes_announce k m xs" "k \<noteq> 0" "\<exists>s\<in>set xs. \<not> is_data s"
  shows "get_data_shred_info L xs =
     (k, m, of_nat (length (filter is_data xs)), of_nat (length (filter (Not \<circ> is_data) xs)))"
proof -
  obtain nd nc where eq: "get_data_shred_info L xs = (k, m, nd, nc)"
    using fold_count_announced[of k m "set_order L xs" 0 0 0 0] c
    by (auto simp: get_data_shred_info_def codes_announce_def set_set_order[OF L])
  then show ?thesis using get_data_shred_info_counts[OF L eq] by simp
qed

lemma get_data_shred_info_uncoded:
  assumes L: "ledger_ok L" and d: "\<forall>s\<in>set xs. is_data s" "completes_announce k xs" "k \<noteq> 0"
  shows "get_data_shred_info L xs =
     (if \<exists>s\<in>set xs. completes s then k else 0, 0, of_nat (length xs), 0)"
proof -
  obtain nd where eq: "get_data_shred_info L xs = (if \<exists>s\<in>set xs. completes s then k else 0, 0, nd, 0)"
    using fold_count_data_only[of "set_order L xs" k 0 0 0 0] d
    by (auto simp: get_data_shred_info_def completes_announce_def set_set_order[OF L])
  have "filter is_data xs = xs" using d(1) by (simp add: filter_id_conv)
  then show ?thesis using get_data_shred_info_counts(1)[OF L eq] eq by simp
qed

end
