(* ===== verification/Comparable.thy ===== *)
theory Comparable
  imports Ledger
begin

text \<open>
  \<open>ComparableShred\<close> of \<^verbatim>\<open>proxy/src/deshred.rs\<close>: its \<^verbatim>\<open>PartialEq\<close> and
  \<^verbatim>\<open>Hash\<close> implementations, and the \<^verbatim>\<open>HashSet\<close> of such shreds that each FEC set
  is kept in. The interface \<open>hash_key\<close> is the contract the standard library asks of a key
  type; on sanitized shreds the implementations meet it.
\<close>

section \<open>Equality and hashing\<close>

text \<open>
  \<open>None\<close> is the panic of \<^verbatim>\<open>payload[..comparison_len]\<close> on a short payload. The
  slices are only taken when both headers agree, as \<^verbatim>\<open>&&\<close> short-circuits.
\<close>

definition comparison_len :: "ledger \<Rightarrow> u8 \<Rightarrow> bool \<Rightarrow> nat" where
  "comparison_len L psize resgn =
     CODE_SIZE_OF_PAYLOAD L
       - (unat psize * SIZE_OF_MERKLE_PROOF_ENTRY L + (if resgn then SIZE_OF_SIGNATURE L else 0))"

fun comparable_eq :: "ledger \<Rightarrow> shred \<Rightarrow> shred \<Rightarrow> bool option" where
  "comparable_eq L (ShredCode s1) (ShredCode s2) =
     (case ch_shred_variant (sc_common_header s1) of
        MerkleCode psize _ resgn \<Rightarrow>
          (let n = comparison_len L psize resgn in
           if sc_coding_header s1 = sc_coding_header s2 \<and> sc_common_header s1 = sc_common_header s2
           then do { p1 \<leftarrow> slice_to (sc_payload s1) n; p2 \<leftarrow> slice_to (sc_payload s2) n;
                     Some (p1 = p2) }
           else Some False)
      | OtherVariant _ \<Rightarrow> Some False)"
| "comparable_eq L (ShredCode _) (ShredData _) = Some False"
| "comparable_eq L (ShredData _) (ShredCode _) = Some False"
| "comparable_eq L (ShredData s1) (ShredData s2) =
     (case get_data L (sd_payload s1) of
        Inl _ \<Rightarrow> Some False
      | Inr d1 \<Rightarrow> (case get_data L (sd_payload s2) of
            Inl _ \<Rightarrow> Some False
          | Inr d2 \<Rightarrow> Some (sd_data_header s1 = sd_data_header s2
              \<and> sd_common_header s1 = sd_common_header s2 \<and> d1 = d2)))"

text \<open>What the \<^verbatim>\<open>Hash\<close> implementation feeds to the hasher.\<close>

fun hash_input :: "shred \<Rightarrow> shred_common_header \<times> (coding_shred_header + bytes)" where
  "hash_input (ShredCode s) = (sc_common_header s, Inl (sc_coding_header s))"
| "hash_input (ShredData s) = (sd_common_header s, Inr (sd_data_header s))"

section \<open>Hash sets over a key type\<close>

text \<open>
  A hash set is the list of its elements. A lookup compares the key with the stored
  elements; under the contract below it does not matter which elements of a different
  hash it also compares.
\<close>

fun hs_member :: "('a \<Rightarrow> 'a \<Rightarrow> bool option) \<Rightarrow> 'a \<Rightarrow> 'a list \<Rightarrow> bool option" where
  "hs_member eq x [] = Some False"
| "hs_member eq x (y # ys) = do { b \<leftarrow> eq x y; if b then Some True else hs_member eq x ys }"

definition hs_insert :: "('a \<Rightarrow> 'a \<Rightarrow> bool option) \<Rightarrow> 'a \<Rightarrow> 'a list \<Rightarrow> 'a list option" where
  "hs_insert eq x ys = do { b \<leftarrow> hs_member eq x ys; Some (if b then ys else ys @ [x]) }"

text \<open>No two stored elements are equal.\<close>

definition hs_distinct :: "('a \<Rightarrow> 'a \<Rightarrow> bool option) \<Rightarrow> 'a list \<Rightarrow> bool" where
  "hs_distinct eq ys \<longleftrightarrow> sorted_wrt (\<lambda>x y. eq x y = Some False) ys"

locale hash_key =
  fixes ok :: "'a \<Rightarrow> bool"
    and eq :: "'a \<Rightarrow> 'a \<Rightarrow> bool option"
    and hash :: "'a \<Rightarrow> 'h"
  assumes eq_total: "ok a \<Longrightarrow> ok b \<Longrightarrow> \<exists>r. eq a b = Some r"
    and eq_refl: "ok a \<Longrightarrow> eq a a = Some True"
    and eq_sym: "ok a \<Longrightarrow> ok b \<Longrightarrow> eq a b = eq b a"
    and eq_trans: "ok a \<Longrightarrow> ok b \<Longrightarrow> ok c \<Longrightarrow> eq a b = Some True \<Longrightarrow> eq b c = Some True \<Longrightarrow>
      eq a c = Some True"
    and eq_hash: "ok a \<Longrightarrow> ok b \<Longrightarrow> eq a b = Some True \<Longrightarrow> hash a = hash b"
begin

lemma member_eq:
  "ok x \<Longrightarrow> \<forall>y\<in>set ys. ok y \<Longrightarrow> hs_member eq x ys = Some (\<exists>y\<in>set ys. eq x y = Some True)"
proof (induction ys)
  case Nil
  then show ?case by simp
next
  case (Cons y ys)
  then obtain b where "eq x y = Some b" using eq_total[of x y] by auto
  then show ?case using Cons by (cases b) auto
qed

lemma insert_total:
  assumes "ok x" "\<forall>y\<in>set ys. ok y"
  shows "\<exists>ys'. hs_insert eq x ys = Some ys' \<and> (\<forall>y\<in>set ys'. ok y) \<and> set ys' \<subseteq> insert x (set ys)
    \<and> set ys \<subseteq> set ys'"
  using assms by (auto simp: hs_insert_def member_eq)

lemma insert_distinct:
  assumes "ok x" "\<forall>y\<in>set ys. ok y" "hs_distinct eq ys" "hs_insert eq x ys = Some ys'"
  shows "hs_distinct eq ys'"
proof (cases "\<exists>y\<in>set ys. eq x y = Some True")
  case True
  then show ?thesis using assms by (simp add: hs_insert_def member_eq)
next
  case False
  have "eq y x = Some False" if "y \<in> set ys" for y
    using that False assms(1,2) eq_total[of x y] eq_sym[of y x] by (metis (full_types))
  then show ?thesis using False assms
    by (auto simp: hs_insert_def member_eq hs_distinct_def sorted_wrt_append)
qed

lemma insert_member:
  assumes "ok x" "\<forall>y\<in>set ys. ok y" "hs_insert eq x ys = Some ys'"
  shows "hs_insert eq x ys' = Some ys'"
proof -
  have "\<forall>y\<in>set ys'. ok y" using insert_total[OF assms(1,2)] assms(3) by auto
  moreover have "\<exists>y\<in>set ys'. eq x y = Some True"
    using assms eq_refl[of x] by (auto simp: hs_insert_def member_eq split: if_splits)
  ultimately show ?thesis using assms(1) by (simp add: hs_insert_def member_eq)
qed

end

section \<open>Shreds as keys\<close>

lemma comparable_eq_code:
  assumes "shred_ok L (ShredCode a)" "shred_ok L (ShredCode b)"
    and "ch_shred_variant (sc_common_header a) = MerkleCode p c r"
  shows "comparable_eq L (ShredCode a) (ShredCode b) =
     Some (sc_coding_header a = sc_coding_header b \<and> sc_common_header a = sc_common_header b
       \<and> take (comparison_len L p r) (sc_payload a) = take (comparison_len L p r) (sc_payload b))"
proof -
  have "comparison_len L p r \<le> CODE_SIZE_OF_PAYLOAD L" by (simp add: comparison_len_def)
  then show ?thesis using assms by (auto simp: slice_to_def Let_def)
qed

text \<open>The part of a payload that takes part in a comparison.\<close>

fun compared_payload :: "ledger \<Rightarrow> shred \<Rightarrow> err + bytes" where
  "compared_payload L (ShredCode s) = (case ch_shred_variant (sc_common_header s) of
      MerkleCode p _ r \<Rightarrow> Inr (take (comparison_len L p r) (sc_payload s))
    | OtherVariant v \<Rightarrow> Inr (sc_payload s))"
| "compared_payload L (ShredData s) = get_data L (sd_payload s)"

text \<open>On sanitized shreds equality is equality of the hashed headers and of that part.\<close>

lemma comparable_eq_iff:
  assumes "shred_ok L a" "shred_ok L b"
  shows "comparable_eq L a b =
     Some (hash_input a = hash_input b \<and> compared_payload L a = compared_payload L b)"
proof (cases a)
  case a: (ShredData x)
  then show ?thesis using assms by (cases b) auto
next
  case a: (ShredCode x)
  then obtain p c r where v: "ch_shred_variant (sc_common_header x) = MerkleCode p c r"
    using assms(1) by auto
  show ?thesis
  proof (cases b)
    case (ShredCode y)
    show ?thesis
    proof (cases "sc_common_header x = sc_common_header y")
      case True
      then show ?thesis using a ShredCode v assms comparable_eq_code[of L x y p c r] by auto
    next
      case False
      then show ?thesis using a ShredCode v by (simp add: Let_def)
    qed
  qed (simp add: a)
qed

interpretation shred_key: hash_key "shred_ok L" "comparable_eq L" hash_input for L
  by unfold_locales (auto simp: comparable_eq_iff)

end
