(* ===== verification/Shred_Metrics.thy ===== *)
theory Shred_Metrics
  imports Net_Addr
begin

text \<open>
  \<^verbatim>\<open>ShredMetrics\<close> of \<^verbatim>\<open>proxy/src/forwarder.rs\<close>: the counters shared by the
  reconstructor, the forwarders, the accessory thread and the heartbeat. A counter is an
  \<^verbatim>\<open>AtomicU64\<close>; \<^verbatim>\<open>fetch_add\<close> wraps and \<^verbatim>\<open>swap(0)\<close> returns the old
  value. The per-source map is a \<^verbatim>\<open>DashMap\<close>.
\<close>

record ShredMetrics =
  received :: u64
  success_forward :: u64
  fail_forward :: u64
  duplicate :: u64
  packets_received :: "(IpAddr \<times> (u64 \<times> u64)) list"
  send_batch_size_sum :: u64
  send_batch_count :: u64
  saturated_iov_count :: u64
  unsaturated_iov_count :: u64
  enabled_grpc_service :: bool
  recovered_count :: u64
  entry_count :: u64
  txn_count :: u64
  unknown_start_position_count :: u64
  fec_recovery_error_count :: u64
  bincode_deserialize_error_count :: u64
  unknown_start_position_error_count :: u64
  dedup_time_spent :: u64
  batch_send_time_spent :: u64
  agg_received_cumulative :: u64
  agg_success_forward_cumulative :: u64
  agg_fail_forward_cumulative :: u64
  duplicate_cumulative :: u64

definition ShredMetrics_new :: "bool \<Rightarrow> ShredMetrics" where
  "ShredMetrics_new grpc = \<lparr>
     received = 0, success_forward = 0, fail_forward = 0, duplicate = 0,
     packets_received = [],
     send_batch_size_sum = 0, send_batch_count = 0,
     saturated_iov_count = 0, unsaturated_iov_count = 0,
     enabled_grpc_service = grpc,
     recovered_count = 0, entry_count = 0, txn_count = 0,
     unknown_start_position_count = 0, fec_recovery_error_count = 0,
     bincode_deserialize_error_count = 0, unknown_start_position_error_count = 0,
     dedup_time_spent = 0, batch_send_time_spent = 0,
     agg_received_cumulative = 0, agg_success_forward_cumulative = 0,
     agg_fail_forward_cumulative = 0, duplicate_cumulative = 0\<rparr>"

section \<open>Reporting\<close>

text \<open>A data point: its name, its address tag if it has one, and its fields.\<close>

record datapoint =
  dp_name :: string
  dp_addr :: "IpAddr option"
  dp_fields :: "(string \<times> u64) list"

abbreviation point :: "string \<Rightarrow> (string \<times> u64) list \<Rightarrow> datapoint" where
  "point name fs \<equiv> \<lparr>dp_name = name, dp_addr = None, dp_fields = fs\<rparr>"

text \<open>
  The counters of the entry service are read with \<^verbatim>\<open>swap(0)\<close> and only when the service is
  enabled; the per-source map is emptied by its \<^verbatim>\<open>retain\<close>, one data point per source; the
  connection counters are only loaded.
\<close>

definition service_point :: "ShredMetrics \<Rightarrow> datapoint" where
  "service_point m = point ''shredstream_proxy-service_metrics''
     [(''recovered_count'', recovered_count m),
      (''entry_count'', entry_count m),
      (''txn_count'', txn_count m),
      (''unknown_start_position_count'', unknown_start_position_count m),
      (''fec_recovery_error_count'', fec_recovery_error_count m),
      (''bincode_deserialize_error_count'', bincode_deserialize_error_count m),
      (''unknown_start_position_error_count'', unknown_start_position_error_count m)]"

definition clear_service :: "ShredMetrics \<Rightarrow> ShredMetrics" where
  "clear_service m = m\<lparr>recovered_count := 0, entry_count := 0, txn_count := 0,
     unknown_start_position_count := 0, fec_recovery_error_count := 0,
     bincode_deserialize_error_count := 0, unknown_start_position_error_count := 0\<rparr>"

definition source_point :: "IpAddr \<times> (u64 \<times> u64) \<Rightarrow> datapoint" where
  "source_point = (\<lambda>(addr, (discarded, not_discarded)).
     \<lparr>dp_name = ''shredstream_proxy-receiver_stats'', dp_addr = Some addr,
      dp_fields = [(''discarded_packets'', discarded), (''not_discarded_packets'', not_discarded)]\<rparr>)"

definition report :: "ShredMetrics \<Rightarrow> ShredMetrics \<times> datapoint list" where
  "report m =
     ((if enabled_grpc_service m then clear_service m else m)
        \<lparr>packets_received := alist_retain (\<lambda>_ _. False) (packets_received m)\<rparr>,
      [point ''shredstream_proxy-connection_metrics''
         [(''received'', received m), (''success_forward'', success_forward m),
          (''fail_forward'', fail_forward m), (''duplicate'', duplicate m)],
       point ''shredstream_proxy-sendmmsg_iov_metrics''
         [(''max_iov_count'', saturated_iov_count m),
          (''unsaturated_iov_count'', unsaturated_iov_count m)],
       point ''shredstream_proxy-batch_send_metrics''
         [(''send_batch_size_sum'', send_batch_size_sum m), (''send_batch_count'', send_batch_count m)],
       point ''shredstream_proxy-time_allocation''
         [(''deduping'', dedup_time_spent m), (''batch_send'', batch_send_time_spent m)]]
      @ (if enabled_grpc_service m then [service_point m] else [])
      @ map source_point (packets_received m))"

section \<open>Reset\<close>

text \<open>The four counters that have a cumulative counterpart.\<close>

datatype tally = Received | SuccessForward | FailForward | Duplicate

fun current :: "tally \<Rightarrow> ShredMetrics \<Rightarrow> u64" where
  "current Received m = received m"
| "current SuccessForward m = success_forward m"
| "current FailForward m = fail_forward m"
| "current Duplicate m = duplicate m"

fun set_current :: "tally \<Rightarrow> u64 \<Rightarrow> ShredMetrics \<Rightarrow> ShredMetrics" where
  "set_current Received n m = m\<lparr>received := n\<rparr>"
| "set_current SuccessForward n m = m\<lparr>success_forward := n\<rparr>"
| "set_current FailForward n m = m\<lparr>fail_forward := n\<rparr>"
| "set_current Duplicate n m = m\<lparr>duplicate := n\<rparr>"

fun cumulative :: "tally \<Rightarrow> ShredMetrics \<Rightarrow> u64" where
  "cumulative Received m = agg_received_cumulative m"
| "cumulative SuccessForward m = agg_success_forward_cumulative m"
| "cumulative FailForward m = agg_fail_forward_cumulative m"
| "cumulative Duplicate m = duplicate_cumulative m"

fun set_cumulative :: "tally \<Rightarrow> u64 \<Rightarrow> ShredMetrics \<Rightarrow> ShredMetrics" where
  "set_cumulative Received n m = m\<lparr>agg_received_cumulative := n\<rparr>"
| "set_cumulative SuccessForward n m = m\<lparr>agg_success_forward_cumulative := n\<rparr>"
| "set_cumulative FailForward n m = m\<lparr>agg_fail_forward_cumulative := n\<rparr>"
| "set_cumulative Duplicate n m = m\<lparr>duplicate_cumulative := n\<rparr>"

lemma tally_frame [simp]:
  "current c (set_current c' n m) = (if c = c' then n else current c m)"
  "cumulative c (set_current c' n m) = cumulative c m"
  "current c (set_cumulative c' n m) = current c m"
  "cumulative c (set_cumulative c' n m) = (if c = c' then n else cumulative c m)"
  by (cases c; cases c'; simp)+

text \<open>
  \<^verbatim>\<open>reset\<close> as the sequence of its atomic operations: every \<^verbatim>\<open>swap(0)\<close> leaves the old value in
  a temporary, and the \<^verbatim>\<open>fetch_add\<close> around it adds that temporary to the cumulative counter.
  Other threads may run between any two of them.
\<close>

datatype reset_op =
    SwapOut tally | AddIn tally
  | SwapDedupTime | SwapSendTime | SwapBatchSize | SwapBatchCount | SwapSaturated | SwapUnsaturated

fun reset_step :: "reset_op \<Rightarrow> ShredMetrics \<times> u64 \<Rightarrow> ShredMetrics \<times> u64" where
  "reset_step (SwapOut c) (m, t) = (set_current c 0 m, current c m)"
| "reset_step (AddIn c) (m, t) = (set_cumulative c (cumulative c m + t) m, t)"
| "reset_step SwapDedupTime (m, t) = (m\<lparr>dedup_time_spent := 0\<rparr>, t)"
| "reset_step SwapSendTime (m, t) = (m\<lparr>batch_send_time_spent := 0\<rparr>, t)"
| "reset_step SwapBatchSize (m, t) = (m\<lparr>send_batch_size_sum := 0\<rparr>, t)"
| "reset_step SwapBatchCount (m, t) = (m\<lparr>send_batch_count := 0\<rparr>, t)"
| "reset_step SwapSaturated (m, t) = (m\<lparr>saturated_iov_count := 0\<rparr>, t)"
| "reset_step SwapUnsaturated (m, t) = (m\<lparr>unsaturated_iov_count := 0\<rparr>, t)"

definition reset_ops :: "reset_op list" where
  "reset_ops = [SwapOut Received, AddIn Received, SwapOut SuccessForward, AddIn SuccessForward,
     SwapOut FailForward, AddIn FailForward, SwapOut Duplicate, AddIn Duplicate,
     SwapDedupTime, SwapSendTime, SwapBatchSize, SwapBatchCount, SwapSaturated, SwapUnsaturated]"

definition reset :: "ShredMetrics \<Rightarrow> ShredMetrics" where
  "reset m = fst (fold reset_step reset_ops (m, 0))"

lemma reset_eq:
  "reset m = m\<lparr>
     received := 0, success_forward := 0, fail_forward := 0, duplicate := 0,
     send_batch_size_sum := 0, send_batch_count := 0,
     saturated_iov_count := 0, unsaturated_iov_count := 0,
     dedup_time_spent := 0, batch_send_time_spent := 0,
     agg_received_cumulative := agg_received_cumulative m + received m,
     agg_success_forward_cumulative := agg_success_forward_cumulative m + success_forward m,
     agg_fail_forward_cumulative := agg_fail_forward_cumulative m + fail_forward m,
     duplicate_cumulative := duplicate_cumulative m + duplicate m\<rparr>"
  by (simp add: reset_def reset_ops_def)

section \<open>Interleaving with the other threads\<close>

text \<open>
  Between two operations of \<^verbatim>\<open>reset\<close> the forwarders may add to the counters. \<open>race ops (m, t) tot m'\<close>:
  with \<open>ops\<close> still to run and \<open>t\<close> in the temporary, the counters go from \<open>m\<close> to \<open>m'\<close> while the
  others add \<open>tot c\<close> in total to the counter \<open>c\<close>.
\<close>

inductive race ::
  "reset_op list \<Rightarrow> ShredMetrics \<times> u64 \<Rightarrow> (tally \<Rightarrow> u64) \<Rightarrow> ShredMetrics \<Rightarrow> bool" where
  race_done: "race [] (m, t) (\<lambda>_. 0) m"
| race_op: "race ops (reset_step op mt) tot m' \<Longrightarrow> race (op # ops) mt tot m'"
| race_add: "race ops (set_current c (current c m + n) m, t) tot m' \<Longrightarrow>
    race ops (m, t) (tot(c := n + tot c)) m'"

text \<open>What is accounted for: current, cumulative, and what a swap holds in the temporary.\<close>

definition accounted :: "tally \<Rightarrow> reset_op list \<Rightarrow> ShredMetrics \<times> u64 \<Rightarrow> u64" where
  "accounted c ops = (\<lambda>(m, t). current c m + cumulative c m +
     (case ops of AddIn c' # _ \<Rightarrow> if c = c' then t else 0 | _ \<Rightarrow> 0))"

text \<open>Every swap of a persistent counter is followed by its addition, and only then.\<close>

fun paired :: "reset_op list \<Rightarrow> bool" where
  "paired (SwapOut c # AddIn c' # ops) = (c = c' \<and> paired ops)"
| "paired (SwapOut c # ops) = False"
| "paired (AddIn c # ops) = False"
| "paired (op # ops) = paired ops"
| "paired [] = True"

definition resumable :: "reset_op list \<Rightarrow> bool" where
  "resumable ops = (case ops of AddIn c # ops' \<Rightarrow> paired ops' | _ \<Rightarrow> paired ops)"

lemma reset_ops_paired: "paired reset_ops"
  by (simp add: reset_ops_def)

lemma paired_resumable: "paired ops \<Longrightarrow> resumable ops"
  by (cases ops rule: paired.cases) (auto simp: resumable_def)

lemma accounted_paired: "paired ops \<Longrightarrow> accounted c ops (m, t) = current c m + cumulative c m"
  by (cases ops rule: paired.cases) (auto simp: accounted_def)

lemma tally_other [simp]:
  "current c (m\<lparr>dedup_time_spent := n\<rparr>) = current c m"
  "current c (m\<lparr>batch_send_time_spent := n\<rparr>) = current c m"
  "current c (m\<lparr>send_batch_size_sum := n\<rparr>) = current c m"
  "current c (m\<lparr>send_batch_count := n\<rparr>) = current c m"
  "current c (m\<lparr>saturated_iov_count := n\<rparr>) = current c m"
  "current c (m\<lparr>unsaturated_iov_count := n\<rparr>) = current c m"
  "cumulative c (m\<lparr>dedup_time_spent := n\<rparr>) = cumulative c m"
  "cumulative c (m\<lparr>batch_send_time_spent := n\<rparr>) = cumulative c m"
  "cumulative c (m\<lparr>send_batch_size_sum := n\<rparr>) = cumulative c m"
  "cumulative c (m\<lparr>send_batch_count := n\<rparr>) = cumulative c m"
  "cumulative c (m\<lparr>saturated_iov_count := n\<rparr>) = cumulative c m"
  "cumulative c (m\<lparr>unsaturated_iov_count := n\<rparr>) = cumulative c m"
  by (cases c; simp)+

lemma resumable_step:
  assumes "resumable (op # ops)"
  shows "resumable ops \<and> accounted c (op # ops) (m, t) = accounted c ops (reset_step op (m, t))"
proof (cases op)
  case (SwapOut d)
  then obtain ops' where "ops = AddIn d # ops'" "paired ops'"
    using assms by (cases ops rule: list.exhaust; cases "hd ops") (auto simp: resumable_def)
  then show ?thesis using SwapOut by (simp add: resumable_def accounted_def)
next
  case (AddIn d)
  then have "paired ops" using assms by (simp add: resumable_def)
  then show ?thesis using AddIn by (simp add: accounted_paired paired_resumable) (simp add: accounted_def)
qed (use assms in \<open>simp_all add: resumable_def accounted_paired paired_resumable[unfolded resumable_def]\<close>)

lemma race_accounted:
  "race ops mt tot m' \<Longrightarrow> resumable ops \<Longrightarrow> current c m' + cumulative c m' = accounted c ops mt + tot c"
proof (induction ops mt tot m' rule: race.induct)
  case (race_done m t)
  then show ?case by (simp add: accounted_def)
next
  case (race_op ops op mt tot m')
  then show ?case using resumable_step[of op ops c] by (cases mt) auto
next
  case (race_add ops d m n t tot m')
  then show ?case by (auto simp: accounted_def)
qed

lemma race_seq: "race ops mt (\<lambda>_. 0) (fst (fold reset_step ops mt))"
proof (induction ops arbitrary: mt)
  case Nil
  then show ?case by (cases mt) (simp add: race_done)
next
  case (Cons op ops)
  then show ?case by (simp add: race_op)
qed

text \<open>
  \<^verbatim>\<open>report\<close> loads the counters and \<^verbatim>\<open>reset\<close> swaps them out later: what is added in between is in no
  data point, neither in this one nor in the next, although it reaches the cumulative counters.
\<close>

lemma reported_window:
  assumes "report m = (m1, ps)" "m2 = reset (m1\<lparr>received := received m1 + n\<rparr>)"
  shows "hd ps = point ''shredstream_proxy-connection_metrics''
       [(''received'', received m), (''success_forward'', success_forward m),
        (''fail_forward'', fail_forward m), (''duplicate'', duplicate m)]"
    and "received m2 = 0"
    and "agg_received_cumulative m2 = agg_received_cumulative m + received m + n"
  using assms by (auto simp: report_def reset_eq clear_service_def)

section \<open>Properties\<close>

text \<open>C17: No packet count is lost when the metrics are reset while forwarders keep adding to the
counters: whatever the interleaving of the atomic operations, for each of the received, forwarded,
failed and duplicate counters, the current plus the cumulative value afterwards is the current plus
the cumulative value before plus everything added meanwhile.\<close>

theorem reset_race_conserves:
  assumes "race reset_ops (m, t) tot m'"
  shows "current c m' + cumulative c m' = current c m + cumulative c m + tot c"
  using race_accounted[OF assms, of c] paired_resumable[OF reset_ops_paired]
  by (simp add: accounted_paired[OF reset_ops_paired])

definition ex_racing :: ShredMetrics where
  "ex_racing = (ShredMetrics_new True)\<lparr>received := 7, agg_received_cumulative := 30\<rparr>"

text \<open>Five packets arrive between the swap of \<^verbatim>\<open>received\<close> and the addition of the old value.\<close>

theorem reset_race_conserves_witness:
  "\<exists>m'. race reset_ops (ex_racing, 0) ((\<lambda>_. 0)(Received := 5)) m' \<and>
     current Received m' + cumulative Received m' = 42"
proof -
  let ?mid = "(set_current Received (current Received (ex_racing\<lparr>received := 0\<rparr>) + 5) (ex_racing\<lparr>received := 0\<rparr>), 7)"
  let ?m' = "fst (fold reset_step (tl reset_ops) ?mid)"
  have "race (tl reset_ops) (ex_racing\<lparr>received := 0\<rparr>, 7) ((\<lambda>_. 0)(Received := 5 + 0)) ?m'"
    by (rule race_add[OF race_seq])
  then have "race (SwapOut Received # tl reset_ops) (ex_racing, 0) ((\<lambda>_. 0)(Received := 5)) ?m'"
    by (intro race_op) (simp add: ex_racing_def)
  then have r: "race reset_ops (ex_racing, 0) ((\<lambda>_. 0)(Received := 5)) ?m'"
    by (simp add: reset_ops_def)
  show ?thesis using reset_race_conserves[OF r, of Received] r
    by (intro exI[of _ ?m']) (simp add: ex_racing_def)
qed

text \<open>A metrics tick (report, then reset) emits every per-source entry exactly once and empties
the per-source map; it emits and clears the entry-service counters exactly when the service is
enabled; it clears the counters of the interval and moves the four persistent ones into their
cumulative counterparts, leaving the sums unchanged.\<close>

theorem metrics_tick_effect:
  "report m = (m', ps) \<Longrightarrow>
     [p \<leftarrow> ps. dp_addr p \<noteq> None] = map source_point (packets_received m) \<and>
     (service_point m \<in> set ps \<longleftrightarrow> enabled_grpc_service m) \<and>
     packets_received (reset m') = [] \<and>
     entry_count (reset m') = (if enabled_grpc_service m then 0 else entry_count m) \<and>
     recovered_count (reset m') = (if enabled_grpc_service m then 0 else recovered_count m) \<and>
     (\<forall>c. current c (reset m') = 0 \<and> cumulative c (reset m') = cumulative c m + current c m)"
proof -
  assume r: "report m = (m', ps)"
  have src: "[p \<leftarrow> map source_point xs. dp_addr p \<noteq> None] = map source_point xs"
    "service_point m \<notin> set (map source_point xs)" for xs
    by (auto simp: source_point_def service_point_def filter_id_conv)
  have ps: "[p \<leftarrow> ps. dp_addr p \<noteq> None] = map source_point (packets_received m)"
    using r src(1)[of "packets_received m"] by (auto simp: report_def service_point_def)
  have "service_point m \<in> set ps \<longleftrightarrow> enabled_grpc_service m"
    using r src(2)[of "packets_received m"] by (auto simp: report_def service_point_def)
  moreover have "current c (reset m') = 0 \<and> cumulative c (reset m') = cumulative c m + current c m" for c
    using r by (cases c) (auto simp: report_def reset_eq clear_service_def)
  ultimately show ?thesis using r ps
    by (auto simp: report_def reset_eq clear_service_def alist_retain_def)
qed

theorem metrics_tick_effect_witness:
  "\<exists>m' ps. report (ex_racing\<lparr>packets_received := [(V4 9, (1, 2))]\<rparr>) = (m', ps) \<and>
     [p \<leftarrow> ps. dp_addr p \<noteq> None] = [source_point (V4 9, (1, 2))] \<and> packets_received (reset m') = [] \<and>
     cumulative Received (reset m') = 37"
proof -
  obtain m' ps where r: "report (ex_racing\<lparr>packets_received := [(V4 9, (1, 2))]\<rparr>) = (m', ps)" by force
  note e = metrics_tick_effect[OF r]
  have "cumulative Received (reset m') = 37"
    using e[THEN conjunct2, THEN conjunct2, THEN conjunct2, THEN conjunct2, THEN conjunct2, rule_format, of Received]
    by (simp add: ex_racing_def)
  then show ?thesis using e r by (intro exI[of _ m'] exI[of _ ps]) simp
qed

end
