(* ===== verification/Deshred.thy ===== *)
theory Deshred
  imports Tracker Comparable Shred_Metrics
begin

text \<open>
  \<open>reconstruct_shreds\<close> of \<^verbatim>\<open>proxy/src/deshred.rs\<close>: ingestion of the packets of
  a batch, recovery per FEC set, deshredding of complete segments, eviction of old slots.
  Each loop body is one definition; the state they thread is \<open>recon_state\<close>. \<open>None\<close> is a
  panic. Log lines are not modelled; the \<^verbatim>\<open>datapoint_warn!\<close> of the eviction is the
  \<open>missed_report\<close> in the result.
\<close>

section \<open>State\<close>

type_synonym fec_sets = "(u32 \<times> shred list) list"
type_synonym slot_state = "fec_sets \<times> ShredsStateTracker"

record recon_state =
  all_shreds :: "(u64 \<times> slot_state) list"
  slot_fec_indexes_to_iterate :: "(u64 \<times> u32) list"
  deshredded_entries :: "(u64 \<times> entry list \<times> bytes) list"
  highest_slot_seen :: u64
  rc_metrics :: ShredMetrics

definition SLOT_LOOKBACK :: u64 where
  "SLOT_LOOKBACK = 50"

definition slot_threshold :: "u64 \<Rightarrow> u64" where
  "slot_threshold highest = saturating_sub highest SLOT_LOOKBACK"

text \<open>\<^verbatim>\<open>all_shreds.entry(slot).or_default()\<close>\<close>

definition slot_entry :: "ledger \<Rightarrow> u64 \<Rightarrow> recon_state \<Rightarrow> slot_state" where
  "slot_entry L slot st = or_default ([], default_tracker L) slot (all_shreds st)"

definition put_slot :: "u64 \<Rightarrow> slot_state \<Rightarrow> recon_state \<Rightarrow> recon_state" where
  "put_slot slot v st = st\<lparr>all_shreds := AList.update slot v (all_shreds st)\<rparr>"

section \<open>Ingestion\<close>

definition ingest_shred :: "ledger \<Rightarrow> shred \<Rightarrow> recon_state \<Rightarrow> recon_state option" where
  "ingest_shred L shred st = do {
     let slot = shred_slot shred;
     let index = unat (shred_index shred);
     let fec_set_index = shred_fec_set_index shred;
     let (fec_sets, tracker) = slot_entry L slot st;
     let st = put_slot slot (fec_sets, tracker) st;
     if slot < slot_threshold (highest_slot_seen st) then Some st
     else do {
       recovered \<leftarrow> vec_get (already_recovered_fec_sets tracker) (unat fec_set_index);
       completed \<leftarrow> (if recovered then Some True else vec_get (already_deshredded tracker) index);
       if completed then Some st
       else do {
         (tracker', inserted) \<leftarrow> update_state_tracker L shred tracker;
         (case inserted of
            None \<Rightarrow> Some (put_slot slot (fec_sets, tracker') st)
          | Some _ \<Rightarrow> do {
              shreds \<leftarrow> hs_insert (comparable_eq L) shred (or_default [] fec_set_index fec_sets);
              Some ((put_slot slot (AList.update fec_set_index shreds fec_sets, tracker') st)
                \<lparr>slot_fec_indexes_to_iterate :=
                    slot_fec_indexes_to_iterate st @ [(slot, fec_set_index)],
                  highest_slot_seen := max (highest_slot_seen st) slot\<rparr>) }) } } }"

text \<open>A packet that is no shred is skipped, whether or not it is a trace shred.\<close>

definition ingest_packet :: "ledger \<Rightarrow> bytes \<Rightarrow> recon_state \<Rightarrow> recon_state option" where
  "ingest_packet L data st = (case decode_shred L data of
      Inr shred \<Rightarrow> ingest_shred L shred st
    | Inl e \<Rightarrow> Some st)"

section \<open>Recovery\<close>

text \<open>The body of the loop over what \<^verbatim>\<open>merkle::recover\<close> returned.\<close>

fun apply_recovered ::
  "ledger \<Rightarrow> err + shred \<Rightarrow> ShredsStateTracker \<times> nat \<Rightarrow> (ShredsStateTracker \<times> nat) option" where
  "apply_recovered L (Inl e) (tracker, n) = Some (tracker, n)"
| "apply_recovered L (Inr shred) (tracker, n) = do {
     (tracker', inserted) \<leftarrow> update_state_tracker L shred tracker;
     Some (tracker', if inserted = None then n else Suc n) }"

definition merkle_shreds :: "ledger \<Rightarrow> shred list \<Rightarrow> shred list" where
  "merkle_shreds L shreds =
     sort_key (\<lambda>s. (255 - shred_type_u8 L (shred_type L s), shred_index s)) (set_order L shreds)"

text \<open>The guard that skips a FEC set: sizes unknown, too few shreds, or no data missing.\<close>

definition skip_recovery :: "ledger \<Rightarrow> shred list \<Rightarrow> bool" where
  "skip_recovery L shreds = (case get_data_shred_info L shreds of
     (expected_data, _, n_data, _) \<Rightarrow>
       expected_data = 0 \<or> length shreds < unat expected_data \<or> n_data = expected_data)"

definition recover_fec ::
  "ledger \<Rightarrow> u64 \<times> u32 \<Rightarrow> recon_state \<times> nat \<Rightarrow> (recon_state \<times> nat) option" where
  "recover_fec L = (\<lambda>(slot, fec_set_index) (st, total_recovered). do {
     let (fec_sets, tracker) = slot_entry L slot st;
     let shreds = or_default [] fec_set_index fec_sets;
     let fec_sets = AList.update fec_set_index shreds fec_sets;
     let st = put_slot slot (fec_sets, tracker) st;
     if skip_recovery L shreds then Some (st, total_recovered)
     else (case recover L (merkle_shreds L shreds) of
         Inl e \<Rightarrow> Some (st, total_recovered)
       | Inr recovered \<Rightarrow> do {
           (tracker, fec_recovered) \<leftarrow> foldM (apply_recovered L) recovered (tracker, 0);
           if 0 < fec_recovered then do {
             flags \<leftarrow> vec_set (already_recovered_fec_sets tracker) (unat fec_set_index) True;
             Some (put_slot slot (AList.update fec_set_index [] fec_sets,
                     tracker\<lparr>already_recovered_fec_sets := flags\<rparr>) st, total_recovered + fec_recovered) }
           else Some (put_slot slot (fec_sets, tracker) st, total_recovered) }) })"

section \<open>Deshredding\<close>

text \<open>\<^verbatim>\<open>to_deshred.iter().map(|s| s.as_ref().unwrap().payload())\<close>\<close>

definition unwrap_payloads :: "shred option list \<Rightarrow> bytes list option" where
  "unwrap_payloads xs = those (map (map_option shred_payload) xs)"

fun mark_deshredded :: "shred option \<Rightarrow> ShredsStateTracker \<Rightarrow> ShredsStateTracker option" where
  "mark_deshredded None tracker = Some tracker"
| "mark_deshredded (Some shred) tracker = do {
     r \<leftarrow> vec_set (already_recovered_fec_sets tracker) (unat (shred_fec_set_index shred)) True;
     d \<leftarrow> vec_set (already_deshredded tracker) (unat (shred_index shred)) True;
     Some (tracker\<lparr>already_recovered_fec_sets := r, already_deshredded := d\<rparr>) }"

definition count_unknown_start :: "bool \<Rightarrow> ShredMetrics \<Rightarrow> ShredMetrics" where
  "count_unknown_start u m = (if u
     then m\<lparr>unknown_start_position_count := unknown_start_position_count m + 1\<rparr> else m)"

definition count_unknown_start_error :: "bool \<Rightarrow> ShredMetrics \<Rightarrow> ShredMetrics" where
  "count_unknown_start_error u m = (if u
     then m\<lparr>unknown_start_position_error_count := unknown_start_position_error_count m + 1\<rparr>
     else m)"

definition count_entries :: "entry list \<Rightarrow> ShredMetrics \<Rightarrow> ShredMetrics" where
  "count_entries es m = m\<lparr>
     entry_count := entry_count m + of_nat (length es),
     txn_count := txn_count m + sum_list (map (\<lambda>e. of_nat (length (transactions e))) es)\<rparr>"

definition deshred_fec :: "ledger \<Rightarrow> u64 \<times> u32 \<Rightarrow> recon_state \<Rightarrow> recon_state option" where
  "deshred_fec L = (\<lambda>(slot, fec_set_index) st. do {
     let (fec_sets, tracker) = slot_entry L slot st;
     let st = put_slot slot (fec_sets, tracker) st;
     indexes \<leftarrow> get_indexes tracker (unat fec_set_index);
     (case indexes of
        None \<Rightarrow> Some st
      | Some (start, end, unknown_start) \<Rightarrow> do {
          let m = count_unknown_start unknown_start (rc_metrics st);
          to_deshred \<leftarrow> slice_incl (data_shreds tracker) start end;
          payloads \<leftarrow> unwrap_payloads to_deshred;
          (case deshred L payloads of
             Inl e \<Rightarrow> Some (st\<lparr>rc_metrics := count_unknown_start_error unknown_start
                 (m\<lparr>fec_recovery_error_count := fec_recovery_error_count m + 1\<rparr>)\<rparr>)
           | Inr payload \<Rightarrow>
               (case deserialize_entries L payload of
                  Inl e \<Rightarrow> Some (st\<lparr>rc_metrics := count_unknown_start_error unknown_start
                    (m\<lparr>bincode_deserialize_error_count := bincode_deserialize_error_count m + 1\<rparr>)\<rparr>)
                | Inr entries \<Rightarrow> do {
                    tracker' \<leftarrow> foldM mark_deshredded to_deshred tracker;
                    Some ((put_slot slot (fec_sets, tracker') st)
                      \<lparr>deshredded_entries := deshredded_entries st @ [(slot, entries, payload)],
                        rc_metrics := count_entries entries m\<rparr>) })) }) })"

section \<open>Eviction\<close>

type_synonym missed = "u32 \<times> u16 \<times> nat"

text \<open>The FEC sets of one slot that were not recovered, with what was expected and held.\<close>

fun missed_fec_sets :: "ledger \<Rightarrow> ShredsStateTracker \<Rightarrow> fec_sets \<Rightarrow> missed list option" where
  "missed_fec_sets L tracker [] = Some []"
| "missed_fec_sets L tracker ((fec_set_index, shreds) # rest) = do {
     recovered \<leftarrow> vec_get (already_recovered_fec_sets tracker) (unat fec_set_index);
     ms \<leftarrow> missed_fec_sets L tracker rest;
     Some (if recovered then ms
           else (fec_set_index, fst (get_data_shred_info L shreds), length shreds) # ms) }"

fun collect_missed ::
  "ledger \<Rightarrow> u64 \<Rightarrow> (u64 \<times> slot_state) list \<Rightarrow> (u64 \<times> missed list) list option" where
  "collect_missed L threshold [] = Some []"
| "collect_missed L threshold ((slot, (fec_sets, tracker)) # rest) =
     (if threshold \<le> slot then collect_missed L threshold rest
      else do {
        ms \<leftarrow> missed_fec_sets L tracker fec_sets;
        others \<leftarrow> collect_missed L threshold rest;
        Some (if ms = [] then others else (slot, ms) # others) })"

text \<open>
  The data point: the missed FEC sets per slot, sorted, the number of slots and the number
  of FEC sets.
\<close>

type_synonym missed_report = "(u64 \<times> missed list) list \<times> nat \<times> nat"

definition missed_report_of :: "(u64 \<times> missed list) list \<Rightarrow> missed_report option" where
  "missed_report_of ms = (let fec_count = sum_list (map (length \<circ> snd) ms) in
     if 0 < fec_count then Some (sort (map (\<lambda>(s, l). (s, sort l)) ms), length ms, fec_count) else None)"

definition evict_old_slots ::
  "ledger \<Rightarrow> recon_state \<Rightarrow> (recon_state \<times> missed_report option) option" where
  "evict_old_slots L st =
     (if MAX_PROCESSING_AGE L < length (all_shreds st) then do {
        let threshold = slot_threshold (highest_slot_seen st);
        ms \<leftarrow> collect_missed L threshold (all_shreds st);
        Some (st\<lparr>all_shreds := alist_retain (\<lambda>slot _. threshold \<le> slot) (all_shreds st)\<rparr>,
              missed_report_of ms) }
      else Some (st, None))"

text \<open>
  \<^verbatim>\<open>debug_remaining_shreds\<close>: what eviction reports of the slots it removes, of all slots and without
  removing any. The result is the printed list.
\<close>

fun remaining_fec_sets :: "ledger \<Rightarrow> (u64 \<times> slot_state) list \<Rightarrow> (u64 \<times> missed list) list option" where
  "remaining_fec_sets L [] = Some []"
| "remaining_fec_sets L ((slot, (fec_sets, tracker)) # rest) = do {
     ms \<leftarrow> missed_fec_sets L tracker fec_sets;
     others \<leftarrow> remaining_fec_sets L rest;
     Some (if ms = [] then others else (slot, ms) # others) }"

definition debug_remaining_shreds :: "ledger \<Rightarrow> (u64 \<times> slot_state) list \<Rightarrow> (u64 \<times> missed list) list option" where
  "debug_remaining_shreds L m =
     map_option (\<lambda>ms. sort (map (\<lambda>(s, l). (s, sort l)) ms)) (remaining_fec_sets L m)"

section \<open>The whole call\<close>

definition count_recovered :: "nat \<Rightarrow> recon_state \<Rightarrow> recon_state" where
  "count_recovered total_recovered st = (if 0 < total_recovered
     then st\<lparr>rc_metrics := (rc_metrics st)
       \<lparr>recovered_count := recovered_count (rc_metrics st) + of_nat total_recovered\<rparr>\<rparr>
     else st)"

definition reconstruct_shreds ::
  "ledger \<Rightarrow> packet list \<Rightarrow> recon_state \<Rightarrow> (recon_state \<times> nat \<times> missed_report option) option" where
  "reconstruct_shreds L packet_batch st = do {
     let st = st\<lparr>deshredded_entries := [], slot_fec_indexes_to_iterate := []\<rparr>;
     st \<leftarrow> foldM (ingest_packet L) (List.map_filter (packet_data L) packet_batch) st;
     let todo = sort_dedup (slot_fec_indexes_to_iterate st);
     let st = st\<lparr>slot_fec_indexes_to_iterate := todo\<rparr>;
     (st, total_recovered) \<leftarrow> foldM (recover_fec L) todo (st, 0);
     st \<leftarrow> foldM (deshred_fec L) todo st;
     (st, report) \<leftarrow> evict_old_slots L st;
     Some (count_recovered total_recovered st, total_recovered, report) }"

definition initial_recon :: "bool \<Rightarrow> recon_state" where
  "initial_recon grpc = \<lparr>all_shreds = [], slot_fec_indexes_to_iterate = [],
     deshredded_entries = [], highest_slot_seen = 0, rc_metrics = ShredMetrics_new grpc\<rparr>"

end
