(* ===== verification/Deshred_Safety.thy ===== *)
theory Deshred_Safety
  imports Deshred
begin

text \<open>
  The invariant of the reconstructor (\<open>recon_inv\<close>) and that ingestion and recovery keep it
  without panicking, given the documented behaviour of the ledger crates. The loop bodies are
  interpretations of \<open>fallible_step\<close>.
\<close>

section \<open>The invariant of the reconstructor\<close>

text \<open>
  A FEC set of a slot holds pairwise different sanitized shreds of that slot and set, and its
  data shreds are the ones the tracker stores.
\<close>

definition fec_ok :: "ledger \<Rightarrow> u64 \<Rightarrow> ShredsStateTracker \<Rightarrow> u32 \<Rightarrow> shred list \<Rightarrow> bool" where
  "fec_ok L slot t fec shreds \<longleftrightarrow>
     unat fec < MAX_DATA_SHREDS_PER_SLOT L \<and> hs_distinct (comparable_eq L) shreds \<and>
     (\<forall>s\<in>set shreds. shred_ok L s \<and> shred_slot s = slot \<and> shred_fec_set_index s = fec \<and>
        (is_data s \<longrightarrow> data_shreds t ! unat (shred_index s) = Some s))"

definition slot_ok :: "ledger \<Rightarrow> u64 \<Rightarrow> slot_state \<Rightarrow> bool" where
  "slot_ok L slot v \<longleftrightarrow> wf_tracker L (snd v) \<and>
     (\<forall>i s. i < MAX_DATA_SHREDS_PER_SLOT L \<longrightarrow> data_shreds (snd v) ! i = Some s \<longrightarrow>
        shred_slot s = slot) \<and>
     alist_ok (fst v) \<and>
     (\<forall>fec shreds. map_of (fst v) fec = Some shreds \<longrightarrow> fec_ok L slot (snd v) fec shreds)"

definition recon_inv :: "ledger \<Rightarrow> recon_state \<Rightarrow> bool" where
  "recon_inv L st \<longleftrightarrow> alist_ok (all_shreds st) \<and>
     (\<forall>slot v. map_of (all_shreds st) slot = Some v \<longrightarrow> slot_ok L slot v) \<and>
     (\<forall>p\<in>set (slot_fec_indexes_to_iterate st). unat (snd p) < MAX_DATA_SHREDS_PER_SLOT L)"

lemma slot_ok_default: "slot_ok L slot ([], default_tracker L)"
  by (simp add: slot_ok_def alist_ok_def) (simp add: default_tracker_def)

lemma slot_entry_ok: "recon_inv L st \<Longrightarrow> slot_ok L slot (slot_entry L slot st)"
  by (auto simp: slot_entry_def or_default_def recon_inv_def slot_ok_default split: option.splits)

lemma put_slot_inv:
  "recon_inv L st \<Longrightarrow> slot_ok L slot v \<Longrightarrow> recon_inv L (put_slot slot v st)"
  by (auto simp: recon_inv_def put_slot_def alist.ok_insert)

lemma put_slot_simps [simp]:
  "all_shreds (put_slot slot v st) = AList.update slot v (all_shreds st)"
  "slot_fec_indexes_to_iterate (put_slot slot v st) = slot_fec_indexes_to_iterate st"
  "deshredded_entries (put_slot slot v st) = deshredded_entries st"
  "highest_slot_seen (put_slot slot v st) = highest_slot_seen st"
  "rc_metrics (put_slot slot v st) = rc_metrics st"
  by (simp_all add: put_slot_def)

lemma put_slot_put_slot [simp]: "put_slot slot v (put_slot slot w st) = put_slot slot v st"
  by (simp add: put_slot_def)

lemma recon_inv_frame [simp]:
  "recon_inv L (st\<lparr>deshredded_entries := x\<rparr>) = recon_inv L st"
  "recon_inv L (st\<lparr>highest_slot_seen := h\<rparr>) = recon_inv L st"
  "recon_inv L (st\<lparr>rc_metrics := m\<rparr>) = recon_inv L st"
  by (simp_all add: recon_inv_def)

lemma slot_okD:
  assumes "slot_ok L slot (fecs, t)"
  shows "wf_tracker L t" "alist_ok fecs"
    and "map_of fecs fec = Some shreds \<Longrightarrow> fec_ok L slot t fec shreds"
  using assms by (auto simp: slot_ok_def)

lemma fec_entry_ok:
  assumes "slot_ok L slot (fecs, t)" "unat fec < MAX_DATA_SHREDS_PER_SLOT L"
  shows "fec_ok L slot t fec (or_default [] fec fecs)"
  using assms by (auto simp: or_default_def fec_ok_def hs_distinct_def slot_ok_def split: option.splits)

lemma fec_ok_store:
  assumes "fec_ok L slot t fec shreds" "data_shreds t ! unat (shred_index s) = None"
  shows "fec_ok L slot (store_shred s t) fec shreds"
proof -
  have "data_shreds (store_shred s t) ! i = Some x" if "data_shreds t ! i = Some x" for i x
    using that assms(2) by (cases "i = unat (shred_index s)") (auto simp: store_shred_def)
  then show ?thesis using assms(1) by (auto simp: fec_ok_def)
qed

text \<open>A new data shred of the slot may be stored in its tracker.\<close>

lemma slot_ok_store:
  assumes v: "slot_ok L slot (fecs, t)" and s: "shred_ok L s" "shred_slot s = slot" "is_data s"
    and new: "\<not> seen_before s t"
  shows "slot_ok L slot (fecs, store_shred s t)"
proof -
  have none: "data_shreds t ! unat (shred_index s) = None"
    using new s(3) by (simp add: seen_before_def)
  have "shred_slot x = slot"
    if "i < MAX_DATA_SHREDS_PER_SLOT L" "data_shreds (store_shred s t) ! i = Some x" for i x
    using that v s by (cases "i = unat (shred_index s)")
      (auto simp: store_shred_def slot_ok_def wf_tracker_def)
  moreover have "wf_tracker L (store_shred s t)"
    using wf_store_shred slot_okD(1)[OF v] s by blast
  ultimately show ?thesis using v fec_ok_store[OF _ none] by (auto simp: slot_ok_def)
qed

text \<open>The tracker after a shred that was not seen before.\<close>

abbreviation record_shred :: "shred \<Rightarrow> ShredsStateTracker \<Rightarrow> ShredsStateTracker" where
  "record_shred s t \<equiv> (if is_data s then store_shred s t else t)"

lemma slot_ok_record:
  assumes "slot_ok L slot (fecs, t)" "shred_ok L s" "shred_slot s = slot" "\<not> seen_before s t"
  shows "slot_ok L slot (fecs, record_shred s t)"
  using assms slot_ok_store by simp

lemma record_shred_stored:
  assumes "wf_tracker L t" "shred_ok L s" "is_data s"
  shows "data_shreds (record_shred s t) ! unat (shred_index s) = Some s"
  using assms shred_ok_bounds(1)[OF assms(2)] wf_tracker_lengths[OF assms(1)]
  by (simp add: store_shred_def)

lemma slot_ok_insert:
  assumes v: "slot_ok L slot (fecs, t)" and s: "shred_ok L s" "shred_slot s = slot"
    and stored: "is_data s \<Longrightarrow> data_shreds t ! unat (shred_index s) = Some s"
    and ins: "hs_insert (comparable_eq L) s (or_default [] (shred_fec_set_index s) fecs) = Some shreds"
  shows "slot_ok L slot (AList.update (shred_fec_set_index s) shreds fecs, t)"
proof -
  have old: "fec_ok L slot t (shred_fec_set_index s) (or_default [] (shred_fec_set_index s) fecs)"
    using fec_entry_ok[OF v shred_ok_bounds(2)[OF s(1)]] .
  have oks: "\<forall>x\<in>set (or_default [] (shred_fec_set_index s) fecs). shred_ok L x"
    using old by (simp add: fec_ok_def)
  have "hs_distinct (comparable_eq L) shreds"
    using shred_key.insert_distinct[OF s(1) oks _ ins] old by (simp add: fec_ok_def)
  moreover have "set shreds \<subseteq> insert s (set (or_default [] (shred_fec_set_index s) fecs))"
    using shred_key.insert_total[OF s(1) oks] ins by auto
  ultimately have "fec_ok L slot t (shred_fec_set_index s) shreds"
    using old s stored by (auto simp: fec_ok_def)
  then show ?thesis using v by (auto simp: slot_ok_def alist.ok_insert)
qed

section \<open>Ingestion\<close>

text \<open>The cases of \<open>ingest_shred\<close>: too old, completed, already seen, accepted.\<close>

definition too_old :: "shred \<Rightarrow> recon_state \<Rightarrow> bool" where
  "too_old s st \<longleftrightarrow> shred_slot s < slot_threshold (highest_slot_seen st)"

definition already_completed :: "shred \<Rightarrow> ShredsStateTracker \<Rightarrow> bool" where
  "already_completed s t \<longleftrightarrow> already_recovered_fec_sets t ! unat (shred_fec_set_index s)
     \<or> already_deshredded t ! unat (shred_index s)"

definition accepts :: "ledger \<Rightarrow> shred \<Rightarrow> recon_state \<Rightarrow> bool" where
  "accepts L s st \<longleftrightarrow> (let t = snd (slot_entry L (shred_slot s) st) in
     \<not> too_old s st \<and> \<not> already_completed s t \<and> \<not> seen_before s t)"

lemma ingest_shred_rejected:
  assumes L: "ledger_ok L" and inv: "recon_inv L st" and s: "shred_ok L s" and r: "\<not> accepts L s st"
  shows "ingest_shred L s st = Some (put_slot (shred_slot s) (slot_entry L (shred_slot s) st) st)"
proof -
  obtain fecs t where v: "slot_entry L (shred_slot s) st = (fecs, t)" by force
  have wf: "wf_tracker L t" using slot_okD(1) slot_entry_ok[OF inv] v by metis
  note len = wf_tracker_lengths[OF wf] and b = shred_ok_bounds[OF s]
  show ?thesis using r v b len update_state_tracker_eq[OF L wf s]
    by (auto simp: ingest_shred_def Let_def accepts_def too_old_def already_completed_def vec_simps)
qed

lemma ingest_shred_accepted:
  assumes L: "ledger_ok L" and inv: "recon_inv L st" and s: "shred_ok L s" and a: "accepts L s st"
  obtains fecs t shreds where
    "slot_entry L (shred_slot s) st = (fecs, t)"
    "hs_insert (comparable_eq L) s (or_default [] (shred_fec_set_index s) fecs) = Some shreds"
    "ingest_shred L s st = Some
       ((put_slot (shred_slot s) (AList.update (shred_fec_set_index s) shreds fecs, record_shred s t) st)
        \<lparr>slot_fec_indexes_to_iterate :=
            slot_fec_indexes_to_iterate st @ [(shred_slot s, shred_fec_set_index s)],
          highest_slot_seen := max (highest_slot_seen st) (shred_slot s)\<rparr>)"
proof -
  obtain fecs t where v: "slot_entry L (shred_slot s) st = (fecs, t)" by force
  have ok: "slot_ok L (shred_slot s) (fecs, t)" using slot_entry_ok[OF inv] v by metis
  note wf = slot_okD(1)[OF ok]
  note len = wf_tracker_lengths[OF wf] and b = shred_ok_bounds[OF s]
  have "\<forall>x\<in>set (or_default [] (shred_fec_set_index s) fecs). shred_ok L x"
    using fec_entry_ok[OF ok b(2)] by (simp add: fec_ok_def)
  then obtain shreds where ins:
    "hs_insert (comparable_eq L) s (or_default [] (shred_fec_set_index s) fecs) = Some shreds"
    using shred_key.insert_total[OF s] by blast
  show ?thesis
  proof (rule that[OF v ins])
    show "ingest_shred L s st = Some
       ((put_slot (shred_slot s) (AList.update (shred_fec_set_index s) shreds fecs, record_shred s t) st)
        \<lparr>slot_fec_indexes_to_iterate :=
            slot_fec_indexes_to_iterate st @ [(shred_slot s, shred_fec_set_index s)],
          highest_slot_seen := max (highest_slot_seen st) (shred_slot s)\<rparr>)"
      using a v b len ins update_state_tracker_eq[OF L wf s]
      by (simp add: ingest_shred_def Let_def accepts_def too_old_def already_completed_def vec_simps)
  qed
qed

lemma ingest_shred_ok:
  assumes L: "ledger_ok L" and inv: "recon_inv L st" and s: "shred_ok L s"
  shows "\<exists>st'. ingest_shred L s st = Some st' \<and> recon_inv L st'"
proof (cases "accepts L s st")
  case False
  then show ?thesis
    using ingest_shred_rejected[OF assms] put_slot_inv[OF inv slot_entry_ok[OF inv]] by blast
next
  case True
  obtain fecs t shreds where r: "slot_entry L (shred_slot s) st = (fecs, t)"
    "hs_insert (comparable_eq L) s (or_default [] (shred_fec_set_index s) fecs) = Some shreds"
    "ingest_shred L s st = Some
       ((put_slot (shred_slot s) (AList.update (shred_fec_set_index s) shreds fecs, record_shred s t) st)
        \<lparr>slot_fec_indexes_to_iterate :=
            slot_fec_indexes_to_iterate st @ [(shred_slot s, shred_fec_set_index s)],
          highest_slot_seen := max (highest_slot_seen st) (shred_slot s)\<rparr>)"
    using ingest_shred_accepted[OF L inv s True] by blast
  have ok: "slot_ok L (shred_slot s) (fecs, t)" using slot_entry_ok[OF inv] r(1) by metis
  have new: "\<not> seen_before s t" using True r(1) by (simp add: accepts_def Let_def)
  have "slot_ok L (shred_slot s) (AList.update (shred_fec_set_index s) shreds fecs, record_shred s t)"
    by (rule slot_ok_insert[OF slot_ok_record[OF ok s refl new] s refl
          record_shred_stored[OF slot_okD(1)[OF ok] s] r(2)])
  then have "recon_inv L (put_slot (shred_slot s)
      (AList.update (shred_fec_set_index s) shreds fecs, record_shred s t) st)"
    by (rule put_slot_inv[OF inv])
  then show ?thesis using r(3) inv shred_ok_bounds(2)[OF s] by (auto simp: recon_inv_def)
qed

lemma ingest_packet_ok:
  assumes "ledger_ok L" "recon_inv L st"
  shows "\<exists>st'. ingest_packet L data st = Some st' \<and> recon_inv L st'"
  using assms ingest_shred_ok decoded_shred_ok
  by (auto simp: ingest_packet_def split: sum.splits)

interpretation ingest: fallible_step "ingest_packet L" "recon_inv L" "\<lambda>_. ledger_ok L" for L
  by unfold_locales (rule ingest_packet_ok)

section \<open>Recovery\<close>

lemma fec_ok_frame:
  "data_shreds t' = data_shreds t \<Longrightarrow> fec_ok L slot t' fec shreds = fec_ok L slot t fec shreds"
  by (simp add: fec_ok_def)

text \<open>Setting flags of FEC sets does not touch the invariant of a slot.\<close>

lemma slot_ok_flags:
  assumes "slot_ok L slot (fecs, t)" "length fs = MAX_DATA_SHREDS_PER_SLOT L"
  shows "slot_ok L slot (fecs, t\<lparr>already_recovered_fec_sets := fs\<rparr>)"
  using assms by (simp add: slot_ok_def wf_tracker_def fec_ok_def)

lemma slot_ok_put_fec:
  assumes "slot_ok L slot (fecs, t)" "fec_ok L slot t fec shreds"
  shows "slot_ok L slot (AList.update fec shreds fecs, t)"
  using assms by (auto simp: slot_ok_def alist.ok_insert)

text \<open>The state of the inner recovery loop: the tracker of a slot and the running count.\<close>

definition rec_inv :: "ledger \<Rightarrow> u64 \<Rightarrow> fec_sets \<Rightarrow> ShredsStateTracker \<times> nat \<Rightarrow> bool" where
  "rec_inv L slot fecs p \<longleftrightarrow> slot_ok L slot (fecs, fst p)"

lemma apply_recovered_eq:
  assumes "ledger_ok L" "wf_tracker L t" "shred_ok L s"
  shows "apply_recovered L (Inr s) (t, n) =
     Some (if seen_before s t then (t, n) else (record_shred s t, Suc n))"
  using update_state_tracker_eq[OF assms] by simp

lemma apply_recovered_ok:
  assumes L: "ledger_ok L" and x: "\<And>s. x = Inr s \<Longrightarrow> shred_ok L s \<and> shred_slot s = slot"
    and inv: "rec_inv L slot fecs (t, n)"
  shows "\<exists>t' n'. apply_recovered L x (t, n) = Some (t', n') \<and> rec_inv L slot fecs (t', n')
     \<and> n \<le> n'"
proof (cases x)
  case (Inl e)
  then show ?thesis using inv by auto
next
  case (Inr s)
  have ok: "slot_ok L slot (fecs, t)" using inv by (simp add: rec_inv_def)
  note s = x[OF Inr]
  show ?thesis
  proof (cases "seen_before s t")
    case True
    then show ?thesis using apply_recovered_eq[OF L slot_okD(1)[OF ok]] s Inr inv by auto
  next
    case False
    then have "rec_inv L slot fecs (record_shred s t, Suc n)"
      using slot_ok_record[OF ok] s by (simp add: rec_inv_def)
    then show ?thesis using False apply_recovered_eq[OF L slot_okD(1)[OF ok]] s Inr by auto
  qed
qed

interpretation recovered: fallible_step "apply_recovered L" "rec_inv L slot fecs"
  "\<lambda>x. ledger_ok L \<and> (\<forall>s. x = Inr s \<longrightarrow> shred_ok L s \<and> shred_slot s = slot)" for L slot fecs
proof unfold_locales
  fix p :: "ShredsStateTracker \<times> nat" and x :: "err + shred"
  assume inv: "rec_inv L slot fecs p"
    and ok: "ledger_ok L \<and> (\<forall>s. x = Inr s \<longrightarrow> shred_ok L s \<and> shred_slot s = slot)"
  obtain t n where "p = (t, n)" by force
  then show "\<exists>p'. apply_recovered L x p = Some p' \<and> rec_inv L slot fecs p'"
    using apply_recovered_ok[of L x slot fecs t n] inv ok by auto
qed

lemma not_skip_nonempty: "\<not> skip_recovery L shreds \<Longrightarrow> shreds \<noteq> []"
  by (auto simp: skip_recovery_def unat_gt_0 split: prod.splits)

lemma set_merkle_shreds: "ledger_ok L \<Longrightarrow> set (merkle_shreds L shreds) = set shreds"
  by (simp add: merkle_shreds_def set_set_order)

text \<open>What recovery returns for a FEC set belongs to the slot of that set.\<close>

lemma recovered_of_slot:
  assumes L: "ledger_ok L" and f: "fec_ok L slot t fec shreds" and ne: "\<not> skip_recovery L shreds"
    and r: "recover L (merkle_shreds L shreds) = Inr rs" "Inr s \<in> set rs"
  shows "shred_ok L s" "shred_slot s = slot" "shred_fec_set_index s = fec"
proof -
  obtain x where x: "x \<in> set shreds" using not_skip_nonempty[OF ne] by (cases shreds) auto
  then have "x \<in> set (merkle_shreds L shreds)" by (simp add: set_merkle_shreds[OF L])
  then have "shred_slot x = shred_slot s \<and> shred_fec_set_index x = shred_fec_set_index s"
    using recovered_shred_ok(2)[OF L r] by blast
  then show "shred_slot s = slot" "shred_fec_set_index s = fec"
    using x f by (auto simp: fec_ok_def)
  show "shred_ok L s" using recovered_shred_ok(1)[OF L r] .
qed

lemma recover_fec_eq:
  assumes "slot_entry L slot st = (fecs, t)" "shreds = or_default [] fec fecs"
    "fecs' = AList.update fec shreds fecs"
  shows "recover_fec L (slot, fec) (st, n) =
    (if skip_recovery L shreds then Some (put_slot slot (fecs', t) st, n)
     else (case recover L (merkle_shreds L shreds) of
         Inl e \<Rightarrow> Some (put_slot slot (fecs', t) st, n)
       | Inr rs \<Rightarrow> do {
           (t', k) \<leftarrow> foldM (apply_recovered L) rs (t, 0);
           if 0 < k then do {
             flags \<leftarrow> vec_set (already_recovered_fec_sets t') (unat fec) True;
             Some (put_slot slot (AList.update fec [] fecs',
                     t'\<lparr>already_recovered_fec_sets := flags\<rparr>) st, n + k) }
           else Some (put_slot slot (fecs', t') st, n) }))"
  unfolding recover_fec_def Let_def prod.case assms put_slot_put_slot ..

lemma recover_fec_ok:
  assumes L: "ledger_ok L" and inv: "recon_inv L st" and fec: "unat fec < MAX_DATA_SHREDS_PER_SLOT L"
  shows "\<exists>st' n'. recover_fec L (slot, fec) (st, n) = Some (st', n') \<and> recon_inv L st'
     \<and> slot_fec_indexes_to_iterate st' = slot_fec_indexes_to_iterate st
     \<and> deshredded_entries st' = deshredded_entries st
     \<and> highest_slot_seen st' = highest_slot_seen st \<and> rc_metrics st' = rc_metrics st"
proof -
  obtain fecs t where v: "slot_entry L slot st = (fecs, t)" by force
  have ok: "slot_ok L slot (fecs, t)" using slot_entry_ok[OF inv] v by metis
  define shreds where "shreds = or_default [] fec fecs"
  have f: "fec_ok L slot t fec shreds" using fec_entry_ok[OF ok fec] by (simp add: shreds_def)
  have ok': "slot_ok L slot (AList.update fec shreds fecs, t)" using slot_ok_put_fec[OF ok f] .
  note red = recover_fec_eq[OF v shreds_def refl]
  show ?thesis
  proof (cases "skip_recovery L shreds \<or> (\<exists>e. recover L (merkle_shreds L shreds) = Inl e)")
    case True
    then show ?thesis using put_slot_inv[OF inv ok'] by (auto simp: red)
  next
    case False
    then obtain rs where rs: "recover L (merkle_shreds L shreds) = Inr rs"
      by (cases "recover L (merkle_shreds L shreds)") auto
    have "\<forall>x\<in>set rs. ledger_ok L \<and> (\<forall>s. x = Inr s \<longrightarrow> shred_ok L s \<and> shred_slot s = slot)"
      using recovered_of_slot[OF L f _ rs] False L by auto
    moreover have "rec_inv L slot (AList.update fec shreds fecs) (t, 0)"
      using ok' by (simp add: rec_inv_def)
    ultimately obtain t' k where run: "foldM (apply_recovered L) rs (t, 0) = Some (t', k)"
      and t': "slot_ok L slot (AList.update fec shreds fecs, t')"
      using recovered.run_ok[of L slot "AList.update fec shreds fecs" "(t, 0)" rs]
      by (auto simp: rec_inv_def)
    have len: "length (already_recovered_fec_sets t') = MAX_DATA_SHREDS_PER_SLOT L"
      using wf_tracker_lengths(3)[OF slot_okD(1)[OF t']] .
    have "fec_ok L slot t' fec []" using fec by (simp add: fec_ok_def hs_distinct_def)
    then have "slot_ok L slot (AList.update fec [] (AList.update fec shreds fecs),
        t'\<lparr>already_recovered_fec_sets := (already_recovered_fec_sets t')[unat fec := True]\<rparr>)"
      by (intro slot_ok_flags slot_ok_put_fec t') (simp_all add: len)
    then show ?thesis
      using False rs run len fec put_slot_inv[OF inv] t' by (auto simp: red vec_simps)
  qed
qed

definition rec_loop_inv :: "ledger \<Rightarrow> recon_state \<times> nat \<Rightarrow> bool" where
  "rec_loop_inv L p \<longleftrightarrow> recon_inv L (fst p)"

interpretation recovery: fallible_step "recover_fec L" "rec_loop_inv L"
  "\<lambda>p. ledger_ok L \<and> unat (snd p) < MAX_DATA_SHREDS_PER_SLOT L" for L
proof unfold_locales
  fix q :: "recon_state \<times> nat" and p :: "u64 \<times> u32"
  assume inv: "rec_loop_inv L q" and ok: "ledger_ok L \<and> unat (snd p) < MAX_DATA_SHREDS_PER_SLOT L"
  obtain st n slot fec where "q = (st, n)" "p = (slot, fec)" by force
  then show "\<exists>q'. recover_fec L p q = Some q' \<and> rec_loop_inv L q'"
    using recover_fec_ok[of L st fec slot n] inv ok by (auto simp: rec_loop_inv_def)
qed

end
