(* ===== verification/Deshred_Delivery.thy ===== *)
theory Deshred_Delivery
  imports Deshred_Safety
begin

text \<open>
  The deshredding loop: which runs of data shreds are turned into entries, that a run is
  used at most once, and what a call only adds to (\<open>recon_le\<close>).
\<close>

section \<open>Deshredding\<close>

text \<open>The payloads of a run of stored data shreds, in index order.\<close>

definition segment_payloads :: "ShredsStateTracker \<Rightarrow> nat \<Rightarrow> nat \<Rightarrow> bytes list" where
  "segment_payloads t s e = map (\<lambda>j. shred_payload (the (data_shreds t ! j))) [s..<Suc e]"

lemma slice_as_map:
  "e < length xs \<Longrightarrow> drop s (take (Suc e) xs) = map (\<lambda>j. xs ! j) [s..<Suc e]"
  by (rule nth_equalityI) (auto simp del: upt_Suc)

lemma those_map_Some: "(\<forall>x\<in>set xs. f x \<noteq> None) \<Longrightarrow> those (map f xs) = Some (map (the \<circ> f) xs)"
  by (induction xs) auto

lemma unwrap_segment:
  assumes "e < length (data_shreds t)" "\<forall>j. s \<le> j \<and> j \<le> e \<longrightarrow> data_shreds t ! j \<noteq> None"
  shows "unwrap_payloads (map (\<lambda>j. data_shreds t ! j) [s..<Suc e]) = Some (segment_payloads t s e)"
proof -
  have "those (map (\<lambda>j. map_option shred_payload (data_shreds t ! j)) [s..<Suc e]) =
      Some (map (the \<circ> (\<lambda>j. map_option shred_payload (data_shreds t ! j))) [s..<Suc e])"
    using assms(2) by (intro those_map_Some) auto
  moreover have "map (the \<circ> (\<lambda>j. map_option shred_payload (data_shreds t ! j))) [s..<Suc e] =
      segment_payloads t s e"
    using assms(2) by (auto simp: segment_payloads_def option.map_sel)
  ultimately show ?thesis by (simp add: unwrap_payloads_def comp_def)
qed

text \<open>Setting a flag for every element of a list, by position.\<close>

lemma foldM_mark:
  assumes "\<forall>x\<in>set xs. \<exists>s. x = Some s \<and> unat (shred_fec_set_index s) < length (already_recovered_fec_sets t)
      \<and> unat (shred_index s) < length (already_deshredded t)"
  shows "\<exists>r d. foldM mark_deshredded xs t = Some (t\<lparr>already_recovered_fec_sets := r, already_deshredded := d\<rparr>)
     \<and> length r = length (already_recovered_fec_sets t) \<and> length d = length (already_deshredded t)
     \<and> (\<forall>i < length r. r ! i \<longleftrightarrow> already_recovered_fec_sets t ! i
          \<or> (\<exists>s. Some s \<in> set xs \<and> unat (shred_fec_set_index s) = i))
     \<and> (\<forall>i < length d. d ! i \<longleftrightarrow> already_deshredded t ! i
          \<or> (\<exists>s. Some s \<in> set xs \<and> unat (shred_index s) = i))"
  using assms
proof (induction xs arbitrary: t)
  case Nil
  show ?case by (intro exI[of _ "already_recovered_fec_sets t"] exI[of _ "already_deshredded t"]) simp
next
  case (Cons x xs)
  then obtain s where s: "x = Some s" "unat (shred_fec_set_index s) < length (already_recovered_fec_sets t)"
    "unat (shred_index s) < length (already_deshredded t)" by auto
  define t1 where "t1 = t\<lparr>
    already_recovered_fec_sets := (already_recovered_fec_sets t)[unat (shred_fec_set_index s) := True],
    already_deshredded := (already_deshredded t)[unat (shred_index s) := True]\<rparr>"
  have step: "mark_deshredded x t = Some t1" using s by (simp add: vec_simps t1_def)
  have "\<forall>x\<in>set xs. \<exists>s. x = Some s \<and> unat (shred_fec_set_index s) < length (already_recovered_fec_sets t1)
      \<and> unat (shred_index s) < length (already_deshredded t1)"
    using Cons.prems by (auto simp: t1_def)
  from Cons.IH[OF this] obtain r d where
    run: "foldM mark_deshredded xs t1 = Some (t1\<lparr>already_recovered_fec_sets := r, already_deshredded := d\<rparr>)"
    and len: "length r = length (already_recovered_fec_sets t1)" "length d = length (already_deshredded t1)"
    and r: "\<forall>i < length r. r ! i \<longleftrightarrow> already_recovered_fec_sets t1 ! i
          \<or> (\<exists>s. Some s \<in> set xs \<and> unat (shred_fec_set_index s) = i)"
    and d: "\<forall>i < length d. d ! i \<longleftrightarrow> already_deshredded t1 ! i
          \<or> (\<exists>s. Some s \<in> set xs \<and> unat (shred_index s) = i)"
    by blast
  show ?case
    using step run len r d s
    by (intro exI[of _ r] exI[of _ d]) (auto simp: t1_def nth_list_update)
qed

text \<open>The tracker with the run \<open>s..e\<close> marked: its indices and the FEC sets of its shreds.\<close>

definition marked :: "ShredsStateTracker \<Rightarrow> nat \<Rightarrow> nat \<Rightarrow> ShredsStateTracker \<Rightarrow> bool" where
  "marked t s e t' \<longleftrightarrow> data_shreds t' = data_shreds t \<and> data_status t' = data_status t \<and>
     length (already_recovered_fec_sets t') = length (already_recovered_fec_sets t) \<and>
     length (already_deshredded t') = length (already_deshredded t) \<and>
     (\<forall>i < length (already_deshredded t). already_deshredded t' ! i \<longleftrightarrow>
        already_deshredded t ! i \<or> (s \<le> i \<and> i \<le> e)) \<and>
     (\<forall>i < length (already_recovered_fec_sets t). already_recovered_fec_sets t' ! i \<longleftrightarrow>
        already_recovered_fec_sets t ! i \<or>
        (\<exists>j x. s \<le> j \<and> j \<le> e \<and> data_shreds t ! j = Some x \<and> unat (shred_fec_set_index x) = i))"

lemma segment_shreds:
  assumes "wf_tracker L t" "is_segment t i s e u" "s \<le> j" "j \<le> e"
  shows "\<exists>x. data_shreds t ! j = Some x \<and> is_data x \<and> shred_ok L x \<and> unat (shred_index x) = j"
proof -
  have j: "j < MAX_DATA_SHREDS_PER_SLOT L"
    using assms by (simp add: is_segment_def wf_tracker_def)
  have "data_status t ! j \<noteq> Unknown" using assms by (cases "j = e") (auto simp: is_segment_def)
  then obtain x where "data_shreds t ! j = Some x" using wf_tracker_known[OF assms(1) j] by blast
  then show ?thesis using wf_tracker_shred[OF assms(1) j] by auto
qed

lemma mark_segment:
  assumes wf: "wf_tracker L t" and seg: "is_segment t i s e u"
  shows "\<exists>t'. foldM mark_deshredded (map (\<lambda>j. data_shreds t ! j) [s..<Suc e]) t = Some t' \<and> marked t s e t'"
proof -
  let ?xs = "map (\<lambda>j. data_shreds t ! j) [s..<Suc e]"
  note len = wf_tracker_lengths[OF wf]
  have sh: "\<exists>x. data_shreds t ! j = Some x \<and> shred_ok L x \<and> unat (shred_index x) = j"
    if "s \<le> j" "j \<le> e" for j using segment_shreds[OF wf seg that] by blast
  have pre: "\<forall>x\<in>set ?xs. \<exists>s. x = Some s \<and> unat (shred_fec_set_index s) < length (already_recovered_fec_sets t)
      \<and> unat (shred_index s) < length (already_deshredded t)"
  proof
    fix x assume "x \<in> set ?xs"
    then obtain j where "s \<le> j" "j \<le> e" "x = data_shreds t ! j" by auto
    then obtain y where "x = Some y" "shred_ok L y" using sh by force
    then show "\<exists>s. x = Some s \<and> unat (shred_fec_set_index s) < length (already_recovered_fec_sets t)
      \<and> unat (shred_index s) < length (already_deshredded t)"
      using shred_ok_bounds[of L y] len by auto
  qed
  have mem: "Some x \<in> set ?xs \<longleftrightarrow> (\<exists>j. s \<le> j \<and> j \<le> e \<and> data_shreds t ! j = Some x)" for x
    by (auto simp del: upt_Suc simp: image_iff less_Suc_eq_le) (metis atLeastLessThan_iff le_imp_less_Suc)
  have idx: "(\<exists>x. Some x \<in> set ?xs \<and> unat (shred_index x) = k) \<longleftrightarrow> s \<le> k \<and> k \<le> e" for k
    unfolding mem using sh by (metis option.inject)
  have fecs: "(\<exists>x. Some x \<in> set ?xs \<and> unat (shred_fec_set_index x) = k) \<longleftrightarrow>
      (\<exists>j x. s \<le> j \<and> j \<le> e \<and> data_shreds t ! j = Some x \<and> unat (shred_fec_set_index x) = k)" for k
    unfolding mem by blast
  from foldM_mark[OF pre] show ?thesis unfolding idx fecs
    by (auto simp: marked_def simp del: upt_Suc)
qed

lemma slot_ok_marked:
  assumes ok: "slot_ok L slot (fecs, t)" and seg: "is_segment t i s e u" and m: "marked t s e t'"
  shows "slot_ok L slot (fecs, t')"
proof -
  note wf = slot_okD(1)[OF ok]
  have "data_shreds t ! j \<noteq> None" if "s \<le> j" "j \<le> e" for j
    using segment_shreds[OF wf seg that] by auto
  then have "wf_tracker L t'" using wf m by (auto simp: wf_tracker_def marked_def)
  moreover have "fec_ok L slot t' fec shreds = fec_ok L slot t fec shreds" for fec shreds
    using m by (simp add: fec_ok_def marked_def)
  ultimately show ?thesis using ok m by (auto simp: slot_ok_def marked_def)
qed

text \<open>The outcomes of one iteration, read off the segment that \<open>get_indexes\<close> finds.\<close>

definition deshred_metrics_err :: "bool \<Rightarrow> bool \<Rightarrow> ShredMetrics \<Rightarrow> ShredMetrics" where
  "deshred_metrics_err u bincode m0 = (let m = count_unknown_start u m0 in
     count_unknown_start_error u (if bincode
       then m\<lparr>bincode_deserialize_error_count := bincode_deserialize_error_count m + 1\<rparr>
       else m\<lparr>fec_recovery_error_count := fec_recovery_error_count m + 1\<rparr>))"

lemma deshred_fec_none:
  assumes inv: "recon_inv L st" and v: "slot_entry L slot st = (fecs, t)"
    and no: "\<nexists>s e u. is_segment t (unat fec) s e u"
  shows "deshred_fec L (slot, fec) st = Some (put_slot slot (fecs, t) st)"
proof -
  have wf: "wf_tracker L t" using slot_okD(1) slot_entry_ok[OF inv] v by metis
  obtain r where r: "get_indexes t (unat fec) = Some r" using get_indexes_total wf_same_lengths[OF wf] by blast
  have "r = None" using no get_indexes_iff[OF wf_same_lengths[OF wf]] r by (metis prod_cases3 not_None_eq)
  then show ?thesis using v r by (simp add: deshred_fec_def Let_def)
qed

lemma deshred_fec_segment:
  assumes inv: "recon_inv L st" and v: "slot_entry L slot st = (fecs, t)"
    and seg: "is_segment t (unat fec) s e u"
  shows "deshred_fec L (slot, fec) st = (case deshred L (segment_payloads t s e) of
     Inl _ \<Rightarrow> Some ((put_slot slot (fecs, t) st)\<lparr>rc_metrics := deshred_metrics_err u False (rc_metrics st)\<rparr>)
   | Inr payload \<Rightarrow> (case deserialize_entries L payload of
       Inl _ \<Rightarrow> Some ((put_slot slot (fecs, t) st)\<lparr>rc_metrics := deshred_metrics_err u True (rc_metrics st)\<rparr>)
     | Inr entries \<Rightarrow> do {
         t' \<leftarrow> foldM mark_deshredded (map (\<lambda>j. data_shreds t ! j) [s..<Suc e]) t;
         Some ((put_slot slot (fecs, t') st)
           \<lparr>deshredded_entries := deshredded_entries st @ [(slot, entries, payload)],
             rc_metrics := count_entries entries (count_unknown_start u (rc_metrics st))\<rparr>) }))"
proof -
  have wf: "wf_tracker L t" using slot_okD(1) slot_entry_ok[OF inv] v by metis
  have e: "s \<le> e" "e < length (data_shreds t)"
    using seg wf_tracker_lengths[OF wf] by (auto simp: is_segment_def)
  have gi: "get_indexes t (unat fec) = Some (Some (s, e, u))"
    using get_indexes_iff[OF wf_same_lengths[OF wf]] seg by blast
  have sl: "slice_incl (data_shreds t) s e = Some (map (\<lambda>j. data_shreds t ! j) [s..<Suc e])"
    using e by (simp add: slice_incl_in slice_as_map del: upt_Suc)
  have up: "unwrap_payloads (map (\<lambda>j. data_shreds t ! j) [s..<Suc e]) = Some (segment_payloads t s e)"
    using segment_shreds[OF wf seg] e by (intro unwrap_segment) auto
  show ?thesis unfolding deshred_fec_def using v gi sl up
    by (simp add: Let_def deshred_metrics_err_def del: upt_Suc split: sum.splits)
qed

section \<open>What a call only adds\<close>

abbreviation tracker_of :: "ledger \<Rightarrow> u64 \<Rightarrow> recon_state \<Rightarrow> ShredsStateTracker" where
  "tracker_of L slot st \<equiv> snd (slot_entry L slot st)"

text \<open>A later tracker: stored shreds stay, flags stay.\<close>

definition tracker_le :: "ledger \<Rightarrow> ShredsStateTracker \<Rightarrow> ShredsStateTracker \<Rightarrow> bool" where
  "tracker_le L t t' \<longleftrightarrow> (\<forall>i < MAX_DATA_SHREDS_PER_SLOT L.
     (\<forall>x. data_shreds t ! i = Some x \<longrightarrow> data_shreds t' ! i = Some x) \<and>
     (already_deshredded t ! i \<longrightarrow> already_deshredded t' ! i) \<and>
     (already_recovered_fec_sets t ! i \<longrightarrow> already_recovered_fec_sets t' ! i))"

definition recon_le :: "ledger \<Rightarrow> recon_state \<Rightarrow> recon_state \<Rightarrow> bool" where
  "recon_le L st st' \<longleftrightarrow> highest_slot_seen st \<le> highest_slot_seen st' \<and>
     (\<forall>slot. tracker_le L (tracker_of L slot st) (tracker_of L slot st'))"

lemma tracker_le_refl [simp]: "tracker_le L t t"
  by (simp add: tracker_le_def)

lemma tracker_le_trans: "tracker_le L t u \<Longrightarrow> tracker_le L u v \<Longrightarrow> tracker_le L t v"
  by (simp add: tracker_le_def)

lemma recon_le_refl [simp]: "recon_le L st st"
  by (simp add: recon_le_def)

lemma recon_le_trans: "recon_le L st st1 \<Longrightarrow> recon_le L st1 st2 \<Longrightarrow> recon_le L st st2"
  by (meson order_trans recon_le_def tracker_le_trans)

lemma slot_entry_put:
  "slot_entry L slot (put_slot slot' v st) = (if slot = slot' then v else slot_entry L slot st)"
  by (simp add: slot_entry_def or_default_def put_slot_def)

lemma slot_entry_frame [simp]:
  "slot_entry L slot (st\<lparr>deshredded_entries := x\<rparr>) = slot_entry L slot st"
  "slot_entry L slot (st\<lparr>highest_slot_seen := h\<rparr>) = slot_entry L slot st"
  "slot_entry L slot (st\<lparr>rc_metrics := m\<rparr>) = slot_entry L slot st"
  "slot_entry L slot (st\<lparr>slot_fec_indexes_to_iterate := p\<rparr>) = slot_entry L slot st"
  by (simp_all add: slot_entry_def)

lemma recon_le_put:
  assumes "tracker_le L (tracker_of L slot st) t'" "highest_slot_seen st \<le> highest_slot_seen st'"
    "\<And>s. slot_entry L s st' = slot_entry L s (put_slot slot (fecs, t') st)"
  shows "recon_le L st st'"
  using assms by (simp add: recon_le_def slot_entry_put)

lemma tracker_le_store:
  "\<not> seen_before s t \<Longrightarrow> is_data s \<Longrightarrow> tracker_le L t (store_shred s t)"
proof -
  assume "\<not> seen_before s t" "is_data s"
  then have none: "data_shreds t ! unat (shred_index s) = None" by (simp add: seen_before_def)
  have "data_shreds (store_shred s t) ! i = Some x" if "data_shreds t ! i = Some x" for i x
    using that none by (cases "i = unat (shred_index s)") (auto simp: store_shred_def)
  then show ?thesis by (auto simp: tracker_le_def) (simp_all add: store_shred_def)
qed

lemma tracker_le_record: "\<not> seen_before s t \<Longrightarrow> tracker_le L t (record_shred s t)"
  by (simp add: tracker_le_store)

lemma ingest_shred_le:
  assumes L: "ledger_ok L" and inv: "recon_inv L st" and s: "shred_ok L s"
    and r: "ingest_shred L s st = Some st'"
  shows "recon_le L st st'"
proof (cases "accepts L s st")
  case False
  then have "st' = put_slot (shred_slot s) (slot_entry L (shred_slot s) st) st"
    using ingest_shred_rejected[OF L inv s] r by simp
  then show ?thesis by (simp add: recon_le_def slot_entry_put)
next
  case True
  obtain fecs t shreds where v: "slot_entry L (shred_slot s) st = (fecs, t)"
    and st': "st' = ((put_slot (shred_slot s) (AList.update (shred_fec_set_index s) shreds fecs, record_shred s t) st)
        \<lparr>slot_fec_indexes_to_iterate :=
            slot_fec_indexes_to_iterate st @ [(shred_slot s, shred_fec_set_index s)],
          highest_slot_seen := max (highest_slot_seen st) (shred_slot s)\<rparr>)"
    using ingest_shred_accepted[OF L inv s True] r by (metis option.inject)
  have "\<not> seen_before s t" using True v by (simp add: accepts_def Let_def)
  then have "tracker_le L (tracker_of L (shred_slot s) st) (record_shred s t)"
    using v tracker_le_record by simp
  then show ?thesis by (rule recon_le_put) (simp_all add: st')
qed

lemma ingest_packet_le:
  assumes "ledger_ok L" "recon_inv L st" "ingest_packet L data st = Some st'"
  shows "recon_le L st st'"
  using assms ingest_shred_le[OF assms(1,2)] decoded_shred_ok[OF assms(1)]
  by (auto simp: ingest_packet_def split: sum.splits)

interpretation ingest: monotone_step "ingest_packet L" "recon_inv L" "\<lambda>_. ledger_ok L" "recon_le L" for L
  by unfold_locales (auto intro: recon_le_trans ingest_packet_le)

lemma apply_recovered_le:
  assumes "ledger_ok L" "rec_inv L slot fecs (t, n)" "\<And>s. x = Inr s \<Longrightarrow> shred_ok L s"
    "apply_recovered L x (t, n) = Some (t', n')"
  shows "tracker_le L t t' \<and> already_deshredded t' = already_deshredded t"
proof (cases x)
  case (Inl e)
  then show ?thesis using assms by simp
next
  case (Inr s)
  have wf: "wf_tracker L t" using assms(2) slot_okD(1) by (simp add: rec_inv_def)
  show ?thesis using assms(4) apply_recovered_eq[OF assms(1) wf assms(3)[OF Inr]] tracker_le_record[of s t] Inr
    by (auto simp: store_shred_def split: if_splits)
qed

interpretation recovered: monotone_step "apply_recovered L" "rec_inv L slot fecs"
  "\<lambda>x. ledger_ok L \<and> (\<forall>s. x = Inr s \<longrightarrow> shred_ok L s \<and> shred_slot s = slot)"
  "\<lambda>p q. tracker_le L (fst p) (fst q) \<and> already_deshredded (fst q) = already_deshredded (fst p)
     \<and> snd p \<le> snd q" for L slot fecs
proof unfold_locales
  fix p q :: "ShredsStateTracker \<times> nat" and x :: "err + shred"
  assume inv: "rec_inv L slot fecs p" and step: "apply_recovered L x p = Some q"
    and ok: "ledger_ok L \<and> (\<forall>s. x = Inr s \<longrightarrow> shred_ok L s \<and> shred_slot s = slot)"
  obtain t n t' n' where p: "p = (t, n)" "q = (t', n')" by force
  have "n \<le> n'" using apply_recovered_ok[of L x slot fecs t n] inv ok step p by auto
  then show "tracker_le L (fst p) (fst q) \<and> already_deshredded (fst q) = already_deshredded (fst p)
     \<and> snd p \<le> snd q"
    using apply_recovered_le[of L slot fecs t n x t' n'] inv ok step p by auto
qed (auto intro: tracker_le_trans)

lemma recover_fec_le:
  assumes L: "ledger_ok L" and inv: "recon_inv L st" and fec: "unat fec < MAX_DATA_SHREDS_PER_SLOT L"
    and r: "recover_fec L (slot, fec) (st, n) = Some (st', n')"
  shows "recon_le L st st' \<and> n \<le> n'"
proof -
  obtain fecs t where v: "slot_entry L slot st = (fecs, t)" by force
  have ok: "slot_ok L slot (fecs, t)" using slot_entry_ok[OF inv] v by metis
  define shreds where "shreds = or_default [] fec fecs"
  define fecs' where "fecs' = AList.update fec shreds fecs"
  have f: "fec_ok L slot t fec shreds" using fec_entry_ok[OF ok fec] by (simp add: shreds_def)
  have ok': "slot_ok L slot (fecs', t)" using slot_ok_put_fec[OF ok f] by (simp add: fecs'_def)
  note red = recover_fec_eq[OF v shreds_def fecs'_def]
  show ?thesis
  proof (cases "skip_recovery L shreds \<or> (\<exists>e. recover L (merkle_shreds L shreds) = Inl e)")
    case True
    then have "st' = put_slot slot (fecs', t) st" "n' = n" using r by (auto simp: red split: if_splits)
    then show ?thesis using v by (auto simp: recon_le_def slot_entry_put)
  next
    case False
    then obtain rs where rs: "recover L (merkle_shreds L shreds) = Inr rs"
      by (cases "recover L (merkle_shreds L shreds)") auto
    have all: "\<forall>x\<in>set rs. ledger_ok L \<and> (\<forall>s. x = Inr s \<longrightarrow> shred_ok L s \<and> shred_slot s = slot)"
      using recovered_of_slot[OF L f _ rs] False L by auto
    have inv0: "rec_inv L slot fecs' (t, 0)" using ok' by (simp add: rec_inv_def)
    obtain t' k where run: "foldM (apply_recovered L) rs (t, 0) = Some (t', k)"
      using recovered.run_ok[OF inv0 all] by auto
    have le: "tracker_le L t t'" using recovered.run_le[OF inv0 all run] by simp
    have "tracker_le L t (t'\<lparr>already_recovered_fec_sets := (already_recovered_fec_sets t')[unat fec := True]\<rparr>)"
      using le by (auto simp: tracker_le_def) (metis length_list_update list_update_beyond
          linorder_not_le nth_list_update)
    moreover have "\<exists>fx tx. st' = put_slot slot (fx, tx) st \<and> (tx = t' \<or>
        tx = t'\<lparr>already_recovered_fec_sets := (already_recovered_fec_sets t')[unat fec := True]\<rparr>)"
      and "n \<le> n'"
      using r False rs run by (auto simp: red vec_set_Some_iff split: if_splits Option.bind_splits)
    ultimately show ?thesis using le v by (auto simp: recon_le_def slot_entry_put)
  qed
qed

interpretation recovery: monotone_step "recover_fec L" "rec_loop_inv L"
  "\<lambda>p. ledger_ok L \<and> unat (snd p) < MAX_DATA_SHREDS_PER_SLOT L"
  "\<lambda>p q. recon_le L (fst p) (fst q) \<and> snd p \<le> snd q
     \<and> slot_fec_indexes_to_iterate (fst q) = slot_fec_indexes_to_iterate (fst p)
     \<and> deshredded_entries (fst q) = deshredded_entries (fst p)
     \<and> highest_slot_seen (fst q) = highest_slot_seen (fst p)
     \<and> rc_metrics (fst q) = rc_metrics (fst p)" for L
proof unfold_locales
  fix p q :: "recon_state \<times> nat" and x :: "u64 \<times> u32"
  assume inv: "rec_loop_inv L p" and step: "recover_fec L x p = Some q"
    and ok: "ledger_ok L \<and> unat (snd x) < MAX_DATA_SHREDS_PER_SLOT L"
  obtain st n st' n' slot fec where p: "p = (st, n)" "q = (st', n')" "x = (slot, fec)" by (metis surj_pair)
  show "recon_le L (fst p) (fst q) \<and> snd p \<le> snd q
     \<and> slot_fec_indexes_to_iterate (fst q) = slot_fec_indexes_to_iterate (fst p)
     \<and> deshredded_entries (fst q) = deshredded_entries (fst p)
     \<and> highest_slot_seen (fst q) = highest_slot_seen (fst p)
     \<and> rc_metrics (fst q) = rc_metrics (fst p)"
    using recover_fec_le[of L st fec slot n st' n'] recover_fec_ok[of L st fec slot n] inv ok step p
    by (auto simp: rec_loop_inv_def)
qed (auto intro: recon_le_trans)

section \<open>What is delivered\<close>

text \<open>
  A run of stored data shreds that forms one entry batch: it ends with a completing shred,
  has none before, and starts at the beginning of the slot, after a completing shred, or
  (\<open>u\<close>) after a hole.
\<close>

definition complete_run :: "ShredsStateTracker \<Rightarrow> nat \<Rightarrow> nat \<Rightarrow> bool \<Rightarrow> bool" where
  "complete_run t s e u \<longleftrightarrow> s \<le> e \<and> e < length (data_status t) \<and>
     data_status t ! e = DataComplete \<and>
     (\<forall>j. s \<le> j \<and> j < e \<longrightarrow> data_status t ! j = NotDataComplete) \<and>
     (if s = 0 then \<not> u else data_status t ! (s - 1) = (if u then Unknown else DataComplete))"

lemma is_segment_complete_run: "is_segment t i s e u \<Longrightarrow> complete_run t s e u"
  by (auto simp: is_segment_def complete_run_def split: if_splits)

text \<open>
  A delivered item and the run it came from, in a tracker: the payload is what deshredding
  that run gives, the entries are what the payload deserializes to.
\<close>

type_synonym delivered = "u64 \<times> entry list \<times> bytes"
type_synonym run_bounds = "nat \<times> nat \<times> bool"

fun delivers :: "ledger \<Rightarrow> (u64 \<Rightarrow> ShredsStateTracker) \<Rightarrow> delivered \<Rightarrow> run_bounds \<Rightarrow> bool" where
  "delivers L tr (slot, es, payload) (s, e, u) \<longleftrightarrow> complete_run (tr slot) s e u \<and>
     deshred L (segment_payloads (tr slot) s e) = Inr payload \<and>
     deserialize_entries L payload = Inr es"

text \<open>Two deliveries from one slot use disjoint runs.\<close>

fun apart :: "delivered \<times> run_bounds \<Rightarrow> delivered \<times> run_bounds \<Rightarrow> bool" where
  "apart ((slot, _, _), (s, e, _)) ((slot', _, _), (s', e', _)) \<longleftrightarrow>
     slot \<noteq> slot' \<or> {s..e} \<inter> {s'..e'} = {}"

text \<open>
  The invariant of the deshredding loop against the state it started from: the stored data
  does not change, the items delivered so far are backed by pairwise disjoint runs, and exactly
  the indices of these runs were newly marked.
\<close>

definition in_runs :: "(delivered \<times> run_bounds) list \<Rightarrow> u64 \<Rightarrow> nat \<Rightarrow> bool" where
  "in_runs ds slot i \<longleftrightarrow>
     (\<exists>(d, r)\<in>set ds. fst d = slot \<and> fst r \<le> i \<and> i \<le> fst (snd r))"

definition backed :: "ledger \<Rightarrow> recon_state \<Rightarrow> recon_state \<Rightarrow> (delivered \<times> run_bounds) list \<Rightarrow> bool" where
  "backed L st0 st ds \<longleftrightarrow> deshredded_entries st = map fst ds \<and>
     (\<forall>(d, r)\<in>set ds. delivers L (\<lambda>slot. tracker_of L slot st0) d r) \<and> sorted_wrt apart ds \<and>
     (\<forall>slot i. i < MAX_DATA_SHREDS_PER_SLOT L \<longrightarrow>
        (already_deshredded (tracker_of L slot st) ! i \<longleftrightarrow>
         already_deshredded (tracker_of L slot st0) ! i \<or> in_runs ds slot i)) \<and>
     (\<forall>slot i. in_runs ds slot i \<longrightarrow> \<not> already_deshredded (tracker_of L slot st0) ! i)"

definition same_data :: "ledger \<Rightarrow> recon_state \<Rightarrow> recon_state \<Rightarrow> bool" where
  "same_data L st0 st \<longleftrightarrow> (\<forall>slot. data_shreds (tracker_of L slot st) = data_shreds (tracker_of L slot st0)
     \<and> data_status (tracker_of L slot st) = data_status (tracker_of L slot st0))"

lemma same_dataD:
  assumes "same_data L st0 st" "slot_entry L slot st = (fecs, t)"
  shows "data_shreds t = data_shreds (tracker_of L slot st0)"
    "data_status t = data_status (tracker_of L slot st0)"
  using assms unfolding same_data_def by (metis snd_conv)+

definition deshred_inv :: "ledger \<Rightarrow> recon_state \<Rightarrow> recon_state \<Rightarrow> bool" where
  "deshred_inv L st0 st \<longleftrightarrow> recon_inv L st \<and> recon_le L st0 st \<and> same_data L st0 st
     \<and> highest_slot_seen st = highest_slot_seen st0
     \<and> slot_fec_indexes_to_iterate st = slot_fec_indexes_to_iterate st0
     \<and> (\<exists>ds. backed L st0 st ds)"

lemma deshred_inv_put_same:
  assumes "deshred_inv L st0 st" "slot_entry L slot st = v"
    "st' = (put_slot slot v st)\<lparr>rc_metrics := m\<rparr>"
  shows "deshred_inv L st0 st'"
proof -
  have same: "slot_entry L s st' = slot_entry L s st" for s
    using assms by (simp add: slot_entry_put)
  have inv: "recon_inv L st" using assms(1) by (simp add: deshred_inv_def)
  have "recon_inv L st'" using assms put_slot_inv[OF inv slot_entry_ok[OF inv]] by auto
  then show ?thesis using assms(1) same
    by (simp add: deshred_inv_def recon_le_def same_data_def backed_def assms(3))
qed

lemma in_runs_snoc:
  "in_runs (ds @ [((slot, es, p), (s, e, u))]) slot' i \<longleftrightarrow>
     in_runs ds slot' i \<or> (slot' = slot \<and> s \<le> i \<and> i \<le> e)"
  by (auto simp: in_runs_def)

lemma apart_if_not_in_runs:
  assumes "\<forall>i. s \<le> i \<and> i \<le> e \<longrightarrow> \<not> in_runs ds slot i" "x \<in> set ds"
  shows "apart x ((slot, es, p), (s, e, u))"
proof -
  obtain slot' es' p' s' e' u' where x: "x = ((slot', es', p'), (s', e', u'))" by (metis prod_cases3 surj_pair)
  have "\<not> (s \<le> i \<and> i \<le> e \<and> s' \<le> i \<and> i \<le> e')" if "slot = slot'" for i
    using assms that by (fastforce simp: x in_runs_def)
  then have "slot = slot' \<Longrightarrow> {s'..e'} \<inter> {s..e} = {}" by (auto simp del: Int_atLeastAtMost)
  then show ?thesis by (auto simp: x simp del: Int_atLeastAtMost)
qed

text \<open>A successful delivery extends the account by the run it used.\<close>

lemma backed_deliver:
  assumes b: "backed L st0 st ds" and same: "same_data L st0 st"
    and t: "slot_entry L slot st = (fecs, t)" and wf: "wf_tracker L t"
    and seg: "is_segment t i s e u" and m: "marked t s e t'"
    and dl: "deshred L (segment_payloads t s e) = Inr p" "deserialize_entries L p = Inr es"
    and st': "st' = (put_slot slot (fecs, t') st)
       \<lparr>deshredded_entries := deshredded_entries st @ [(slot, es, p)], rc_metrics := mm\<rparr>"
  shows "backed L st0 st' (ds @ [((slot, es, p), (s, e, u))])"
proof -
  define t0 where "t0 = tracker_of L slot st0"
  have data: "data_shreds t = data_shreds t0" "data_status t = data_status t0"
    using same_dataD[OF same t] by (simp_all add: t0_def)
  have e: "e < MAX_DATA_SHREDS_PER_SLOT L"
    using seg wf_tracker_lengths[OF wf] by (simp add: is_segment_def)
  have flags: "i < MAX_DATA_SHREDS_PER_SLOT L \<Longrightarrow> already_deshredded t ! i \<longleftrightarrow>
      already_deshredded t0 ! i \<or> in_runs ds slot i" for i
    using b t unfolding backed_def t0_def by (metis snd_conv)
  have fresh: "\<not> already_deshredded t0 ! j \<and> \<not> in_runs ds slot j" if "s \<le> j" "j \<le> e" for j
    using flags[of j] that e seg by (simp add: is_segment_def)
  have "complete_run t0 s e u" "segment_payloads t0 s e = segment_payloads t s e"
    using is_segment_complete_run[OF seg] unfolding complete_run_def segment_payloads_def data
    by (simp_all split: if_splits)
  then have "delivers L (\<lambda>slot. tracker_of L slot st0) (slot, es, p) (s, e, u)"
    using dl by (simp add: t0_def[symmetric])
  moreover have "sorted_wrt apart (ds @ [((slot, es, p), (s, e, u))])"
    using b fresh apart_if_not_in_runs[of s e ds slot] by (auto simp: backed_def sorted_wrt_append)
  moreover have "already_deshredded (tracker_of L sl st') ! k \<longleftrightarrow>
      already_deshredded (tracker_of L sl st0) ! k \<or> in_runs (ds @ [((slot, es, p), (s, e, u))]) sl k"
    if k: "k < MAX_DATA_SHREDS_PER_SLOT L" for sl k
    using b k m flags[OF k] wf_tracker_lengths(4)[OF wf]
    by (cases "sl = slot") (auto simp: st' slot_entry_put in_runs_snoc backed_def marked_def t0_def)
  ultimately show ?thesis
    using b fresh by (auto simp: backed_def in_runs_snoc st' t0_def)
qed

lemma deshred_fec_ok:
  assumes inv: "deshred_inv L st0 st"
  shows "\<exists>st'. deshred_fec L (slot, fec) st = Some st' \<and> deshred_inv L st0 st'"
proof -
  obtain fecs t where v: "slot_entry L slot st = (fecs, t)" by force
  have ri: "recon_inv L st" and sd: "same_data L st0 st" and le: "recon_le L st0 st"
    using inv by (auto simp: deshred_inv_def)
  have ok: "slot_ok L slot (fecs, t)" using slot_entry_ok[OF ri] v by metis
  note wf = slot_okD(1)[OF ok]
  show ?thesis
  proof (cases "\<exists>s e u. is_segment t (unat fec) s e u")
    case False
    then show ?thesis using deshred_fec_none[OF ri v] deshred_inv_put_same[OF inv v, of _ "rc_metrics st"]
      by (simp add: put_slot_def)
  next
    case True
    then obtain s e u where seg: "is_segment t (unat fec) s e u" by blast
    note eq = deshred_fec_segment[OF ri v seg]
    show ?thesis
    proof (cases "\<exists>p es. deshred L (segment_payloads t s e) = Inr p \<and> deserialize_entries L p = Inr es")
      case False
      then show ?thesis using eq deshred_inv_put_same[OF inv v]
        by (auto split: sum.splits)
    next
      case True
      then obtain p es where dl: "deshred L (segment_payloads t s e) = Inr p"
        "deserialize_entries L p = Inr es" by blast
      obtain t' where run: "foldM mark_deshredded (map (\<lambda>j. data_shreds t ! j) [s..<Suc e]) t = Some t'"
        and m: "marked t s e t'" using mark_segment[OF wf seg] by blast
      define st' where "st' = (put_slot slot (fecs, t') st)
           \<lparr>deshredded_entries := deshredded_entries st @ [(slot, es, p)],
             rc_metrics := count_entries es (count_unknown_start u (rc_metrics st))\<rparr>"
      have step: "deshred_fec L (slot, fec) st = Some st'"
        using eq dl run by (simp add: st'_def del: upt_Suc)
      have "recon_inv L st'"
        using put_slot_inv[OF ri slot_ok_marked[OF ok seg m]] by (simp add: st'_def)
      moreover have "same_data L st0 st'"
        using sd m same_dataD[OF sd v] by (auto simp: same_data_def st'_def slot_entry_put marked_def)
      moreover have "tracker_le L t t'"
        using m wf_tracker_lengths[OF wf] by (auto simp: tracker_le_def marked_def)
      then have "recon_le L st st'" using v by (simp add: recon_le_def st'_def slot_entry_put)
      then have "recon_le L st0 st'" using le recon_le_trans by blast
      moreover have "\<exists>ds. backed L st0 st' ds"
        using inv backed_deliver[OF _ sd v wf seg m dl st'_def] by (auto simp: deshred_inv_def)
      ultimately have "deshred_inv L st0 st'" using inv by (simp add: deshred_inv_def st'_def)
      then show ?thesis using step by blast
    qed
  qed
qed

interpretation deshredding: fallible_step "deshred_fec L" "deshred_inv L st0" "\<lambda>_. True" for L st0
proof unfold_locales
  show "deshred_inv L st0 s \<Longrightarrow> \<exists>s'. deshred_fec L x s = Some s' \<and> deshred_inv L st0 s'" for s x
    using deshred_fec_ok[of L st0 s "fst x" "snd x"] by simp
qed

lemma deshred_inv_start:
  "recon_inv L st \<Longrightarrow> deshredded_entries st = [] \<Longrightarrow> deshred_inv L st st"
  by (auto simp: deshred_inv_def same_data_def backed_def in_runs_def intro!: exI[of _ "[]"])

end
