(* ===== verification/Deshred_Call.thy ===== *)
theory Deshred_Call
  imports Deshred_Delivery
begin

text \<open>
  A whole call of \<open>reconstruct_shreds\<close>: eviction, the stages in sequence, the bound on the
  number of tracked slots, and that every run that is ready at a queued FEC set is delivered.
\<close>

section \<open>Eviction\<close>

lemma missed_fec_sets_total:
  assumes "length (already_recovered_fec_sets t) = n" "\<forall>(fec, shreds)\<in>set fecs. unat fec < n"
  shows "\<exists>ms. missed_fec_sets L t fecs = Some ms"
  using assms by (induction fecs) (auto simp: vec_simps)

lemma slot_ok_missed_total:
  assumes "slot_ok L slot (fecs, t)"
  shows "\<exists>ms. missed_fec_sets L t fecs = Some ms"
proof (rule missed_fec_sets_total)
  show "length (already_recovered_fec_sets t) = MAX_DATA_SHREDS_PER_SLOT L"
    using wf_tracker_lengths(3)[OF slot_okD(1)[OF assms]] .
  show "\<forall>(fec, shreds)\<in>set fecs. unat fec < MAX_DATA_SHREDS_PER_SLOT L"
    using assms by (auto simp: slot_ok_def alist_ok_def fec_ok_def dest!: map_of_is_SomeI)
qed

lemma collect_missed_total:
  assumes "\<forall>(slot, v)\<in>set m. slot_ok L slot v"
  shows "\<exists>ms. collect_missed L th m = Some ms"
  using assms
proof (induction m)
  case Nil
  then show ?case by simp
next
  case (Cons x m)
  obtain slot fecs t where x: "x = (slot, (fecs, t))" by (metis surj_pair)
  obtain ms where "missed_fec_sets L t fecs = Some ms"
    using slot_ok_missed_total[of L slot fecs t] Cons.prems by (auto simp: x)
  then show ?case using Cons by (auto simp: x)
qed

text \<open>The state after the eviction: a filter on the slots, applied only to a full map.\<close>

definition evicted :: "ledger \<Rightarrow> recon_state \<Rightarrow> recon_state" where
  "evicted L st = (if MAX_PROCESSING_AGE L < length (all_shreds st)
     then st\<lparr>all_shreds := alist_retain
       (\<lambda>slot _. slot_threshold (highest_slot_seen st) \<le> slot) (all_shreds st)\<rparr>
     else st)"

lemma evict_old_slots_total:
  assumes "recon_inv L st"
  shows "\<exists>rep. evict_old_slots L st = Some (evicted L st, rep)"
proof -
  have "\<forall>(slot, v)\<in>set (all_shreds st). slot_ok L slot v"
    using assms by (auto simp: recon_inv_def alist_ok_def dest!: map_of_is_SomeI)
  then obtain ms where "collect_missed L (slot_threshold (highest_slot_seen st)) (all_shreds st) = Some ms"
    using collect_missed_total by blast
  then show ?thesis by (simp add: evict_old_slots_def evicted_def Let_def)
qed

lemma evicted_lookup:
  assumes "recon_inv L st"
  shows "map_of (all_shreds (evicted L st)) slot =
     (if MAX_PROCESSING_AGE L < length (all_shreds st) \<and> slot < slot_threshold (highest_slot_seen st)
      then None else map_of (all_shreds st) slot)"
  using assms by (auto simp: evicted_def recon_inv_def alist.lookup_retain split: option.splits)

lemma recon_inv_evicted: "recon_inv L st \<Longrightarrow> recon_inv L (evicted L st)"
  using evicted_lookup[of L st] by (auto simp: recon_inv_def evicted_def alist.ok_retain split: if_splits)

lemma evicted_frame [simp]:
  "slot_fec_indexes_to_iterate (evicted L st) = slot_fec_indexes_to_iterate st"
  "deshredded_entries (evicted L st) = deshredded_entries st"
  "highest_slot_seen (evicted L st) = highest_slot_seen st"
  "rc_metrics (evicted L st) = rc_metrics st"
  by (simp_all add: evicted_def)

lemma slot_entry_evicted:
  assumes "recon_inv L st" "slot \<in> dom (map_of (all_shreds (evicted L st)))"
  shows "slot_entry L slot (evicted L st) = slot_entry L slot st"
  using assms evicted_lookup[OF assms(1)] by (auto simp: slot_entry_def or_default_def split: if_splits)

section \<open>The stages of a call\<close>

lemma count_recovered_frame [simp]:
  "all_shreds (count_recovered n st) = all_shreds st"
  "slot_fec_indexes_to_iterate (count_recovered n st) = slot_fec_indexes_to_iterate st"
  "deshredded_entries (count_recovered n st) = deshredded_entries st"
  "highest_slot_seen (count_recovered n st) = highest_slot_seen st"
  by (simp_all add: count_recovered_def)

lemma count_recovered_inv [simp]: "recon_inv L (count_recovered n st) = recon_inv L st"
  by (simp add: recon_inv_def)

lemma slot_entry_count_recovered [simp]: "slot_entry L slot (count_recovered n st) = slot_entry L slot st"
  by (simp add: slot_entry_def)

lemma recon_inv_todo:
  "recon_inv L st \<Longrightarrow> \<forall>p\<in>set ps. unat (snd p) < MAX_DATA_SHREDS_PER_SLOT L \<Longrightarrow>
   recon_inv L (st\<lparr>slot_fec_indexes_to_iterate := ps\<rparr>)"
  by (simp add: recon_inv_def)

text \<open>The state a call starts its loops from, and its work list after sorting.\<close>

definition cleared :: "recon_state \<Rightarrow> recon_state" where
  "cleared st = st\<lparr>deshredded_entries := [], slot_fec_indexes_to_iterate := []\<rparr>"

definition sorted_todo :: "recon_state \<Rightarrow> recon_state" where
  "sorted_todo st = st\<lparr>slot_fec_indexes_to_iterate := sort_dedup (slot_fec_indexes_to_iterate st)\<rparr>"

lemma recon_inv_cleared [simp]: "recon_inv L st \<Longrightarrow> recon_inv L (cleared st)"
  by (simp add: recon_inv_def cleared_def)

lemma recon_inv_sorted_todo [simp]: "recon_inv L st \<Longrightarrow> recon_inv L (sorted_todo st)"
  by (simp add: recon_inv_def sorted_todo_def)

lemma slot_entry_cleared [simp]:
  "slot_entry L slot (cleared st) = slot_entry L slot st"
  "slot_entry L slot (sorted_todo st) = slot_entry L slot st"
  by (simp_all add: cleared_def sorted_todo_def)

text \<open>Ingestion only appends to the work list and never delivers.\<close>

lemma ingest_shred_entries:
  assumes "ledger_ok L" "recon_inv L st" "shred_ok L s" "ingest_shred L s st = Some st'"
  shows "deshredded_entries st' = deshredded_entries st \<and> rc_metrics st' = rc_metrics st"
proof (cases "accepts L s st")
  case False
  then show ?thesis using ingest_shred_rejected[OF assms(1-3)] assms(4) by auto
next
  case True
  then show ?thesis using ingest_shred_accepted[OF assms(1-3) True] assms(4) by fastforce
qed

interpretation ingest_quiet: monotone_step "ingest_packet L" "recon_inv L" "\<lambda>_. ledger_ok L"
  "\<lambda>st st'. deshredded_entries st' = deshredded_entries st \<and> rc_metrics st' = rc_metrics st" for L
proof unfold_locales
  show "recon_inv L st \<Longrightarrow> ledger_ok L \<Longrightarrow> ingest_packet L x st = Some st' \<Longrightarrow>
      deshredded_entries st' = deshredded_entries st \<and> rc_metrics st' = rc_metrics st" for st st' x
    using ingest_shred_entries[of L st] decoded_shred_ok[of L]
    by (auto simp: ingest_packet_def split: sum.splits)
qed auto

text \<open>The intermediate states of a call and what holds of them.\<close>

definition stages ::
  "ledger \<Rightarrow> packet list \<Rightarrow> recon_state \<Rightarrow> recon_state \<Rightarrow> recon_state \<Rightarrow> recon_state \<Rightarrow> nat \<Rightarrow>
   missed_report option \<Rightarrow> bool" where
  "stages L pkts st st1 st2 st3 n rep \<longleftrightarrow>
     foldM (ingest_packet L) (List.map_filter (packet_data L) pkts) (cleared st) = Some st1 \<and>
     recon_inv L st1 \<and>
     recon_le L st st1 \<and>
     foldM (recover_fec L) (sort_dedup (slot_fec_indexes_to_iterate st1)) (sorted_todo st1, 0) = Some (st2, n) \<and>
     recon_inv L st2 \<and>
     recon_le L st1 st2 \<and>
     highest_slot_seen st2 = highest_slot_seen st1 \<and>
     rc_metrics st2 = rc_metrics st \<and>
     deshredded_entries st2 = [] \<and>
     slot_fec_indexes_to_iterate st2 = sort_dedup (slot_fec_indexes_to_iterate st1) \<and>
     deshred_inv L st2 st2 \<and>
     foldM (deshred_fec L) (sort_dedup (slot_fec_indexes_to_iterate st1)) st2 = Some st3 \<and>
     deshred_inv L st2 st3 \<and>
     evict_old_slots L st3 = Some (evicted L st3, rep) \<and>
     reconstruct_shreds L pkts st = Some (count_recovered n (evicted L st3), n, rep)"

lemma stages_exist:
  assumes L: "ledger_ok L" and inv: "recon_inv L st"
  shows "\<exists>st1 st2 st3 n rep. stages L pkts st st1 st2 st3 n rep"
proof -
  let ?data = "List.map_filter (packet_data L) pkts"
  obtain st1 where st1: "foldM (ingest_packet L) ?data (cleared st) = Some st1" "recon_inv L st1"
    using ingest.run_ok[of L "cleared st" ?data] L inv by auto
  have le1: "recon_le L (cleared st) st1" using ingest.run_le[OF _ _ st1(1)] L inv by simp
  have q1: "deshredded_entries st1 = [] \<and> rc_metrics st1 = rc_metrics st"
    using ingest_quiet.run_le[OF recon_inv_cleared[OF inv] _ st1(1)] L by (simp add: cleared_def)
  let ?todo = "sort_dedup (slot_fec_indexes_to_iterate st1)"
  have todo: "\<forall>p\<in>set ?todo. ledger_ok L \<and> unat (snd p) < MAX_DATA_SHREDS_PER_SLOT L"
    using st1(2) L by (simp add: recon_inv_def)
  have inv1: "rec_loop_inv L (sorted_todo st1, 0)" using st1(2) by (simp add: rec_loop_inv_def)
  obtain st2 n where st2: "foldM (recover_fec L) ?todo (sorted_todo st1, 0) = Some (st2, n)" "recon_inv L st2"
    using recovery.run_ok[OF inv1 todo] by (auto simp: rec_loop_inv_def)
  note le2 = recovery.run_le[OF inv1 todo st2(1)]
  have d2: "deshred_inv L st2 st2"
    using deshred_inv_start[OF st2(2)] le2 q1 by (simp add: sorted_todo_def)
  obtain st3 where st3: "foldM (deshred_fec L) ?todo st2 = Some st3" "deshred_inv L st2 st3"
    using deshredding.run_ok[OF d2] by blast
  obtain rep where rep: "evict_old_slots L st3 = Some (evicted L st3, rep)"
    using evict_old_slots_total st3(2) by (auto simp: deshred_inv_def)
  have "stages L pkts st st1 st2 st3 n rep"
    unfolding stages_def
  proof (intro conjI st1 st2 d2 st3 rep)
    show "recon_le L st st1" using le1 by (simp add: recon_le_def) (simp add: cleared_def)
    show "recon_le L st1 st2" using le2 by (simp add: recon_le_def) (simp add: sorted_todo_def)
    show "highest_slot_seen st2 = highest_slot_seen st1" using le2 by (simp add: sorted_todo_def)
    show "rc_metrics st2 = rc_metrics st" using le2 q1 by (simp add: sorted_todo_def)
    show "deshredded_entries st2 = []" using le2 q1 by (simp add: sorted_todo_def)
    show "slot_fec_indexes_to_iterate st2 = ?todo" using le2 by (simp add: sorted_todo_def)
    show "reconstruct_shreds L pkts st = Some (count_recovered n (evicted L st3), n, rep)"
      using st1(1) st2(1) st3(1) rep
      by (simp add: reconstruct_shreds_def Let_def cleared_def[symmetric] sorted_todo_def[symmetric])
  qed
  then show ?thesis by blast
qed

section \<open>How many slots are tracked\<close>

text \<open>No tracked or queued slot is above the highest slot seen.\<close>

definition slots_seen :: "recon_state \<Rightarrow> bool" where
  "slots_seen st \<longleftrightarrow>
     (\<forall>slot \<in> dom (map_of (all_shreds st)) \<union> fst ` set (slot_fec_indexes_to_iterate st).
        slot \<le> highest_slot_seen st)"

lemma slot_threshold_le: "slot_threshold h \<le> h"
  by (simp add: slot_threshold_def saturating_sub_le)

lemma fresh_slot_accepts:
  assumes "map_of (all_shreds st) (shred_slot s) = None" "shred_ok L s" "\<not> too_old s st"
  shows "accepts L s st"
  using assms shred_ok_bounds[OF assms(2)]
  by (simp add: accepts_def slot_entry_def or_default_def already_completed_def seen_before_def
      default_tracker_def Let_def)

lemma slots_seen_put:
  assumes "slots_seen st" "slot \<le> highest_slot_seen st"
  shows "slots_seen (put_slot slot v st)"
  using assms by (auto simp: slots_seen_def)

lemma ingest_shred_slots_seen:
  assumes "ledger_ok L" "recon_inv L st" "shred_ok L s" "slots_seen st" "ingest_shred L s st = Some st'"
  shows "slots_seen st'"
proof (cases "accepts L s st")
  case True
  obtain v where "st' = (put_slot (shred_slot s) v st)
        \<lparr>slot_fec_indexes_to_iterate :=
            slot_fec_indexes_to_iterate st @ [(shred_slot s, shred_fec_set_index s)],
          highest_slot_seen := max (highest_slot_seen st) (shred_slot s)\<rparr>"
    using ingest_shred_accepted[OF assms(1-3) True] assms(5) by (metis option.inject)
  then show ?thesis using assms(4) by (auto simp: slots_seen_def le_max_iff_disj)
next
  case False
  have st': "st' = put_slot (shred_slot s) (slot_entry L (shred_slot s) st) st"
    using ingest_shred_rejected[OF assms(1-3) False] assms(5) by simp
  have "shred_slot s \<le> highest_slot_seen st"
  proof (cases "map_of (all_shreds st) (shred_slot s)")
    case None
    then have "too_old s st" using fresh_slot_accepts[OF None assms(3)] False by blast
    then have "shred_slot s < slot_threshold (highest_slot_seen st)" by (simp add: too_old_def)
    then show ?thesis using slot_threshold_le less_imp_le order_trans by blast
  next
    case (Some v)
    then show ?thesis using assms(4) by (auto simp: slots_seen_def)
  qed
  then show ?thesis using st' assms(4) slots_seen_put by simp
qed

interpretation ingest_seen: fallible_step "ingest_packet L"
  "\<lambda>st. recon_inv L st \<and> slots_seen st" "\<lambda>_. ledger_ok L" for L
proof unfold_locales
  fix st x assume st: "recon_inv L st \<and> slots_seen st" and L: "ledger_ok L"
  show "\<exists>st'. ingest_packet L x st = Some st' \<and> recon_inv L st' \<and> slots_seen st'"
  proof (cases "decode_shred L x")
    case (Inl e)
    then show ?thesis using st by (simp add: ingest_packet_def)
  next
    case (Inr s)
    then show ?thesis
      using ingest_shred_ok[OF L conjunct1[OF st] decoded_shred_ok[OF L Inr]] st
        ingest_shred_slots_seen[OF L conjunct1[OF st] decoded_shred_ok[OF L Inr]]
      by (auto simp: ingest_packet_def)
  qed
qed

text \<open>Recovery and deshredding write one slot, that of the work item.\<close>

lemma recover_fec_shape:
  assumes "recover_fec L (slot, fec) (st, n) = Some (st', n')"
  shows "\<exists>v. st' = put_slot slot v st"
proof -
  obtain fecs t where v: "slot_entry L slot st = (fecs, t)" by force
  show ?thesis using assms unfolding recover_fec_eq[OF v refl refl]
    by (auto split: if_splits sum.splits Option.bind_splits simp del: split_paired_Ex)
qed

lemma deshred_fec_shape:
  assumes "deshred_fec L (slot, fec) st = Some st'"
  shows "\<exists>v x m. st' = (put_slot slot v st)\<lparr>deshredded_entries := x, rc_metrics := m\<rparr>"
proof -
  obtain fecs t where v: "slot_entry L slot st = (fecs, t)" by force
  have id: "put_slot slot v st = (put_slot slot v st)
      \<lparr>deshredded_entries := deshredded_entries st, rc_metrics := rc_metrics st\<rparr>" for v
    by (simp add: put_slot_def)
  have id': "(put_slot slot v st)\<lparr>rc_metrics := m\<rparr> = (put_slot slot v st)
      \<lparr>deshredded_entries := deshredded_entries st, rc_metrics := m\<rparr>" for v m
    by (simp add: put_slot_def)
  show ?thesis using assms v unfolding deshred_fec_def
    by (auto simp: Let_def split: sum.splits option.splits Option.bind_splits prod.splits)
      (metis id id')+
qed

lemma slots_seen_recover:
  assumes "\<forall>p\<in>set ps. fst p \<le> highest_slot_seen (fst q)" "slots_seen (fst q)"
    "foldM (recover_fec L) ps q = Some q'"
  shows "slots_seen (fst q') \<and> highest_slot_seen (fst q') = highest_slot_seen (fst q)"
  using assms
proof (induction ps arbitrary: q)
  case Nil
  then show ?case by simp
next
  case (Cons p ps)
  obtain slot fec st n where pq: "p = (slot, fec)" "q = (st, n)" by force
  obtain st1 n1 where s1: "recover_fec L (slot, fec) (st, n) = Some (st1, n1)"
    "foldM (recover_fec L) ps (st1, n1) = Some q'"
    using Cons.prems(3) by (auto simp: pq split: Option.bind_splits)
  obtain v where "st1 = put_slot slot v st" using recover_fec_shape[OF s1(1)] by blast
  then show ?case using Cons.IH[OF _ _ s1(2)] Cons.prems(1,2) slots_seen_put by (simp add: pq)
qed

lemma slots_seen_deshred:
  assumes "\<forall>p\<in>set ps. fst p \<le> highest_slot_seen st" "slots_seen st"
    "foldM (deshred_fec L) ps st = Some st'"
  shows "slots_seen st'"
  using assms
proof (induction ps arbitrary: st)
  case Nil
  then show ?case by simp
next
  case (Cons p ps)
  obtain slot fec where p: "p = (slot, fec)" by force
  obtain st1 where s1: "deshred_fec L (slot, fec) st = Some st1" "foldM (deshred_fec L) ps st1 = Some st'"
    using Cons.prems(3) by (auto simp: p split: Option.bind_splits)
  obtain v x m where "st1 = (put_slot slot v st)\<lparr>deshredded_entries := x, rc_metrics := m\<rparr>"
    using deshred_fec_shape[OF s1(1)] by blast
  then show ?case using Cons.IH[OF _ _ s1(2)] Cons.prems(1,2) slots_seen_put[of st slot v]
    by (simp add: p slots_seen_def)
qed

text \<open>A filtered map holds at most the slots of the look-back window.\<close>

lemma window_card: "card {slot :: u64. slot_threshold h \<le> slot \<and> slot \<le> h} \<le> 51"
proof -
  let ?W = "{slot :: u64. slot_threshold h \<le> slot \<and> slot \<le> h}"
  have "unat ` ?W \<subseteq> {unat h - 50 .. unat h}"
    by (auto simp: slot_threshold_def SLOT_LOOKBACK_def word_le_nat_alt)
  then have "card (unat ` ?W) \<le> card {unat h - 50 .. unat h}" by (rule card_mono[rotated]) simp
  moreover have "card (unat ` ?W) = card ?W" by (rule card_image) (simp add: inj_on_def word_unat_eq_iff)
  ultimately show ?thesis by simp
qed

lemma evicted_length:
  assumes "recon_inv L st" "slots_seen st"
  shows "length (all_shreds (evicted L st)) \<le> max (MAX_PROCESSING_AGE L) 51"
proof (cases "MAX_PROCESSING_AGE L < length (all_shreds st)")
  case False
  then show ?thesis by (simp add: evicted_def)
next
  case True
  have "dom (map_of (all_shreds (evicted L st))) \<subseteq>
      {slot. slot_threshold (highest_slot_seen st) \<le> slot \<and> slot \<le> highest_slot_seen st}"
    using assms True by (auto simp: dom_def evicted_lookup[OF assms(1)] slots_seen_def not_less
        split: if_splits)
  then have "card (dom (map_of (all_shreds (evicted L st)))) \<le> 51"
    using window_card card_mono[OF finite] order_trans by blast
  moreover have "alist_ok (all_shreds (evicted L st))"
    using recon_inv_evicted[OF assms(1)] by (simp add: recon_inv_def)
  ultimately show ?thesis by (simp add: alist.len_dom)
qed

section \<open>Nothing ready is left behind\<close>

lemma complete_run_overlap:
  assumes r: "complete_run t s e u" "complete_run t s' e' u'"
    and j: "s \<le> j" "j \<le> e" "s' \<le> j" "j \<le> e'"
  shows "s' = s \<and> e' = e \<and> u' = u"
proof -
  have "\<not> e < e'" "\<not> e' < e" using r j by (auto simp: complete_run_def)
  then have e: "e' = e" by simp
  have ns: "\<not> a < b" if "complete_run t a e ua" "complete_run t b e ub" for a b ua ub
  proof
    assume "a < b"
    then have "a \<le> b - 1 \<and> b - 1 < e" using that by (auto simp: complete_run_def)
    then have "data_status t ! (b - 1) = NotDataComplete"
      using that(1) unfolding complete_run_def by blast
    then show False using that(2) \<open>a < b\<close> by (auto simp: complete_run_def split: if_splits)
  qed
  have s: "s' = s" using ns[of s u s' u'] ns[of s' u' s u] r e by auto
  have "u' = u" using r unfolding e s complete_run_def by (auto split: if_splits)
  then show ?thesis using e s by simp
qed

lemma backed_flagged:
  assumes b: "backed L st0 st ds" and run: "complete_run (tracker_of L slot st0) s e u"
    and dl: "deshred L (segment_payloads (tracker_of L slot st0) s e) = Inr p"
      "deserialize_entries L p = Inr es"
    and j: "s \<le> j" "j \<le> e" "in_runs ds slot j"
  shows "(slot, es, p) \<in> set (deshredded_entries st)"
proof -
  obtain es' p' s' e' u' where d: "((slot, es', p'), (s', e', u')) \<in> set ds" "s' \<le> j" "j \<le> e'"
    using j(3) by (force simp: in_runs_def)
  then have dv: "delivers L (\<lambda>slot. tracker_of L slot st0) (slot, es', p') (s', e', u')"
    using b by (auto simp: backed_def)
  then have "s' = s \<and> e' = e \<and> u' = u" using complete_run_overlap[OF run _ j(1,2) d(2,3)] by auto
  then have "es' = es" "p' = p" using dv dl by auto
  then show ?thesis using imageI[OF d(1), of fst] b by (simp add: backed_def)
qed

lemma backed_whole_run:
  assumes b: "backed L st0 st ds" and run: "complete_run (tracker_of L slot st0) s e u"
    and j: "s \<le> j" "j \<le> e" "in_runs ds slot j" and i: "s \<le> i" "i \<le> e"
  shows "in_runs ds slot i"
proof -
  obtain es' p' s' e' u' where d: "((slot, es', p'), (s', e', u')) \<in> set ds" "s' \<le> j" "j \<le> e'"
    using j(3) by (force simp: in_runs_def)
  then have "delivers L (\<lambda>slot. tracker_of L slot st0) (slot, es', p') (s', e', u')"
    using b by (auto simp: backed_def)
  then have "s' = s \<and> e' = e \<and> u' = u" using complete_run_overlap[OF run _ j(1,2) d(2,3)] by auto
  then show ?thesis using d(1) i by (force simp: in_runs_def)
qed

lemma deshred_fec_mono:
  assumes inv: "recon_inv L st" and step: "deshred_fec L (slot, fec) st = Some st'"
  shows "set (deshredded_entries st) \<subseteq> set (deshredded_entries st') \<and> recon_le L st st'"
proof -
  obtain fecs t where v: "slot_entry L slot st = (fecs, t)" by force
  have wf: "wf_tracker L t" using slot_okD(1) slot_entry_ok[OF inv] v by metis
  show ?thesis
  proof (cases "\<exists>s e u. is_segment t (unat fec) s e u")
    case False
    then show ?thesis using step deshred_fec_none[OF inv v] v
      by (auto simp: recon_le_def slot_entry_put)
  next
    case True
    then obtain s e u where seg: "is_segment t (unat fec) s e u" by blast
    obtain t' where run: "foldM mark_deshredded (map (\<lambda>j. data_shreds t ! j) [s..<Suc e]) t = Some t'"
      and m: "marked t s e t'" using mark_segment[OF wf seg] by blast
    have "tracker_le L t t'"
      using m wf_tracker_lengths[OF wf] by (auto simp: tracker_le_def marked_def)
    then show ?thesis using step v run unfolding deshred_fec_segment[OF inv v seg]
      by (auto simp: recon_le_def slot_entry_put simp del: upt_Suc split: sum.splits)
  qed
qed

interpretation deshredding_adds: monotone_step "deshred_fec L" "deshred_inv L st0" "\<lambda>_. True"
  "\<lambda>st st'. set (deshredded_entries st) \<subseteq> set (deshredded_entries st') \<and> recon_le L st st'" for L st0
proof unfold_locales
  fix st st' and x :: "u64 \<times> u32"
  assume "deshred_inv L st0 st" "deshred_fec L x st = Some st'"
  then show "set (deshredded_entries st) \<subseteq> set (deshredded_entries st') \<and> recon_le L st st'"
    using deshred_fec_mono[of L st "fst x" "snd x" st'] by (simp add: deshred_inv_def)
qed (auto intro: recon_le_trans)

text \<open>The run \<open>s..e\<close> of a slot has been turned into the item \<open>(slot, es, p)\<close>.\<close>

definition consumed :: "ledger \<Rightarrow> u64 \<Rightarrow> nat \<Rightarrow> nat \<Rightarrow> entry list \<Rightarrow> bytes \<Rightarrow> recon_state \<Rightarrow> bool" where
  "consumed L slot s e es p st \<longleftrightarrow> (slot, es, p) \<in> set (deshredded_entries st) \<and>
     (\<forall>j. s \<le> j \<and> j \<le> e \<longrightarrow> already_deshredded (tracker_of L slot st) ! j)"

lemma consumed_mono:
  assumes "consumed L slot s e es p st" "e < MAX_DATA_SHREDS_PER_SLOT L"
    "set (deshredded_entries st) \<subseteq> set (deshredded_entries st') \<and> recon_le L st st'"
  shows "consumed L slot s e es p st'"
proof -
  have "tracker_le L (tracker_of L slot st) (tracker_of L slot st')"
    using assms(3) by (simp add: recon_le_def)
  then have "already_deshredded (tracker_of L slot st') ! j"
    if "j \<le> e" "already_deshredded (tracker_of L slot st) ! j" for j
    using that assms(2) by (simp add: tracker_le_def)
  then show ?thesis using assms(1,3) by (auto simp: consumed_def)
qed

lemma deshred_fec_delivers:
  assumes inv: "deshred_inv L st0 st" and run: "complete_run (tracker_of L slot st0) s e u"
    and fec: "s \<le> unat fec" "unat fec \<le> e"
    and fresh: "\<forall>j. s \<le> j \<and> j \<le> e \<longrightarrow> \<not> already_deshredded (tracker_of L slot st0) ! j"
    and dl: "deshred L (segment_payloads (tracker_of L slot st0) s e) = Inr p"
      "deserialize_entries L p = Inr es"
    and step: "deshred_fec L (slot, fec) st = Some st'"
  shows "consumed L slot s e es p st' \<and> e < MAX_DATA_SHREDS_PER_SLOT L"
proof -
  obtain fecs t where v: "slot_entry L slot st = (fecs, t)" by force
  obtain ds where b: "backed L st0 st ds" and ri: "recon_inv L st" and sd: "same_data L st0 st"
    using inv by (auto simp: deshred_inv_def)
  note data = same_dataD[OF sd v]
  have wf: "wf_tracker L t" using slot_okD(1) slot_entry_ok[OF ri] v by metis
  have e: "e < MAX_DATA_SHREDS_PER_SLOT L"
    using run wf_tracker_lengths(1)[OF wf] data(2) by (simp add: complete_run_def)
  have flags: "already_deshredded t ! j \<longleftrightarrow> in_runs ds slot j" if "s \<le> j" "j \<le> e" for j
    using b fresh v e that unfolding backed_def by (metis le_less_trans snd_conv)
  show ?thesis
  proof (cases "\<exists>j. s \<le> j \<and> j \<le> e \<and> in_runs ds slot j")
    case True
    then obtain j where j: "s \<le> j" "j \<le> e" "in_runs ds slot j" by blast
    have "(slot, es, p) \<in> set (deshredded_entries st)" using backed_flagged[OF b run dl j] .
    moreover have "already_deshredded t ! i" if "s \<le> i" "i \<le> e" for i
      using flags[OF that] backed_whole_run[OF b run j that] by simp
    ultimately have "consumed L slot s e es p st" using v by (simp add: consumed_def)
    then show ?thesis using consumed_mono[OF _ e deshred_fec_mono[OF ri step]] e by simp
  next
    case False
    have seg: "is_segment t (unat fec) s e u"
      using run fec flags False unfolding complete_run_def is_segment_def data(2)[symmetric]
      by (auto split: if_splits)
    have "segment_payloads t s e = segment_payloads (tracker_of L slot st0) s e"
      by (simp add: segment_payloads_def data)
    moreover obtain t' where "foldM mark_deshredded (map (\<lambda>j. data_shreds t ! j) [s..<Suc e]) t = Some t'"
      and m: "marked t s e t'" using mark_segment[OF wf seg] by blast
    ultimately have "st' = (put_slot slot (fecs, t') st)
           \<lparr>deshredded_entries := deshredded_entries st @ [(slot, es, p)],
             rc_metrics := count_entries es (count_unknown_start u (rc_metrics st))\<rparr>"
      using step dl unfolding deshred_fec_segment[OF ri v seg] by (simp del: upt_Suc)
    then show ?thesis using m e wf_tracker_lengths(4)[OF wf]
      by (simp add: consumed_def slot_entry_put marked_def)
  qed
qed

lemma deshred_loop_delivers:
  assumes "deshred_inv L st0 st" "complete_run (tracker_of L slot st0) s e u"
    "(slot, fec) \<in> set ps" "s \<le> unat fec" "unat fec \<le> e"
    "\<forall>j. s \<le> j \<and> j \<le> e \<longrightarrow> \<not> already_deshredded (tracker_of L slot st0) ! j"
    "deshred L (segment_payloads (tracker_of L slot st0) s e) = Inr p"
    "deserialize_entries L p = Inr es" "foldM (deshred_fec L) ps st = Some st'"
  shows "consumed L slot s e es p st'"
proof -
  obtain ps1 ps2 where ps: "ps = ps1 @ (slot, fec) # ps2" using assms(3) by (meson split_list)
  obtain st1 st2 where st1: "foldM (deshred_fec L) ps1 st = Some st1"
    and st2: "deshred_fec L (slot, fec) st1 = Some st2" "foldM (deshred_fec L) ps2 st2 = Some st'"
    using assms(9) by (auto simp: ps foldM_append split: Option.bind_splits)
  have i1: "deshred_inv L st0 st1" using deshredding.run_inv[OF assms(1) _ st1] by simp
  have i2: "deshred_inv L st0 st2" using deshredding.step_SomeD[OF i1 _ st2(1)] by simp
  have c: "consumed L slot s e es p st2 \<and> e < MAX_DATA_SHREDS_PER_SLOT L"
    using deshred_fec_delivers[OF i1 assms(2,4,5,6,7,8) st2(1)] .
  then show ?thesis using consumed_mono[OF _ _ deshredding_adds.run_le[OF i2 _ st2(2)]] by auto
qed

end
