(* ===== verification/Example_Ledger.thy ===== *)
theory Example_Ledger
  imports Ledger
begin

text \<open>
  A small concrete instance of the third-party interface, with slots of four data shreds
  and seven-byte packets. It satisfies \<open>ledger_ok\<close>, so the theorems about the model can be
  applied at concrete inputs.
\<close>

definition ex_header :: "bytes \<Rightarrow> ShredVariant \<Rightarrow> shred_common_header" where
  "ex_header b v = \<lparr>ch_slot = ucast (b ! 1), ch_index = ucast (b ! 2),
     ch_fec_set_index = ucast (b ! 3), ch_shred_variant = v, ch_other = []\<rparr>"

definition ex_data :: "bytes \<Rightarrow> shred" where
  "ex_data b = ShredData \<lparr>sd_common_header = ex_header b (OtherVariant []),
     sd_data_header = [b ! 4], sd_data_complete = (b ! 4 = 1), sd_last_in_slot = (b ! 4 = 2),
     sd_payload = b\<rparr>"

definition ex_code :: "bytes \<Rightarrow> shred" where
  "ex_code b = ShredCode \<lparr>sc_common_header = ex_header b (MerkleCode 2 True False),
     sc_coding_header = \<lparr>num_data_shreds = ucast (b ! 4), num_coding_shreds = 1, cod_other = []\<rparr>,
     sc_payload = b\<rparr>"

text \<open>Bytes: kind, slot, index, FEC set index, flag or number of data shreds, two data bytes.\<close>

definition ex_decode :: "bytes \<Rightarrow> err + shred" where
  "ex_decode b =
     (if length b = 7 \<and> unat (b ! 2) < 4 \<and> unat (b ! 3) < 4 then
        if b ! 0 = 0 \<and> unat (b ! 3) \<le> unat (b ! 2) then Inr (ex_data b)
        else if b ! 0 = 1 then Inr (ex_code b) else Inl ''kind''
      else Inl ''size'')"

text \<open>The data shred at position \<open>i\<close> of the batch of a coding shred.\<close>

definition ex_recovered :: "shred_code \<Rightarrow> nat \<Rightarrow> shred" where
  "ex_recovered c i = ShredData \<lparr>
     sd_common_header = (sc_common_header c)\<lparr>
       ch_index := ch_fec_set_index (sc_common_header c) + of_nat i,
       ch_shred_variant := OtherVariant []\<rparr>,
     sd_data_header = [], sd_data_complete = (Suc i = unat (num_data_shreds (sc_coding_header c))),
     sd_last_in_slot = False,
     sd_payload = sc_payload c\<rparr>"

fun ex_codes :: "shred list \<Rightarrow> shred_code list" where
  "ex_codes [] = []"
| "ex_codes (ShredCode c # xs) = c # ex_codes xs"
| "ex_codes (ShredData d # xs) = ex_codes xs"

definition ex_in_range :: "shred \<Rightarrow> bool" where
  "ex_in_range s \<longleftrightarrow> unat (shred_index s) < 4 \<and> unat (shred_fec_set_index s) < 4
     \<and> unat (shred_fec_set_index s) \<le> unat (shred_index s)"

definition ex_recover :: "shred list \<Rightarrow> err + (err + shred) list" where
  "ex_recover xs = (case ex_codes xs of
      [] \<Rightarrow> Inl ''no coding shred''
    | c # _ \<Rightarrow>
        if \<forall>x\<in>set xs. shred_slot x = ch_slot (sc_common_header c)
             \<and> shred_fec_set_index x = ch_fec_set_index (sc_common_header c)
        then Inr (map Inr (filter (\<lambda>s. ex_in_range s \<and> (\<forall>x\<in>set xs. is_data x \<longrightarrow> shred_index x \<noteq> shred_index s))
               (map (ex_recovered c) [0..<unat (num_data_shreds (sc_coding_header c))])))
        else Inl ''mixed batch'')"

definition ex_ledger :: ledger where
  "ex_ledger = \<lparr>
     MAX_DATA_SHREDS_PER_SLOT = 4, MAX_PROCESSING_AGE = 2, CODE_SIZE_OF_PAYLOAD = 7,
     SIZE_OF_MERKLE_PROOF_ENTRY = 1, SIZE_OF_SIGNATURE = 1,
     packet_data = (\<lambda>p. if pk_discard p \<or> length (pk_buffer p) < pk_size p then None
       else Some (take (pk_size p) (pk_buffer p))),
     decode_shred = ex_decode,
     shred_type = (\<lambda>s. if is_data s then Data else Code),
     shred_type_u8 = (\<lambda>t. case t of Data \<Rightarrow> 165 | Code \<Rightarrow> 90),
     recover = ex_recover,
     deshred = (\<lambda>ps. Inr (concat (map (drop 5) ps))),
     deserialize_entries = (\<lambda>p. if p = [] \<or> hd p = 0 then Inl ''bincode'' else Inr [\<lparr>transactions = map (\<lambda>b. [b]) p\<rparr>]),
     get_data = (\<lambda>p. Inr (drop 5 p)),
     set_order = rev\<rparr>"

definition ex_packet :: "bytes \<Rightarrow> packet" where
  "ex_packet b = \<lparr>pk_buffer = b, pk_size = length b, pk_addr = V4 0, pk_discard = False\<rparr>"

lemma unat_ucast_8_32: "unat (ucast (x :: u8) :: u32) = unat x"
proof -
  have "unat x < 2 ^ 32" using unsigned_less[of x, where ?'a = nat] by simp
  then show ?thesis by (simp add: unsigned_ucast_eq take_bit_nat_eq_self)
qed

lemma ex_decode_ok: "ex_decode b = Inr s \<Longrightarrow> shred_ok ex_ledger s"
  by (auto simp: ex_decode_def ex_data_def ex_code_def ex_header_def ex_ledger_def unat_ucast_8_32
      word_le_nat_alt split: if_splits)

lemma ex_recover_ok:
  assumes "ex_recover xs = Inr ys" "Inr s \<in> set ys"
  shows "shred_ok ex_ledger s \<and> (\<forall>x\<in>set xs. shred_slot x = shred_slot s
     \<and> shred_fec_set_index x = shred_fec_set_index s)"
proof -
  obtain c cs where c: "ex_codes xs = c # cs" using assms by (cases "ex_codes xs") (auto simp: ex_recover_def)
  then obtain i where s: "s = ex_recovered c i" "ex_in_range s"
    and all: "\<forall>x\<in>set xs. shred_slot x = ch_slot (sc_common_header c)
             \<and> shred_fec_set_index x = ch_fec_set_index (sc_common_header c)"
    using assms by (auto simp: ex_recover_def split: if_splits)
  then show ?thesis by (simp add: ex_recovered_def ex_in_range_def ex_ledger_def word_le_nat_alt)
qed

lemma ex_ledger_ok: "ledger_ok ex_ledger"
proof -
  have "decode_ok ex_ledger"
    using ex_decode_ok by (simp add: decode_ok_def ex_ledger_def)
  moreover have "type_ok ex_ledger" by (simp add: type_ok_def ex_ledger_def)
  moreover have "recover_ok ex_ledger"
    using ex_recover_ok by (simp add: recover_ok_def ex_ledger_def)
  moreover have "order_ok ex_ledger" by (simp add: order_ok_def ex_ledger_def)
  ultimately show ?thesis by (simp add: ledger_ok_def)
qed

end
