(* ===== verification/Reconstructor.thy ===== *)
theory Reconstructor
  imports Deshred_Call Example_Ledger
begin

text \<open>
  The thread that owns the reconstruction state (\<^verbatim>\<open>proxy/src/forwarder.rs\<close>,
  \<^verbatim>\<open>start_forwarder_threads\<close>), and the properties of \<^verbatim>\<open>reconstruct_shreds\<close> over a whole
  call: it never panics, what it delivers, that nothing is delivered twice, and that no
  deliverable run is left behind.
\<close>

section \<open>The reconstructor thread\<close>

text \<open>
  The thread \<^verbatim>\<open>shred_reconstructor\<close> of \<^verbatim>\<open>start_forwarder_threads\<close>: every batch it receives
  goes through \<open>reconstruct_shreds\<close>, and the delivered items are drained into the broadcast
  channel. \<open>sent\<close> is the sequence of messages it sends.
\<close>

record PbEntry =
  pb_slot :: u64
  pb_entries :: bytes

datatype reconstruct_event = PktBatch "packet list" | RecvTimeout | RecvDisconnected

record reconstructor =
  recon :: recon_state
  sent :: "PbEntry list"

definition drain_entries :: "recon_state \<Rightarrow> PbEntry list" where
  "drain_entries st = map (\<lambda>(slot, _, bs). \<lparr>pb_slot = slot, pb_entries = bs\<rparr>) (deshredded_entries st)"

fun reconstructor_body ::
  "ledger \<Rightarrow> reconstruct_event \<Rightarrow> reconstructor \<Rightarrow> reconstructor verdict option" where
  "reconstructor_body L (PktBatch pkts) r = do {
     (st, n, report) \<leftarrow> reconstruct_shreds L pkts (recon r);
     Some (Continue \<lparr>recon = st\<lparr>deshredded_entries := []\<rparr>, sent = sent r @ drain_entries st\<rparr>) }"
| "reconstructor_body L RecvTimeout r = Some (Continue r)"
| "reconstructor_body L RecvDisconnected r = Some (Break r)"

definition initial_reconstructor :: "bool \<Rightarrow> reconstructor" where
  "initial_reconstructor grpc = \<lparr>recon = initial_recon grpc, sent = []\<rparr>"

definition reconstructor_thread ::
  "ledger \<Rightarrow> reconstruct_event poll list \<Rightarrow> bool \<Rightarrow> reconstructor option" where
  "reconstructor_thread L polls grpc =
     event_loop (reconstructor_body L) polls (initial_reconstructor grpc)"

definition thread_inv :: "ledger \<Rightarrow> reconstructor \<Rightarrow> bool" where
  "thread_inv L r \<longleftrightarrow> recon_inv L (recon r) \<and> slots_seen (recon r) \<and>
     length (all_shreds (recon r)) \<le> max (MAX_PROCESSING_AGE L) 51"

lemma recon_inv_initial [simp]: "recon_inv L (initial_recon grpc)"
  by (simp add: recon_inv_def initial_recon_def alist_ok_def)

lemma slots_seen_initial [simp]: "slots_seen (initial_recon grpc)"
  by (simp add: slots_seen_def initial_recon_def)

lemma thread_inv_initial: "thread_inv L (initial_reconstructor grpc)"
  by (simp add: thread_inv_def initial_reconstructor_def) (simp add: initial_recon_def)

lemma slots_seen_todo:
  "slots_seen st \<Longrightarrow> slots_seen (cleared st)"
  "slots_seen st \<Longrightarrow> slots_seen (sorted_todo st)"
  by (auto simp: slots_seen_def cleared_def sorted_todo_def)

lemma slots_seen_evicted: "recon_inv L st \<Longrightarrow> slots_seen st \<Longrightarrow> slots_seen (evicted L st)"
  using evicted_lookup[of L st] by (auto simp: slots_seen_def dom_def split: if_splits)

lemma reconstruct_slots_seen:
  assumes L: "ledger_ok L" and inv: "recon_inv L st" and seen: "slots_seen st"
    and r: "reconstruct_shreds L pkts st = Some (st', n, rep)"
  shows "slots_seen st'" "length (all_shreds st') \<le> max (MAX_PROCESSING_AGE L) 51"
proof -
  obtain st1 st2 st3 k rep' where "stages L pkts st st1 st2 st3 k rep'" using stages_exist[OF L inv] by blast
  then have s1: "foldM (ingest_packet L) (List.map_filter (packet_data L) pkts) (cleared st) = Some st1" and
    s2: "foldM (recover_fec L) (sort_dedup (slot_fec_indexes_to_iterate st1)) (sorted_todo st1, 0) = Some (st2, k)" and
    h2: "highest_slot_seen st2 = highest_slot_seen st1" and
    s3: "foldM (deshred_fec L) (sort_dedup (slot_fec_indexes_to_iterate st1)) st2 = Some st3" and
    d3: "deshred_inv L st2 st3" and
    res: "reconstruct_shreds L pkts st = Some (count_recovered k (evicted L st3), k, rep')"
    by (simp_all add: stages_def)
  have "recon_inv L (cleared st) \<and> slots_seen (cleared st)" using inv seen slots_seen_todo by simp
  then have seen1: "slots_seen st1" using ingest_seen.run_inv[OF _ _ s1] L by simp
  then have todo: "\<forall>p\<in>set (sort_dedup (slot_fec_indexes_to_iterate st1)). fst p \<le> highest_slot_seen st1"
    by (auto simp: slots_seen_def)
  have "slots_seen st2"
    using slots_seen_recover[OF _ _ s2] todo slots_seen_todo(2)[OF seen1] by (simp add: sorted_todo_def)
  then have seen3: "slots_seen st3" using slots_seen_deshred[OF _ _ s3] todo h2 by simp
  have st': "st' = count_recovered k (evicted L st3)" using res r by simp
  have inv3: "recon_inv L st3" using d3 by (simp add: deshred_inv_def)
  show "slots_seen st'" using slots_seen_evicted[OF inv3 seen3] by (simp add: st' slots_seen_def)
  show "length (all_shreds st') \<le> max (MAX_PROCESSING_AGE L) 51"
    using evicted_length[OF inv3 seen3] by (simp add: st')
qed

lemma reconstruct_inv:
  assumes L: "ledger_ok L" and inv: "recon_inv L st"
    and r: "reconstruct_shreds L pkts st = Some (st', n, rep)"
  shows "recon_inv L st'"
proof -
  obtain st1 st2 st3 k rep' where "stages L pkts st st1 st2 st3 k rep'" using stages_exist[OF L inv] by blast
  then have "deshred_inv L st2 st3" "st' = count_recovered k (evicted L st3)"
    using r by (simp_all add: stages_def)
  then show ?thesis using recon_inv_evicted by (simp add: deshred_inv_def)
qed

interpretation recon_thread: thread_body "reconstructor_body L" "thread_inv L" "\<lambda>_. ledger_ok L" for L
proof unfold_locales
  fix r e assume inv: "thread_inv L r" and L: "ledger_ok L"
  show "\<exists>v. reconstructor_body L e r = Some v \<and> thread_inv L (after v)"
  proof (cases e)
    case (PktBatch pkts)
    obtain st' n rep where res: "reconstruct_shreds L pkts (recon r) = Some (st', n, rep)"
      using stages_exist[OF L, of "recon r" pkts] inv by (auto simp: thread_inv_def stages_def)
    then have "recon_inv L st'" using reconstruct_inv[OF L _ res] inv by (simp add: thread_inv_def)
    then show ?thesis using PktBatch res reconstruct_slots_seen[OF L _ _ res] inv
      by (auto simp: thread_inv_def slots_seen_def)
  qed (use inv in auto)
qed

lemma backed_in_range:
  assumes "recon_inv L st0" "backed L st0 st ds" "in_runs ds slot i"
  shows "i < MAX_DATA_SHREDS_PER_SLOT L"
proof -
  obtain es p s e u where d: "((slot, es, p), (s, e, u)) \<in> set ds" "i \<le> e"
    using assms(3) by (force simp: in_runs_def)
  have "delivers L (\<lambda>slot. tracker_of L slot st0) (slot, es, p) (s, e, u)"
    using assms(2) d(1) by (auto simp: backed_def)
  moreover have "wf_tracker L (tracker_of L slot st0)"
    using slot_entry_ok[OF assms(1), of slot] by (simp add: slot_ok_def)
  ultimately show ?thesis using d(2) wf_tracker_lengths(1) by (fastforce simp: complete_run_def)
qed


text \<open>What one call delivers, as runs of complete data shreds of the trackers it worked on.\<close>

lemma delivered_account:
  assumes L: "ledger_ok L" and inv: "recon_inv L st"
    and r: "reconstruct_shreds L pkts st = Some (st', n, rep)"
  shows "\<exists>tr ds. deshredded_entries st' = map fst ds \<and>
     (\<forall>(d, run)\<in>set ds. delivers L tr d run) \<and> sorted_wrt apart ds \<and>
     (\<forall>slot i. in_runs ds slot i \<longrightarrow> \<not> already_deshredded (tracker_of L slot st) ! i) \<and>
     (\<forall>slot. wf_tracker L (tr slot) \<and> tracker_le L (tracker_of L slot st) (tr slot)) \<and>
     (\<forall>slot\<in>dom (map_of (all_shreds st')).
        data_shreds (tr slot) = data_shreds (tracker_of L slot st') \<and>
        data_status (tr slot) = data_status (tracker_of L slot st') \<and>
        (\<forall>i. in_runs ds slot i \<longrightarrow> already_deshredded (tracker_of L slot st') ! i))"
proof -
  obtain st1 st2 st3 k rep' where "stages L pkts st st1 st2 st3 k rep'" using stages_exist[OF L inv] by blast
  then have le: "recon_le L st st1" "recon_le L st1 st2"
    and inv2: "recon_inv L st2" and d3: "deshred_inv L st2 st3"
    and res: "reconstruct_shreds L pkts st = Some (count_recovered k (evicted L st3), k, rep')"
    by (simp_all add: stages_def)
  have st': "st' = count_recovered k (evicted L st3)" using res r by simp
  have inv3: "recon_inv L st3" and sd: "same_data L st2 st3" using d3 by (auto simp: deshred_inv_def)
  obtain ds where b: "backed L st2 st3 ds" using d3 by (auto simp: deshred_inv_def)
  note range = backed_in_range[OF inv2 b]
  have tle: "tracker_le L (tracker_of L slot st) (tracker_of L slot st2)" for slot
    using recon_le_trans[OF le] by (simp add: recon_le_def)
  have fresh: "\<not> already_deshredded (tracker_of L slot st) ! i" if "in_runs ds slot i" for slot i
    using that range[OF that] b tle[of slot] unfolding backed_def tracker_le_def by blast
  have kept: "tracker_of L slot st' = tracker_of L slot st3" if "slot \<in> dom (map_of (all_shreds st'))" for slot
    using slot_entry_evicted[OF inv3] that by (simp add: st')
  have flagged: "already_deshredded (tracker_of L slot st3) ! i" if "in_runs ds slot i" for slot i
    using that range[OF that] b by (auto simp: backed_def)
  have entries: "deshredded_entries st' = map fst ds" using b by (simp add: st' backed_def)
  have wf: "wf_tracker L (tracker_of L slot st2)" for slot
    using slot_entry_ok[OF inv2, of slot] by (simp add: slot_ok_def)
  show ?thesis
    by (intro exI[of _ "\<lambda>slot. tracker_of L slot st2"] exI[of _ ds] conjI entries)
      (use b sd kept fresh flagged wf tle in \<open>auto simp: backed_def same_data_def\<close>)
qed

section \<open>Properties\<close>

lemma ex_batch_run:
  "map_option (\<lambda>(st, n, rep). (deshredded_entries st, n, map fst (all_shreds st), slot_fec_indexes_to_iterate st))
     (reconstruct_shreds ex_ledger (map ex_packet [[0,9,0,0,0,11,12],[1,9,1,0,2,13,14]]) (initial_recon False)) =
   Some ([(9, [\<lparr>transactions = [[11],[12],[13],[14]]\<rparr>], [11,12,13,14])], 1, [9], [(9, 0)])"
  by code_simp

text \<open>C1: The reconstructor thread never panics: whatever batches arrive and whenever it stops, no
index is out of bounds and no unwrap fails; its state stays well formed and holds at most
max(\<open>MAX_PROCESSING_AGE\<close>, 51) slots.\<close>

theorem reconstructor_never_panics:
  assumes "ledger_ok L"
  shows "\<exists>r. reconstructor_thread L polls grpc = Some r \<and> recon_inv L (recon r)
     \<and> length (all_shreds (recon r)) \<le> max (MAX_PROCESSING_AGE L) 51"
  using recon_thread.loop_ok[OF thread_inv_initial, of polls L grpc] assms
  by (auto simp: reconstructor_thread_def thread_inv_def)

theorem reconstructor_never_panics_witness:
  "\<exists>r. reconstructor_thread ex_ledger
       [Event RecvTimeout, Event (PktBatch (map ex_packet [[0,9,0,0,0,11,12],[1,9,1,0,2,13,14]])), ExitSet] True = Some r
     \<and> recon_inv ex_ledger (recon r) \<and> length (all_shreds (recon r)) \<le> max (MAX_PROCESSING_AGE ex_ledger) 51"
  by (rule reconstructor_never_panics[OF ex_ledger_ok])


text \<open>C2: Every delivered item is backed by the data: its payload is what deshredding the payloads
of a run of consecutive data shreds gives, the run ends at a DATA_COMPLETE shred and starts at the
slot start, after another DATA_COMPLETE or at an unknown position; the shreds are the ones held
for the slot; its entries are the deserialization of the payload; and when the slot is retained
every index of the run is marked deshredded.\<close>

theorem delivered_entries_sound:
  assumes "ledger_ok L" "recon_inv L st" "reconstruct_shreds L pkts st = Some (st', n, rep)"
    and "(slot, es, payload) \<in> set (deshredded_entries st')"
  shows "\<exists>t s e u. wf_tracker L t \<and> tracker_le L (tracker_of L slot st) t \<and> complete_run t s e u \<and>
     deshred L (segment_payloads t s e) = Inr payload \<and> deserialize_entries L payload = Inr es \<and>
     (slot \<in> dom (map_of (all_shreds st')) \<longrightarrow>
        data_shreds t = data_shreds (tracker_of L slot st') \<and>
        (\<forall>i. s \<le> i \<and> i \<le> e \<longrightarrow> already_deshredded (tracker_of L slot st') ! i))"
proof -
  obtain tr ds where d: "deshredded_entries st' = map fst ds" "\<forall>(d, run)\<in>set ds. delivers L tr d run"
    and t: "wf_tracker L (tr slot)" "tracker_le L (tracker_of L slot st) (tr slot)"
    and k: "\<forall>slot\<in>dom (map_of (all_shreds st')).
        data_shreds (tr slot) = data_shreds (tracker_of L slot st') \<and>
        data_status (tr slot) = data_status (tracker_of L slot st') \<and>
        (\<forall>i. in_runs ds slot i \<longrightarrow> already_deshredded (tracker_of L slot st') ! i)"
    using delivered_account[OF assms(1-3)] by blast
  obtain s e u where m: "((slot, es, payload), (s, e, u)) \<in> set ds" using assms(4) d(1) by auto
  then have "in_runs ds slot i" if "s \<le> i" "i \<le> e" for i using that by (force simp: in_runs_def)
  moreover have "delivers L tr (slot, es, payload) (s, e, u)" using d(2) m by auto
  ultimately show ?thesis using t k by (intro exI[of _ "tr slot"] exI[of _ s] exI[of _ e] exI[of _ u]) simp
qed

theorem delivered_entries_sound_witness:
  "\<exists>st' n rep t s e u.
     reconstruct_shreds ex_ledger (map ex_packet [[0,9,0,0,0,11,12],[1,9,1,0,2,13,14]]) (initial_recon False)
       = Some (st', n, rep) \<and> complete_run t s e u \<and>
     deshred ex_ledger (segment_payloads t s e) = Inr [11,12,13,14]"
proof -
  obtain st' n rep where r: "reconstruct_shreds ex_ledger
      (map ex_packet [[0,9,0,0,0,11,12],[1,9,1,0,2,13,14]]) (initial_recon False) = Some (st', n, rep)"
    and d: "deshredded_entries st' = [(9, [\<lparr>transactions = [[11],[12],[13],[14]]\<rparr>], [11,12,13,14])]"
    using ex_batch_run by auto
  show ?thesis using delivered_entries_sound[OF ex_ledger_ok recon_inv_initial r, of 9 _ "[11,12,13,14]"] d r
    by fastforce
qed






lemma ex_undecodable_run:
  "map_option (\<lambda>(st, n, rep). ((9, 0) \<in> set (slot_fec_indexes_to_iterate st), map fst (all_shreds st),
       get_indexes (tracker_of ex_ledger 9 st) 0,
       deshred ex_ledger (segment_payloads (tracker_of ex_ledger 9 st) 0 0), deshredded_entries st))
     (reconstruct_shreds ex_ledger (map ex_packet [[0,9,0,0,1,0,12]]) (initial_recon False)) =
   Some (True, [9], Some (Some (0, 0, False)), Inr [0,12], [])"
  by code_simp


end
