(* ===== verification/Fec_Sets.thy ===== *)
theory Fec_Sets
  imports Reconstructor
begin

text \<open>
  The FEC sets of a slot and their recovery (\<^verbatim>\<open>proxy/src/deshred.rs\<close>): when a set is skipped, when it is
  recovered, and that afterwards the tracker stores all its data shreds.
\<close>

section \<open>FEC sets\<close>

text \<open>
  \<open>sh\<close> gives the data shreds of a slot; one FEC set has indices \<open>fec..e\<close>; an entry batch ends with the last
  one or not at all.
\<close>

definition whole_fec_set :: "ledger \<Rightarrow> (nat \<Rightarrow> shred) \<Rightarrow> u64 \<Rightarrow> u32 \<Rightarrow> nat \<Rightarrow> bool" where
  "whole_fec_set L sh slot fec e \<longleftrightarrow>
     unat fec \<le> e \<and> e < MAX_DATA_SHREDS_PER_SLOT L \<and> e - unat fec < 65535 \<and>
     (\<forall>j. unat fec \<le> j \<and> j \<le> e \<longrightarrow> is_data (sh j) \<and> shred_ok L (sh j) \<and> shred_slot (sh j) = slot \<and>
        shred_fec_set_index (sh j) = fec \<and> unat (shred_index (sh j)) = j \<and>
        (completes (sh j) \<longrightarrow> j = e))"

lemma whole_fec_setD:
  assumes "whole_fec_set L sh slot fec e" "j \<in> {unat fec..e}"
  shows "is_data (sh j)" "shred_ok L (sh j)" "shred_slot (sh j) = slot"
    "shred_fec_set_index (sh j) = fec" "unat (shred_index (sh j)) = j" "completes (sh j) \<Longrightarrow> j = e"
  using assms by (auto simp: whole_fec_set_def)

lemma whole_range: "whole_fec_set L sh slot fec e \<Longrightarrow> unat fec \<le> e \<and> e < MAX_DATA_SHREDS_PER_SLOT L"
  by (simp add: whole_fec_set_def)

lemma whole_inj: "whole_fec_set L sh slot fec e \<Longrightarrow> inj_on sh {unat fec..e}"
  by (rule inj_onI) (drule arg_cong[of _ _ "\<lambda>s. unat (shred_index s)"], simp add: whole_fec_setD(5))

text \<open>A set with its coding shreds, which announce its size and differ pairwise.\<close>

definition coded_fec_set :: "ledger \<Rightarrow> (nat \<Rightarrow> shred) \<Rightarrow> shred set \<Rightarrow> u64 \<Rightarrow> u32 \<Rightarrow> nat \<Rightarrow> u16 \<Rightarrow> bool" where
  "coded_fec_set L sh codes slot fec e m \<longleftrightarrow> whole_fec_set L sh slot fec e \<and>
     (\<forall>x\<in>codes. \<not> is_data x \<and> shred_ok L x \<and> shred_slot x = slot \<and> shred_fec_set_index x = fec) \<and>
     (\<forall>c. ShredCode c \<in> codes \<longrightarrow> num_data_shreds (sc_coding_header c) = of_nat (Suc (e - unat fec)) \<and>
        num_coding_shreds (sc_coding_header c) = m) \<and>
     (\<forall>x\<in>codes. \<forall>y\<in>codes. comparable_eq L x y = Some True \<longrightarrow> x = y)"

lemma comparable_common:
  assumes "shred_ok L x" "shred_ok L y" "comparable_eq L x y = Some True"
  shows "is_data x = is_data y" "common_header x = common_header y"
  using shred_key.eq_hash[OF assms] by (cases x; cases y; auto)+

definition of_fec :: "shred set \<Rightarrow> u32 \<Rightarrow> shred set" where
  "of_fec X fec = {x \<in> X. shred_fec_set_index x = fec}"

lemma of_fec_subset: "of_fec X fec \<subseteq> X"
  by (auto simp: of_fec_def)

lemma or_default_update [simp]:
  "or_default d k (AList.update k' v m) = (if k = k' then v else or_default d k m)"
  by (simp add: or_default_def)

text \<open>
  The FEC sets of a slot, with their last indices, their coding shreds and how many of these there are. The
  sets are grouped into entry batches: \<open>fl_first\<close> is the first set of the batch that a set belongs to, and
  \<open>fl_stop\<close> of that set the last index of the batch, which is the only index that ends an entry batch.
\<close>

record fec_layout =
  fl_sets :: "u32 set"
  fl_end :: "u32 \<Rightarrow> nat"
  fl_codes :: "u32 \<Rightarrow> shred set"
  fl_num_codes :: "u32 \<Rightarrow> u16"
  fl_first :: "u32 \<Rightarrow> u32"
  fl_stop :: "u32 \<Rightarrow> nat"

abbreviation indices :: "fec_layout \<Rightarrow> u32 \<Rightarrow> nat set" where
  "indices Y f \<equiv> {unat f..fl_end Y f}"

abbreviation batch_range :: "fec_layout \<Rightarrow> u32 \<Rightarrow> nat set" where
  "batch_range Y b \<equiv> {unat b..fl_stop Y b}"

definition batch_sets :: "fec_layout \<Rightarrow> u32 \<Rightarrow> u32 set" where
  "batch_sets Y b = {f \<in> fl_sets Y. fl_first Y f = b}"

definition entry_batches :: "fec_layout \<Rightarrow> u32 set" where
  "entry_batches Y = fl_first Y ` fl_sets Y"

definition batch_ok :: "(nat \<Rightarrow> shred) \<Rightarrow> fec_layout \<Rightarrow> u32 \<Rightarrow> bool" where
  "batch_ok sh Y f \<longleftrightarrow> fl_first Y f \<in> fl_sets Y \<and> fl_first Y (fl_first Y f) = fl_first Y f \<and>
     batch_range Y (fl_first Y f) = (\<Union>g\<in>batch_sets Y (fl_first Y f). indices Y g) \<and>
     (\<forall>j\<in>indices Y f. completes (sh j) \<longleftrightarrow> j = fl_stop Y (fl_first Y f))"

definition layout_ok :: "ledger \<Rightarrow> (nat \<Rightarrow> shred) \<Rightarrow> u64 \<Rightarrow> fec_layout \<Rightarrow> bool" where
  "layout_ok L sh slot Y \<longleftrightarrow> finite (fl_sets Y) \<and>
     (\<forall>f\<in>fl_sets Y. coded_fec_set L sh (fl_codes Y f) slot f (fl_end Y f) (fl_num_codes Y f)) \<and>
     (\<forall>f\<in>fl_sets Y. \<forall>g\<in>fl_sets Y. f \<noteq> g \<longrightarrow> indices Y f \<inter> indices Y g = {}) \<and>
     (\<forall>f\<in>fl_sets Y. batch_ok sh Y f)"

definition set_shreds :: "(nat \<Rightarrow> shred) \<Rightarrow> fec_layout \<Rightarrow> u32 \<Rightarrow> shred set" where
  "set_shreds sh Y f = sh ` indices Y f \<union> fl_codes Y f"

definition layout_shreds :: "(nat \<Rightarrow> shred) \<Rightarrow> fec_layout \<Rightarrow> shred set" where
  "layout_shreds sh Y = (\<Union>f\<in>fl_sets Y. set_shreds sh Y f)"

lemma layout_okD:
  assumes "layout_ok L sh slot Y" "f \<in> fl_sets Y"
  shows "coded_fec_set L sh (fl_codes Y f) slot f (fl_end Y f) (fl_num_codes Y f)"
    "whole_fec_set L sh slot f (fl_end Y f)"
    "g \<in> fl_sets Y \<Longrightarrow> j \<in> indices Y f \<Longrightarrow> j \<in> indices Y g \<Longrightarrow> g = f" "batch_ok sh Y f"
proof -
  show "batch_ok sh Y f" using assms by (simp add: layout_ok_def)
  show c: "coded_fec_set L sh (fl_codes Y f) slot f (fl_end Y f) (fl_num_codes Y f)"
    using assms by (simp add: layout_ok_def)
  then show "whole_fec_set L sh slot f (fl_end Y f)" by (simp add: coded_fec_set_def)
  show "g \<in> fl_sets Y \<Longrightarrow> j \<in> indices Y f \<Longrightarrow> j \<in> indices Y g \<Longrightarrow> g = f"
    using assms unfolding layout_ok_def by blast
qed

lemma set_shreds_common:
  assumes "layout_ok L sh slot Y" "f \<in> fl_sets Y" "x \<in> set_shreds sh Y f"
  shows "shred_ok L x" "shred_slot x = slot" "shred_fec_set_index x = f"
proof -
  note c = layout_okD[OF assms(1,2)]
  show "shred_ok L x" "shred_slot x = slot" "shred_fec_set_index x = f"
    using assms(3) c(1) whole_fec_setD(2-4)[OF c(2)] by (auto simp: set_shreds_def coded_fec_set_def)
qed

lemma of_fec_layout:
  assumes "layout_ok L sh slot Y" "f \<in> fl_sets Y"
  shows "of_fec (layout_shreds sh Y) f = set_shreds sh Y f"
  using assms set_shreds_common(3)[OF assms(1)] by (auto simp: of_fec_def layout_shreds_def)

lemma layout_index:
  assumes "layout_ok L sh slot Y" "f \<in> fl_sets Y" "j \<in> indices Y f"
  shows "j < MAX_DATA_SHREDS_PER_SLOT L" "is_data (sh j)" "unat (shred_index (sh j)) = j"
  using whole_fec_setD[OF layout_okD(2)[OF assms(1,2)] assms(3)] whole_range[OF layout_okD(2)[OF assms(1,2)]] assms(3)
  by auto

text \<open>The entry batches are disjoint intervals, each a union of sets.\<close>

lemma layout_batch:
  assumes ok: "layout_ok L sh slot Y" and f: "f \<in> fl_sets Y"
  shows "fl_first Y f \<in> batch_sets Y (fl_first Y f)" "fl_first Y f \<in> entry_batches Y" "f \<in> batch_sets Y (fl_first Y f)"
    "indices Y f \<subseteq> batch_range Y (fl_first Y f)" "unat (fl_first Y f) \<le> unat f" "fl_end Y f \<le> fl_stop Y (fl_first Y f)"
    "j \<in> indices Y f \<Longrightarrow> completes (sh j) \<longleftrightarrow> j = fl_stop Y (fl_first Y f)"
proof -
  have b: "batch_ok sh Y f" by (rule layout_okD(4)[OF ok f])
  show "fl_first Y f \<in> batch_sets Y (fl_first Y f)" "fl_first Y f \<in> entry_batches Y" "f \<in> batch_sets Y (fl_first Y f)"
    using b f by (auto simp: batch_ok_def batch_sets_def entry_batches_def)
  then show sub: "indices Y f \<subseteq> batch_range Y (fl_first Y f)" using b unfolding batch_ok_def by blast
  have "unat f \<le> fl_end Y f" using whole_range[OF layout_okD(2)[OF ok f]] by blast
  then show "unat (fl_first Y f) \<le> unat f" "fl_end Y f \<le> fl_stop Y (fl_first Y f)" using sub by auto
  show "j \<in> indices Y f \<Longrightarrow> completes (sh j) \<longleftrightarrow> j = fl_stop Y (fl_first Y f)" using b by (simp add: batch_ok_def)
qed

lemma batch_member:
  assumes ok: "layout_ok L sh slot Y" and b: "b \<in> entry_batches Y" and j: "j \<in> batch_range Y b"
  obtains g where "g \<in> batch_sets Y b" "g \<in> fl_sets Y" "fl_first Y g = b" "j \<in> indices Y g"
proof -
  obtain f where f: "f \<in> fl_sets Y" "b = fl_first Y f" using b by (auto simp: entry_batches_def)
  have "batch_range Y b = (\<Union>g\<in>batch_sets Y b. indices Y g)" using layout_okD(4)[OF ok f(1)] f(2) by (simp add: batch_ok_def)
  then obtain g where "g \<in> batch_sets Y b" "j \<in> indices Y g" using j by blast
  then show ?thesis using that by (auto simp: batch_sets_def)
qed

lemma batches_apart:
  assumes ok: "layout_ok L sh slot Y" and b: "b \<in> entry_batches Y" "c \<in> entry_batches Y"
    and j: "j \<in> batch_range Y b" "j \<in> batch_range Y c"
  shows "b = c"
proof -
  obtain g where g: "g \<in> fl_sets Y" "fl_first Y g = b" "j \<in> indices Y g" by (rule batch_member[OF ok b(1) j(1)])
  obtain h where h: "h \<in> fl_sets Y" "fl_first Y h = c" "j \<in> indices Y h" by (rule batch_member[OF ok b(2) j(2)])
  show ?thesis using layout_okD(3)[OF ok g(1) h(1) g(3) h(3)] g(2) h(2) by simp
qed

lemma first_mono:
  assumes ok: "layout_ok L sh slot Y" and f: "f \<in> fl_sets Y" "g \<in> fl_sets Y" "f \<le> g"
  shows "fl_first Y f \<le> fl_first Y g"
proof (rule ccontr)
  assume "\<not> ?thesis"
  then have lt: "unat (fl_first Y g) < unat (fl_first Y f)" by (simp add: word_le_nat_alt)
  note bf = layout_batch[OF ok f(1)] and bg = layout_batch[OF ok f(2)]
  have "unat (fl_first Y f) \<in> batch_range Y (fl_first Y f)" "unat (fl_first Y f) \<in> batch_range Y (fl_first Y g)"
    using lt bf(5,6) bg(5,6) f(3) whole_range[OF layout_okD(2)[OF ok f(1)]] whole_range[OF layout_okD(2)[OF ok f(2)]]
    by (auto simp: word_le_nat_alt)
  from batches_apart[OF ok bf(2) bg(2) this] lt show False by simp
qed

text \<open>The equality of the hash sets tells the shreds of a layout apart.\<close>

lemma layout_comparable:
  assumes ok: "layout_ok L sh slot Y" and xy: "x \<in> layout_shreds sh Y" "y \<in> layout_shreds sh Y" "comparable_eq L x y = Some True"
  shows "x = y"
proof -
  obtain f where f: "f \<in> fl_sets Y" "x \<in> set_shreds sh Y f" using xy(1) by (auto simp: layout_shreds_def)
  obtain g where g: "g \<in> fl_sets Y" "y \<in> set_shreds sh Y g" using xy(2) by (auto simp: layout_shreds_def)
  note fx = set_shreds_common[OF ok f] and gy = set_shreds_common[OF ok g]
  note same = comparable_common[OF fx(1) gy(1) xy(3)]
  have "f = g" using fx(3) gy(3) same(2) by simp
  note c = layout_okD[OF ok f(1)]
  show "x = y"
  proof (cases "is_data x")
    case True
    then have "x \<in> sh ` indices Y f" "y \<in> sh ` indices Y f"
      using f(2) g(2) c(1) same(1) \<open>f = g\<close> by (auto simp: set_shreds_def coded_fec_set_def)
    then show ?thesis using same(2) whole_fec_setD(5)[OF c(2)] by (metis (no_types, lifting) imageE)
  next
    case False
    then have "x \<in> fl_codes Y f" "y \<in> fl_codes Y f"
      using f(2) g(2) same(1) \<open>f = g\<close> whole_fec_setD(1)[OF c(2)] by (auto simp: set_shreds_def)
    then show ?thesis using c(1) xy(3) by (simp add: coded_fec_set_def)
  qed
qed

section \<open>Counting\<close>

lemma whole_expected:
  assumes w: "whole_fec_set L sh slot fec e"
  shows "expected_from (sh e) = of_nat (Suc (e - unat fec))" "of_nat (Suc (e - unat fec)) \<noteq> (0 :: u16)"
proof -
  have e: "unat fec \<le> e" "e - unat fec < 65535" using w by (auto simp: whole_fec_set_def)
  have s: "shred_fec_set_index (sh e) = fec" "unat (shred_index (sh e)) = e"
    using whole_fec_setD(4,5)[OF w, of e] e by auto
  have "fec \<le> shred_index (sh e)" using e s by (simp add: word_le_nat_alt)
  then have "unat (shred_index (sh e) - fec) = e - unat fec" using s by (simp add: unat_sub)
  then have "shred_index (sh e) - fec = of_nat (e - unat fec)"
    by (metis of_nat_unat ucast_id)
  moreover have "e - unat fec < 2 ^ 32" using e by simp
  ultimately have "ucast (shred_index (sh e) - fec) = (of_nat (e - unat fec) :: u16)"
    by (simp add: unsigned_of_nat take_bit_nat_eq_self)
  then show "expected_from (sh e) = of_nat (Suc (e - unat fec))" using s by simp
  have "unat (of_nat (Suc (e - unat fec)) :: u16) = Suc (e - unat fec)"
    using e by (simp add: unsigned_of_nat take_bit_nat_eq_self del: of_nat_Suc)
  then show "of_nat (Suc (e - unat fec)) \<noteq> (0 :: u16)" by (metis nat.distinct(1) unsigned_0)
qed

lemma whole_announce:
  assumes "whole_fec_set L sh slot fec e" "set xs \<subseteq> sh ` {unat fec..e}"
  shows "completes_announce (of_nat (Suc (e - unat fec))) xs"
  unfolding completes_announce_def
proof (intro ballI impI)
  fix s assume s: "s \<in> set xs" "completes s"
  then obtain j where "j \<in> {unat fec..e}" "s = sh j" using assms(2) by blast
  then have "s = sh e" using whole_fec_setD(6)[OF assms(1)] s(2) by blast
  then show "expected_from s = of_nat (Suc (e - unat fec))" using whole_expected(1)[OF assms(1)] by simp
qed

text \<open>A set of which all data shreds arrived is skipped, with or without coding shreds.\<close>

lemma coded_info:
  assumes L: "ledger_ok L" and c: "coded_fec_set L sh codes slot fec e m"
    and xs: "set xs \<subseteq> sh ` {unat fec..e} \<union> codes" "set xs \<inter> codes \<noteq> {}"
  shows "get_data_shred_info L xs = (of_nat (Suc (e - unat fec)), m,
     of_nat (length (filter is_data xs)), of_nat (length (filter (Not \<circ> is_data) xs)))"
proof -
  have w: "whole_fec_set L sh slot fec e" using c by (simp add: coded_fec_set_def)
  have "codes_announce (of_nat (Suc (e - unat fec))) m xs"
    unfolding codes_announce_def
  proof (intro allI impI)
    fix c' assume "ShredCode c' \<in> set xs"
    moreover have "ShredCode c' \<notin> sh ` {unat fec..e}"
      using whole_fec_setD(1)[OF w] by (metis imageE is_data.simps(2))
    ultimately have "ShredCode c' \<in> codes" using xs(1) by blast
    then show "num_data_shreds (sc_coding_header c') = of_nat (Suc (e - unat fec)) \<and> num_coding_shreds (sc_coding_header c') = m"
      using c unfolding coded_fec_set_def by blast
  qed
  moreover have "\<exists>s\<in>set xs. \<not> is_data s" using xs(2) c by (auto simp: coded_fec_set_def)
  ultimately show ?thesis using get_data_shred_info_coded[OF L _ whole_expected(2)[OF w]] by blast
qed

lemma data_of_set:
  assumes c: "coded_fec_set L sh codes slot fec e m" and xs: "set xs \<subseteq> sh ` {unat fec..e} \<union> codes" "distinct xs"
  shows "length (filter is_data xs) = card {j \<in> {unat fec..e}. sh j \<in> set xs}"
proof -
  have w: "whole_fec_set L sh slot fec e" using c by (simp add: coded_fec_set_def)
  let ?J = "{j \<in> {unat fec..e}. sh j \<in> set xs}"
  have "set (filter is_data xs) = sh ` ?J"
    using xs(1) c whole_fec_setD(1)[OF w] by (auto simp: coded_fec_set_def)
  moreover have "inj_on sh ?J" using whole_inj[OF w] by (rule inj_on_subset) auto
  ultimately show ?thesis using distinct_card[OF distinct_filter[OF xs(2)], of is_data] card_image[of sh ?J] by simp
qed

text \<open>A set of which too few shreds arrived is skipped as well.\<close>

lemma not_enough_skipped:
  assumes L: "ledger_ok L" and c: "coded_fec_set L sh codes slot fec e m"
    and xs: "set xs \<subseteq> sh ` {unat fec..e} \<union> codes" "length xs < Suc e - unat fec"
  shows "skip_recovery L xs"
proof -
  have w: "whole_fec_set L sh slot fec e" using c by (simp add: coded_fec_set_def)
  have e: "unat fec \<le> e" "e - unat fec < 65535" using w by (auto simp: whole_fec_set_def)
  have un: "unat (of_nat (Suc (e - unat fec)) :: u16) = Suc (e - unat fec)"
    using e by (simp add: unsigned_of_nat take_bit_nat_eq_self del: of_nat_Suc)
  have len: "length xs < Suc (e - unat fec)" using xs(2) e by (simp add: Suc_diff_le)
  show ?thesis
  proof (cases "set xs \<inter> codes = {}")
    case False
    then show ?thesis using coded_info[OF L c xs(1)] un len by (simp add: skip_recovery_def del: of_nat_Suc)
  next
    case True
    then have data: "\<forall>s\<in>set xs. is_data s" "set xs \<subseteq> sh ` {unat fec..e}" using xs(1) whole_fec_setD(1)[OF w] by auto
    then have "completes_announce (of_nat (Suc (e - unat fec))) xs" using whole_announce[OF w] by simp
    then show ?thesis using get_data_shred_info_uncoded[OF L data(1) _ whole_expected(2)[OF w]] un len
      by (auto simp: skip_recovery_def simp del: of_nat_Suc)
  qed
qed

lemma full_set_skipped:
  assumes L: "ledger_ok L" and c: "coded_fec_set L sh codes slot fec e m"
    and xs: "set xs \<subseteq> sh ` {unat fec..e} \<union> codes" "distinct xs" "sh ` {unat fec..e} \<subseteq> set xs"
  shows "skip_recovery L xs"
proof -
  have w: "whole_fec_set L sh slot fec e" using c by (simp add: coded_fec_set_def)
  have e: "unat fec \<le> e" using whole_range[OF w] by blast
  have J: "{j \<in> {unat fec..e}. sh j \<in> set xs} = {unat fec..e}" using xs(3) by auto
  have n: "length (filter is_data xs) = Suc (e - unat fec)"
    using data_of_set[OF c xs(1,2)] e unfolding J by (simp add: Suc_diff_le)
  show ?thesis
  proof (cases "set xs \<inter> codes = {}")
    case False
    then show ?thesis using coded_info[OF L c xs(1)] n by (simp add: skip_recovery_def)
  next
    case True
    then have data: "\<forall>s\<in>set xs. is_data s" "set xs = sh ` {unat fec..e}"
      using xs(1,3) whole_fec_setD(1)[OF w] by auto
    moreover have "completes_announce (of_nat (Suc (e - unat fec))) xs"
      using whole_announce[OF w] data(2) by simp
    moreover have "length xs = Suc (e - unat fec)" using n data(1) by (simp add: filter_id_conv)
    ultimately show ?thesis using get_data_shred_info_uncoded[OF L _ _ whole_expected(2)[OF w]]
      by (simp add: skip_recovery_def)
  qed
qed

section \<open>Erasure coding\<close>

text \<open>
  Documented behaviour of Reed-Solomon recovery on one set: from different shreds of the set, a coding
  shred among them and as many as the set has data shreds, it returns the missing data shreds, and no
  data shred that is not of the set.
\<close>

definition erasure_ok :: "ledger \<Rightarrow> (nat \<Rightarrow> shred) \<Rightarrow> shred set \<Rightarrow> u32 \<Rightarrow> nat \<Rightarrow> bool" where
  "erasure_ok L sh codes fec e \<longleftrightarrow>
     (\<forall>xs. distinct xs \<and> set xs \<subseteq> sh ` {unat fec..e} \<union> codes \<and> Suc e - unat fec \<le> length xs \<and> set xs \<inter> codes \<noteq> {} \<longrightarrow>
        (\<exists>rs. recover L xs = Inr rs \<and>
           (\<forall>j\<in>{unat fec..e}. sh j \<notin> set xs \<longrightarrow> Inr (sh j) \<in> set rs) \<and>
           (\<forall>s. Inr s \<in> set rs \<longrightarrow> is_data s \<longrightarrow> s \<in> sh ` {unat fec..e})))"

lemma mset_merkle_shreds: "ledger_ok L \<Longrightarrow> mset (merkle_shreds L xs) = mset xs"
  by (simp add: merkle_shreds_def mset_set_order)

text \<open>With a data shred missing, enough shreds of the set contain a coding shred.\<close>

lemma enough_has_code:
  assumes w: "whole_fec_set L sh slot fec e" and xs: "X \<subseteq> sh ` {unat fec..e} \<union> codes"
    and n: "Suc e - unat fec \<le> card X" and j: "j \<in> {unat fec..e}" "sh j \<notin> X"
  shows "X \<inter> codes \<noteq> {}"
proof
  assume "X \<inter> codes = {}"
  then have "X \<subseteq> sh ` ({unat fec..e} - {j})" using xs j(2) by blast
  then have "card X \<le> card ({unat fec..e} - {j})"
    by (meson card_image_le card_mono finite_Diff finite_atLeastAtMost finite_imageI le_trans)
  also have "\<dots> < Suc e - unat fec" using j(1) by (simp add: card_Diff_singleton) linarith
  finally show False using n by simp
qed

lemma coded_needs_recovery:
  assumes L: "ledger_ok L" and c: "coded_fec_set L sh codes slot fec e m"
    and xs: "set xs \<subseteq> sh ` {unat fec..e} \<union> codes" "distinct xs" "Suc e - unat fec \<le> length xs"
    and j: "j \<in> {unat fec..e}" "sh j \<notin> set xs"
  shows "\<not> skip_recovery L xs"
proof -
  have w: "whole_fec_set L sh slot fec e" using c by (simp add: coded_fec_set_def)
  let ?n = "Suc (e - unat fec)"
  have "Suc e - unat fec \<le> card (set xs)" using xs(2,3) by (simp add: distinct_card)
  note info = coded_info[OF L c xs(1) enough_has_code[OF w xs(1) this j]]
  have e: "unat fec \<le> e" "e - unat fec < 65535" using w by (auto simp: whole_fec_set_def)
  have "{i \<in> {unat fec..e}. sh i \<in> set xs} \<subseteq> {unat fec..e} - {j}" using j(2) by blast
  then have "card {i \<in> {unat fec..e}. sh i \<in> set xs} \<le> card ({unat fec..e} - {j})" by (rule card_mono[rotated]) simp
  then have d: "length (filter is_data xs) < ?n"
    unfolding data_of_set[OF c xs(1,2)] using j(1) e by (simp add: card_Diff_singleton)
  have un: "unat (of_nat ?n :: u16) = ?n"
    using e by (simp add: unsigned_of_nat take_bit_nat_eq_self del: of_nat_Suc)
  have "(of_nat (length (filter is_data xs)) :: u16) \<noteq> of_nat ?n"
  proof
    assume eq: "(of_nat (length (filter is_data xs)) :: u16) = of_nat ?n"
    have "unat (of_nat (length (filter is_data xs)) :: u16) = length (filter is_data xs)"
      using d e by (simp add: unsigned_of_nat take_bit_nat_eq_self del: of_nat_Suc)
    then show False using un eq d by simp
  qed
  then show ?thesis using info un whole_expected(2)[OF w] xs(3) e
    by (simp add: skip_recovery_def Suc_diff_le del: of_nat_Suc)
qed

section \<open>What a tracker stores\<close>

text \<open>A tracker that stores the data shreds with indices in \<open>A\<close>, and has delivered those with indices in \<open>B\<close>.\<close>

definition stores_indices :: "ledger \<Rightarrow> (nat \<Rightarrow> shred) \<Rightarrow> nat set \<Rightarrow> nat set \<Rightarrow> ShredsStateTracker \<Rightarrow> bool" where
  "stores_indices L sh A B t \<longleftrightarrow> wf_tracker L t \<and> (\<forall>j < MAX_DATA_SHREDS_PER_SLOT L.
     data_shreds t ! j = (if j \<in> A then Some (sh j) else None) \<and> (already_deshredded t ! j \<longleftrightarrow> j \<in> B))"

section \<open>Applying what was recovered\<close>

definition unrecovered :: "u32 \<Rightarrow> ShredsStateTracker \<Rightarrow> bool" where
  "unrecovered fec t \<longleftrightarrow> \<not> already_recovered_fec_sets t ! unat fec"

lemma stores_indices_store:
  assumes w: "whole_fec_set L sh slot fec e" and t: "stores_indices L sh A B t" and j: "j \<in> {unat fec..e}"
  shows "stores_indices L sh (insert j A) B (store_shred (sh j) t)"
proof -
  note s = whole_fec_setD[OF w j]
  have wf: "wf_tracker L t" using t by (simp add: stores_indices_def)
  have "data_shreds (store_shred (sh j) t) ! i = (if i \<in> insert j A then Some (sh i) else None)"
    if "i < MAX_DATA_SHREDS_PER_SLOT L" for i
    using that t s(5) wf_tracker_lengths(2)[OF wf] by (cases "i = j") (simp_all add: store_shred_def stores_indices_def)
  then show ?thesis using t wf_store_shred[OF wf s(2,1)]
    by (simp add: stores_indices_def) (simp add: store_shred_def)
qed

lemma stores_indices_flags:
  assumes "stores_indices L sh A B t" "length fs = MAX_DATA_SHREDS_PER_SLOT L"
  shows "stores_indices L sh A B (t\<lparr>already_recovered_fec_sets := fs\<rparr>)"
proof -
  have "wf_tracker L t" using assms(1) by (simp add: stores_indices_def)
  then have "wf_tracker L (t\<lparr>already_recovered_fec_sets := fs\<rparr>)" using assms(2) by (simp add: wf_tracker_def)
  then show ?thesis using assms by (simp add: stores_indices_def)
qed

text \<open>Data shreds among the recovered ones are stored; every new one is counted.\<close>

lemma apply_recovered_one:
  assumes L: "ledger_ok L" and w: "whole_fec_set L sh slot fec e"
    and t: "stores_indices L sh A B t" "unrecovered fec t"
    and s: "shred_ok L s" "shred_fec_set_index s = fec" "is_data s \<longrightarrow> s \<in> sh ` {unat fec..e}"
  shows "\<exists>t' k. apply_recovered L (Inr s) (t, n) = Some (t', n + k) \<and>
     already_recovered_fec_sets t' = already_recovered_fec_sets t \<and>
     stores_indices L sh (A \<union> {j \<in> {unat fec..e}. sh j = s}) B t' \<and> ({j \<in> {unat fec..e}. sh j = s} \<subseteq> A \<or> 0 < k)"
proof -
  let ?new = "{j \<in> {unat fec..e}. sh j = s}"
  have wf: "wf_tracker L t" using t(1) by (simp add: stores_indices_def)
  note step = apply_recovered_eq[OF L wf s(1), of n]
  show ?thesis
  proof (cases "is_data s")
    case False
    then have none: "?new = {}" using whole_fec_setD(1)[OF w] by auto
    have "\<not> seen_before s t" using False t(2) s(2) by (simp add: seen_before_def unrecovered_def)
    then show ?thesis unfolding none using step False t(1) by (intro exI[of _ t] exI[of _ 1]) simp
  next
    case True
    then obtain j where j: "j \<in> {unat fec..e}" "s = sh j" using s(3) by blast
    then have new: "?new = {j}" using whole_inj[OF w] by (auto simp: inj_on_def)
    have jm: "j < MAX_DATA_SHREDS_PER_SLOT L" using j(1) whole_range[OF w] by simp
    have seen: "seen_before s t \<longleftrightarrow> j \<in> A"
      using t s(2) True j jm whole_fec_setD(5)[OF w j(1)]
      by (simp add: seen_before_def unrecovered_def stores_indices_def)
    show ?thesis
    proof (cases "j \<in> A")
      case True
      then show ?thesis unfolding new using step seen t(1) by (intro exI[of _ t] exI[of _ 0]) (simp add: insert_absorb)
    next
      case False
      then show ?thesis unfolding new using step seen True j stores_indices_store[OF w t(1) j(1)]
        by (intro exI[of _ "store_shred s t"] exI[of _ 1]) (simp, simp add: store_shred_def)
    qed
  qed
qed

lemma apply_recovered_stores:
  assumes L: "ledger_ok L" and w: "whole_fec_set L sh slot fec e"
    and t: "stores_indices L sh A B t" "unrecovered fec t"
    and rs: "\<forall>s. Inr s \<in> set rs \<longrightarrow> shred_ok L s \<and> shred_fec_set_index s = fec \<and> (is_data s \<longrightarrow> s \<in> sh ` {unat fec..e})"
  shows "\<exists>t' k. foldM (apply_recovered L) rs (t, n) = Some (t', n + k) \<and>
     already_recovered_fec_sets t' = already_recovered_fec_sets t \<and>
     stores_indices L sh (A \<union> {j \<in> {unat fec..e}. Inr (sh j) \<in> set rs}) B t' \<and>
     ({j \<in> {unat fec..e}. Inr (sh j) \<in> set rs} \<subseteq> A \<or> 0 < k)"
  using t rs
proof (induction rs arbitrary: t A n)
  case Nil
  then show ?case by (intro exI[of _ t] exI[of _ 0]) simp
next
  case (Cons r rs)
  let ?new = "{j \<in> {unat fec..e}. Inr (sh j) = r}" and ?rest = "{j \<in> {unat fec..e}. Inr (sh j) \<in> set rs}"
  have split: "{j \<in> {unat fec..e}. Inr (sh j) \<in> set (r # rs)} = ?new \<union> ?rest" by auto
  have "\<exists>t1 k1. apply_recovered L r (t, n) = Some (t1, n + k1) \<and>
     already_recovered_fec_sets t1 = already_recovered_fec_sets t \<and>
     stores_indices L sh (A \<union> ?new) B t1 \<and> (?new \<subseteq> A \<or> 0 < k1)"
  proof (cases r)
    case (Inl err)
    then show ?thesis using Cons.prems(1) by (intro exI[of _ t] exI[of _ 0]) simp
  next
    case (Inr s)
    then show ?thesis using apply_recovered_one[OF L w Cons.prems(1,2), of s n] Cons.prems(3) by simp
  qed
  then obtain t1 k1 where t1: "apply_recovered L r (t, n) = Some (t1, n + k1)"
     "already_recovered_fec_sets t1 = already_recovered_fec_sets t"
     "stores_indices L sh (A \<union> ?new) B t1" "?new \<subseteq> A \<or> 0 < k1" by blast
  have "unrecovered fec t1" using Cons.prems(2) t1(2) by (simp add: unrecovered_def)
  then obtain t2 k2 where "foldM (apply_recovered L) rs (t1, n + k1) = Some (t2, n + k1 + k2)"
     "already_recovered_fec_sets t2 = already_recovered_fec_sets t1"
     "stores_indices L sh (A \<union> ?new \<union> ?rest) B t2" "?rest \<subseteq> A \<union> ?new \<or> 0 < k2"
    using Cons.IH[OF t1(3), of "n + k1"] Cons.prems(3) by auto
  then show ?case unfolding split using t1
    by (intro exI[of _ t2] exI[of _ "k1 + k2"]) (auto simp: Un_assoc add.assoc)
qed

section \<open>One iteration of the recovery loop\<close>

text \<open>What the iteration for one FEC set leaves alone: the other sets and their flags.\<close>

definition only_set :: "u32 \<Rightarrow> slot_state \<Rightarrow> slot_state \<Rightarrow> bool" where
  "only_set fec v v' \<longleftrightarrow> (\<forall>g. g \<noteq> fec \<longrightarrow> or_default [] g (fst v') = or_default [] g (fst v) \<and>
     unrecovered g (snd v') = unrecovered g (snd v))"

lemma unrecovered_other:
  "g \<noteq> fec \<Longrightarrow> unrecovered g (t\<lparr>already_recovered_fec_sets := fs[unat fec := b]\<rparr>) =
     unrecovered g (t\<lparr>already_recovered_fec_sets := fs\<rparr>)"
  by (simp add: unrecovered_def word_unat_eq_iff nth_list_update_neq)

lemma recover_lost:
  assumes L: "ledger_ok L" and c: "coded_fec_set L sh codes slot fec e m" and er: "erasure_ok L sh codes fec e"
    and inv: "recon_inv L st" and v: "slot_entry L slot st = (fecs, t)"
    and t: "stores_indices L sh A B t" "unrecovered fec t" and A: "A \<inter> {unat fec..e} = {j \<in> {unat fec..e}. sh j \<in> X}"
    and xs: "set (or_default [] fec fecs) = X" "distinct (or_default [] fec fecs)"
    and X: "X \<subseteq> sh ` {unat fec..e} \<union> codes" "Suc e - unat fec \<le> card X" and j: "j \<in> {unat fec..e}" "sh j \<notin> X"
  shows "\<exists>st2 k. recover_fec L (slot, fec) (st, n) = Some (st2, n + k) \<and> 0 < k \<and>
     stores_indices L sh (A \<union> {unat fec..e}) B (tracker_of L slot st2) \<and> \<not> unrecovered fec (tracker_of L slot st2) \<and>
     only_set fec (fecs, t) (slot_entry L slot st2)"
proof -
  have w: "whole_fec_set L sh slot fec e" using c by (simp add: coded_fec_set_def)
  let ?xs = "or_default [] fec fecs" and ?I = "{unat fec..e}"
  let ?ms = "merkle_shreds L ?xs"
  have ok: "slot_ok L slot (fecs, t)" using slot_entry_ok[OF inv, of slot] v by simp
  have fecb: "unat fec < MAX_DATA_SHREDS_PER_SLOT L" using whole_range[OF w] by simp
  have len: "Suc e - unat fec \<le> length ?xs" using X(2) xs by (simp add: distinct_card[symmetric])
  have ne: "\<not> skip_recovery L ?xs" using coded_needs_recovery[OF L c _ xs(2) len j(1)] X(1) xs(1) j(2) by simp
  have ms: "set ?ms = X" "distinct ?ms" "Suc e - unat fec \<le> length ?ms"
    using xs len set_merkle_shreds[OF L] mset_eq_imp_distinct_iff[OF mset_merkle_shreds[OF L]]
      mset_eq_length[OF mset_merkle_shreds[OF L]] by auto
  obtain rs where rs: "recover L ?ms = Inr rs" "\<forall>i\<in>?I. sh i \<notin> X \<longrightarrow> Inr (sh i) \<in> set rs"
      "\<forall>s. Inr s \<in> set rs \<longrightarrow> is_data s \<longrightarrow> s \<in> sh ` ?I"
    using er[unfolded erasure_ok_def, rule_format, of ?ms] ms X(1) enough_has_code[OF w X j] by auto
  have good: "\<forall>s. Inr s \<in> set rs \<longrightarrow> shred_ok L s \<and> shred_fec_set_index s = fec \<and> (is_data s \<longrightarrow> s \<in> sh ` ?I)"
    using recovered_of_slot(1,3)[OF L fec_entry_ok[OF ok fecb] ne rs(1)] rs(3) by blast
  let ?N = "{i \<in> ?I. Inr (sh i) \<in> set rs}"
  obtain t' k where t': "foldM (apply_recovered L) rs (t, 0) = Some (t', k)" "stores_indices L sh (A \<union> ?N) B t'"
    "already_recovered_fec_sets t' = already_recovered_fec_sets t" "?N \<subseteq> A \<or> 0 < k"
    using apply_recovered_stores[OF L w t good, of 0] by auto
  have all: "A \<union> ?N = A \<union> ?I" using rs(2) A by auto
  have k: "0 < k" using t'(4) rs(2) j A by blast
  have lt: "length (already_recovered_fec_sets t') = MAX_DATA_SHREDS_PER_SLOT L"
    using t'(2) wf_tracker_lengths(3) by (auto simp: stores_indices_def)
  let ?t2 = "t'\<lparr>already_recovered_fec_sets := (already_recovered_fec_sets t')[unat fec := True]\<rparr>"
  have "stores_indices L sh (A \<union> ?I) B ?t2" using stores_indices_flags t'(2) lt unfolding all by simp
  moreover have "\<not> unrecovered fec ?t2" using lt fecb by (simp add: unrecovered_def)
  moreover have "only_set fec (fecs, t) (AList.update fec [] (AList.update fec ?xs fecs), ?t2)"
    using t'(3) unrecovered_other[where fec = fec] by (simp add: only_set_def) (simp add: unrecovered_def)
  moreover have "recover_fec L (slot, fec) (st, n) =
      Some (put_slot slot (AList.update fec [] (AList.update fec ?xs fecs), ?t2) st, n + k)"
    using recover_fec_eq[OF v refl refl, of fec n] ne rs(1) t'(1) k lt fecb by (simp add: vec_simps)
  ultimately show ?thesis using k by (auto simp: slot_entry_put)
qed

lemma recover_skipped:
  assumes v: "slot_entry L slot st = (fecs, t)" and skip: "skip_recovery L (or_default [] fec fecs)"
  shows "\<exists>st2. recover_fec L (slot, fec) (st, n) = Some (st2, n) \<and> tracker_of L slot st2 = t \<and>
     (\<forall>g. or_default [] g (fst (slot_entry L slot st2)) = or_default [] g fecs)"
  using recover_fec_eq[OF v refl refl, of fec n] skip by (simp add: slot_entry_put)

section \<open>Complete and recoverable sets\<close>

text \<open>A set of which all data shreds arrived, and one that can be recovered from the shreds \<open>X\<close>.\<close>

definition full_set :: "(nat \<Rightarrow> shred) \<Rightarrow> fec_layout \<Rightarrow> shred set \<Rightarrow> u32 \<Rightarrow> bool" where
  "full_set sh Y X f \<longleftrightarrow> sh ` indices Y f \<subseteq> X"

definition recoverable :: "ledger \<Rightarrow> (nat \<Rightarrow> shred) \<Rightarrow> fec_layout \<Rightarrow> shred set \<Rightarrow> u32 \<Rightarrow> bool" where
  "recoverable L sh Y X f \<longleftrightarrow>
     Suc (fl_end Y f) - unat f \<le> card (of_fec X f) \<and> erasure_ok L sh (fl_codes Y f) f (fl_end Y f)"

text \<open>The indices that are stored when the sets \<open>D\<close> have been recovered.\<close>

definition held :: "(nat \<Rightarrow> shred) \<Rightarrow> fec_layout \<Rightarrow> shred set \<Rightarrow> u32 set \<Rightarrow> nat set" where
  "held sh Y X D = {j. \<exists>f\<in>fl_sets Y. j \<in> indices Y f \<and> (f \<in> D \<or> sh j \<in> X)}"

lemma held_insert: "f \<in> fl_sets Y \<Longrightarrow> held sh Y X (insert f D) = held sh Y X D \<union> indices Y f"
  by (auto simp: held_def)

lemma held_of_set:
  assumes "layout_ok L sh slot Y" "f \<in> fl_sets Y - D"
  shows "held sh Y X D \<inter> indices Y f = {j \<in> indices Y f. sh j \<in> of_fec X f}"
proof -
  have fecs: "shred_fec_set_index (sh j) = f" if "j \<in> indices Y f" for j
    using whole_fec_setD(4)[OF layout_okD(2)] assms that by blast
  have only: "g = f" if "g \<in> fl_sets Y" "j \<in> indices Y f" "j \<in> indices Y g" for g j
    using layout_okD(3)[OF assms(1) _ that] assms(2) by blast
  show ?thesis using fecs only assms(2) unfolding held_def of_fec_def by blast
qed

end
