(* ===== verification/Fec_Ingest.thy ===== *)
theory Fec_Ingest
  imports Fec_Sets
begin

text \<open>
  Ingestion (\<^verbatim>\<open>proxy/src/deshred.rs\<close>) as one slot sees it: whatever the order and the repetitions, and
  whatever arrives for other slots, the tracker and the FEC sets of the slot hold exactly the shreds that
  arrived, except for sets that are delivered already.
\<close>

section \<open>The shreds of a batch\<close>

definition shreds_of :: "ledger \<Rightarrow> packet list \<Rightarrow> shred list" where
  "shreds_of L pkts = List.map_filter (\<lambda>b. case decode_shred L b of Inl _ \<Rightarrow> None | Inr s \<Rightarrow> Some s)
     (List.map_filter (packet_data L) pkts)"

lemma foldM_ingest_shreds:
  "foldM (ingest_packet L) bs st =
   foldM (ingest_shred L) (List.map_filter (\<lambda>b. case decode_shred L b of Inl _ \<Rightarrow> None | Inr s \<Rightarrow> Some s) bs) st"
proof (induction bs arbitrary: st)
  case (Cons b bs)
  have IH: "foldM (ingest_packet L) bs =
      foldM (ingest_shred L) (List.map_filter (\<lambda>b. case decode_shred L b of Inl _ \<Rightarrow> None | Inr s \<Rightarrow> Some s) bs)"
    using Cons by blast
  show ?case unfolding foldM.simps IH
    by (cases "decode_shred L b") (simp_all add: ingest_packet_def List.map_filter_simps)
qed (simp add: List.map_filter_simps)

lemma shreds_of_decoded:
  assumes "map (decode_shred L) (List.map_filter (packet_data L) pkts) = map Inr xs"
  shows "shreds_of L pkts = xs"
proof -
  have "map (decode_shred L) bs = map Inr xs \<Longrightarrow>
      List.map_filter (\<lambda>b. case decode_shred L b of Inl _ \<Rightarrow> None | Inr s \<Rightarrow> Some s) bs = xs" for bs
  proof (induction bs arbitrary: xs)
    case (Cons b bs)
    then show ?case by (cases xs) (auto simp: List.map_filter_simps)
  qed (simp add: List.map_filter_simps)
  then show ?thesis using assms by (simp add: shreds_of_def)
qed

lemma shreds_of_ok: "ledger_ok L \<Longrightarrow> x \<in> set (shreds_of L pkts) \<Longrightarrow> shred_ok L x"
  using decoded_shred_ok[of L] by (auto simp: shreds_of_def List.map_filter_def split: sum.splits)

section \<open>What a slot holds\<close>

definition covered :: "fec_layout \<Rightarrow> u32 set \<Rightarrow> nat set" where
  "covered Y C = (\<Union>f\<in>C. indices Y f)"

text \<open>
  The state of a slot of which the shreds \<open>X\<close> arrived, the sets \<open>E\<close> are flagged, as recovered or delivered,
  and the sets \<open>C\<close> are delivered.
\<close>

definition stage :: "ledger \<Rightarrow> (nat \<Rightarrow> shred) \<Rightarrow> fec_layout \<Rightarrow> shred set \<Rightarrow> u32 set \<Rightarrow> u32 set \<Rightarrow> slot_state \<Rightarrow> bool" where
  "stage L sh Y X C E v \<longleftrightarrow> stores_indices L sh (held sh Y X E) (covered Y C) (snd v) \<and>
     (\<forall>f\<in>fl_sets Y - E. unrecovered f (snd v) \<and> set (or_default [] f (fst v)) = of_fec X f \<and>
        distinct (or_default [] f (fst v))) \<and>
     (\<forall>f\<in>E. \<not> unrecovered f (snd v))"

lemma stageD:
  assumes "stage L sh Y X C E (fecs, t)"
  shows "wf_tracker L t" "stores_indices L sh (held sh Y X E) (covered Y C) t" "f \<in> E \<Longrightarrow> \<not> unrecovered f t"
    "f \<in> fl_sets Y - E \<Longrightarrow> unrecovered f t" "f \<in> fl_sets Y - E \<Longrightarrow> set (or_default [] f fecs) = of_fec X f"
    "f \<in> fl_sets Y - E \<Longrightarrow> distinct (or_default [] f fecs)"
    "j < MAX_DATA_SHREDS_PER_SLOT L \<Longrightarrow> data_shreds t ! j = (if j \<in> held sh Y X E then Some (sh j) else None)"
    "j < MAX_DATA_SHREDS_PER_SLOT L \<Longrightarrow> already_deshredded t ! j \<longleftrightarrow> j \<in> covered Y C"
  using assms by (auto simp: stage_def stores_indices_def)

lemma stage_fresh:
  assumes "layout_ok L sh slot Y" "map_of (all_shreds st) slot = None"
  shows "stage L sh Y {} {} {} (slot_entry L slot st)"
proof -
  have "unat f < MAX_DATA_SHREDS_PER_SLOT L" if "f \<in> fl_sets Y" for f
    using whole_range[OF layout_okD(2)[OF assms(1) that]] by simp
  moreover have "slot_entry L slot st = ([], default_tracker L)" using assms(2) by (simp add: slot_entry_def or_default_def)
  ultimately show ?thesis using wf_default_tracker[of L]
    by (simp add: stage_def stores_indices_def held_def covered_def unrecovered_def of_fec_def or_default_def)
      (simp add: default_tracker_def)
qed

lemma layout_member:
  assumes "layout_ok L sh slot Y" "x \<in> layout_shreds sh Y"
  obtains f where "f \<in> fl_sets Y" "x \<in> set_shreds sh Y f" "shred_fec_set_index x = f" "shred_ok L x" "shred_slot x = slot"
  using assms set_shreds_common[OF assms(1)] unfolding layout_shreds_def by blast

lemma layout_data_index:
  assumes ok: "layout_ok L sh slot Y" and f: "f \<in> fl_sets Y" and x: "x \<in> set_shreds sh Y f" "is_data x"
  obtains j where "j \<in> indices Y f" "x = sh j" "unat (shred_index x) = j"
proof -
  have "x \<notin> fl_codes Y f" using layout_okD(1)[OF ok f] x(2) by (auto simp: coded_fec_set_def)
  then obtain j where "j \<in> indices Y f" "x = sh j" using x(1) by (auto simp: set_shreds_def)
  then show ?thesis using that[of j] layout_index(3)[OF ok f] by simp
qed

lemma covered_own:
  assumes "layout_ok L sh slot Y" "f \<in> fl_sets Y - D" "D \<subseteq> fl_sets Y" "j \<in> indices Y f"
  shows "j \<notin> covered Y D"
  using layout_okD(3)[OF assms(1) _ _ assms(4)] assms(2,3) unfolding covered_def by blast

lemma held_index:
  assumes "layout_ok L sh slot Y" "f \<in> fl_sets Y - E" "j \<in> indices Y f"
  shows "j \<in> held sh Y X E \<longleftrightarrow> sh j \<in> X"
proof
  assume "j \<in> held sh Y X E"
  then obtain g where g: "g \<in> fl_sets Y" "j \<in> indices Y g" "g \<in> E \<or> sh j \<in> X" by (auto simp: held_def)
  then have "g = f" using layout_okD(3)[OF assms(1) _ g(1) assms(3)] assms(2) by blast
  then show "sh j \<in> X" using g(3) assms(2) by blast
next
  assume "sh j \<in> X"
  then show "j \<in> held sh Y X E" using assms(2,3) unfolding held_def by blast
qed

section \<open>One shred of the slot\<close>

text \<open>
  A coding shred is looked up in the flags of the data indices (see \<open>coding_shred_dropped\<close>): its index must not
  be that of a delivered data shred.
\<close>

definition codes_apart :: "fec_layout \<Rightarrow> u32 set \<Rightarrow> bool" where
  "codes_apart Y D \<longleftrightarrow> (\<forall>f\<in>fl_sets Y - D. \<forall>x\<in>fl_codes Y f. unat (shred_index x) \<notin> covered Y D)"

lemma codes_apart_empty: "codes_apart Y {}"
  by (simp add: codes_apart_def covered_def)

lemma stage_accepts:
  assumes ok: "layout_ok L sh slot Y" and D: "C \<subseteq> E" "E \<subseteq> fl_sets Y" "codes_apart Y C" and h: "slot_threshold (highest_slot_seen st) \<le> slot"
    and st: "stage L sh Y X C E (slot_entry L slot st)" and x: "x \<in> layout_shreds sh Y"
  shows "accepts L x st \<longleftrightarrow> shred_fec_set_index x \<notin> E \<and> \<not> (is_data x \<and> x \<in> X)"
proof -
  obtain f where f: "f \<in> fl_sets Y" "x \<in> set_shreds sh Y f" "shred_fec_set_index x = f" "shred_ok L x" "shred_slot x = slot"
    by (rule layout_member[OF ok x])
  obtain fecs t where v: "slot_entry L slot st = (fecs, t)" by force
  note s = stageD[OF st[unfolded v]]
  have fl: "already_recovered_fec_sets t ! unat f \<longleftrightarrow> f \<in> E" using s(3,4) f(1) by (auto simp: unrecovered_def)
  have young: "\<not> too_old x st" using f(5) h by (simp add: too_old_def not_less)
  show ?thesis
  proof (cases "f \<in> E")
    case True
    then show ?thesis using v f(3,5) fl by (simp add: accepts_def already_completed_def Let_def)
  next
    case False
    have "unat (shred_index x) \<notin> covered Y C"
    proof (cases "is_data x")
      case True
      then obtain j where "j \<in> indices Y f" "unat (shred_index x) = j" by (rule layout_data_index[OF ok f(1,2)])
      then show ?thesis using covered_own[OF ok, of f C] f(1) False D(1,2) by blast
    next
      case code: False
      then have "x \<in> fl_codes Y f" using f(1,2) layout_index(2)[OF ok f(1)] by (auto simp: set_shreds_def)
      then show ?thesis using D(1,3) f(1) False unfolding codes_apart_def by blast
    qed
    then have "\<not> already_completed x t"
      using s(8)[OF shred_ok_bounds(1)[OF f(4)]] fl f(3) False by (simp add: already_completed_def)
    moreover have "seen_before x t \<longleftrightarrow> is_data x \<and> x \<in> X"
    proof (cases "is_data x")
      case True
      then obtain j where j: "j \<in> indices Y f" "x = sh j" "unat (shred_index x) = j" by (rule layout_data_index[OF ok f(1,2)])
      then show ?thesis using s(7)[OF layout_index(1)[OF ok f(1) j(1)]] held_index[OF ok _ j(1), of E X] f False fl True
        by (simp add: seen_before_def)
    qed (use fl f False in \<open>simp add: seen_before_def\<close>)
    ultimately show ?thesis using v f(3,5) False young by (simp add: accepts_def Let_def)
  qed
qed

text \<open>A shred of a flagged set changes nothing.\<close>

lemma stage_flagged_shred:
  assumes ok: "layout_ok L sh slot Y" and st: "stage L sh Y X C E v" and x: "x \<in> layout_shreds sh Y" "shred_fec_set_index x \<in> E"
  shows "stage L sh Y (insert x X) C E v"
proof -
  have "held sh Y (insert x X) E = held sh Y X E"
  proof -
    have "f \<in> E" if "f \<in> fl_sets Y" "j \<in> indices Y f" "sh j = x" for f j
      using whole_fec_setD(4)[OF layout_okD(2)[OF ok that(1)] that(2)] that(3) x(2) by simp
    then show ?thesis unfolding held_def by blast
  qed
  moreover have "of_fec (insert x X) f = of_fec X f" if "f \<notin> E" for f using that x(2) by (auto simp: of_fec_def)
  ultimately show ?thesis using st by (simp add: stage_def)
qed

lemma held_insert_shred:
  assumes ok: "layout_ok L sh slot Y" and f: "f \<in> fl_sets Y" and x: "x \<in> set_shreds sh Y f"
  shows "held sh Y (insert x X) E = held sh Y X E \<union> {j \<in> indices Y f. sh j = x}"
proof -
  have "g = f" if "g \<in> fl_sets Y" "j \<in> indices Y g" "sh j = x" for g j
    using whole_fec_setD(4)[OF layout_okD(2)[OF ok that(1)] that(2)] that(3) set_shreds_common(3)[OF ok f x] by simp
  then show ?thesis using f unfolding held_def by blast
qed

lemma stage_record:
  assumes ok: "layout_ok L sh slot Y" and f: "f \<in> fl_sets Y - E" and st: "stage L sh Y X C E (fecs, t)"
    and x: "x \<in> set_shreds sh Y f" and X: "X \<subseteq> layout_shreds sh Y"
    and ins: "hs_insert (comparable_eq L) x (or_default [] f fecs) = Some shreds"
  shows "stage L sh Y (insert x X) C E (AList.update f shreds fecs, record_shred x t)"
proof -
  have fY: "f \<in> fl_sets Y" using f by blast
  note s = stageD[OF st] and c = set_shreds_common[OF ok fY x]
  let ?ys = "or_default [] f fecs"
  have xl: "x \<in> layout_shreds sh Y" using x fY by (auto simp: layout_shreds_def)
  have ys: "set ?ys = of_fec X f" "distinct ?ys" using s(5,6) f by blast+
  have ysl: "set ?ys \<subseteq> layout_shreds sh Y" using ys(1) X of_fec_subset by blast
  have "(\<exists>y\<in>set ?ys. comparable_eq L x y = Some True) \<longleftrightarrow> x \<in> set ?ys"
    using shred_key.eq_refl[OF c(1)] layout_comparable[OF ok xl] ysl by blast
  moreover have "\<forall>y\<in>set ?ys. shred_ok L y" using ysl layout_member[OF ok] by blast
  ultimately have "shreds = (if x \<in> set ?ys then ?ys else ?ys @ [x])"
    using ins shred_key.member_eq[OF c(1)] by (simp add: hs_insert_def)
  then have list: "set shreds = of_fec (insert x X) f" "distinct shreds" using ys c(3) by (auto simp: of_fec_def)
  have other: "of_fec (insert x X) g = of_fec X g" if "g \<noteq> f" for g using that c(3) by (auto simp: of_fec_def)
  have stores: "stores_indices L sh (held sh Y (insert x X) E) (covered Y C) (record_shred x t)"
  proof (cases "is_data x")
    case True
    then obtain j where j: "j \<in> indices Y f" "x = sh j" "unat (shred_index x) = j" by (rule layout_data_index[OF ok fY x])
    then have "{i \<in> indices Y f. sh i = x} = {j}" using whole_inj[OF layout_okD(2)[OF ok fY]] by (auto simp: inj_on_def)
    then show ?thesis using stores_indices_store[OF layout_okD(2)[OF ok fY] s(2) j(1)] True j(2)
      unfolding held_insert_shred[OF ok fY x] by simp
  next
    case False
    then have "{i \<in> indices Y f. sh i = x} = {}" using layout_index(2)[OF ok fY] by auto
    then have "held sh Y (insert x X) E = held sh Y X E" unfolding held_insert_shred[OF ok fY x] by blast
    then show ?thesis using s(2) False by simp
  qed
  have flags: "unrecovered g (record_shred x t) = unrecovered g t" for g
    by (cases "is_data x") (simp_all add: unrecovered_def, simp add: store_shred_def)
  show ?thesis using st stores list other by (auto simp: stage_def flags)
qed

section \<open>A batch\<close>

text \<open>
  The state of the ingestion loop as a slot sees it: \<open>X\<close> arrived, of which \<open>X0\<close> before the batch; the work
  list names every set that is not flagged and got a new shred.
\<close>

definition ingesting ::
  "ledger \<Rightarrow> (nat \<Rightarrow> shred) \<Rightarrow> u64 \<Rightarrow> fec_layout \<Rightarrow> u32 set \<Rightarrow> u32 set \<Rightarrow> shred set \<Rightarrow> shred set \<Rightarrow> recon_state \<Rightarrow> bool" where
  "ingesting L sh slot Y C E X0 X st \<longleftrightarrow> recon_inv L st \<and> stage L sh Y X C E (slot_entry L slot st) \<and>
     slot_threshold (highest_slot_seen st) \<le> slot \<and> deshredded_entries st = [] \<and>
     (\<forall>f. (slot, f) \<in> set (slot_fec_indexes_to_iterate st) \<longrightarrow> f \<in> fl_sets Y - E) \<and>
     (\<forall>f\<in>fl_sets Y - E. of_fec X f = of_fec X0 f \<or> (slot, f) \<in> set (slot_fec_indexes_to_iterate st))"

lemma ingesting_start:
  assumes "recon_inv L st" "stage L sh Y X C E (slot_entry L slot st)" "slot_threshold (highest_slot_seen st) \<le> slot"
  shows "ingesting L sh slot Y C E X X (cleared st)"
  using assms recon_inv_cleared by (auto simp: ingesting_def) (simp_all add: cleared_def slot_entry_def)

lemma threshold_max: "slot_threshold h \<le> slot \<Longrightarrow> slot_threshold h' \<le> slot \<Longrightarrow> slot_threshold (max h h') \<le> slot"
  by (simp add: max_def)

text \<open>A shred of another slot.\<close>

lemma ingesting_other:
  assumes L: "ledger_ok L" and p: "ingesting L sh slot Y C E X0 X st"
    and x: "shred_ok L x" "shred_slot x \<noteq> slot" "slot_threshold (shred_slot x) \<le> slot"
  shows "\<exists>st'. ingest_shred L x st = Some st' \<and> ingesting L sh slot Y C E X0 X st'"
proof -
  have inv: "recon_inv L st" using p by (simp add: ingesting_def)
  obtain st' where st': "ingest_shred L x st = Some st'" "recon_inv L st'" using ingest_shred_ok[OF L inv x(1)] by blast
  have "ingesting L sh slot Y C E X0 X st'"
  proof (cases "accepts L x st")
    case False
    then have "st' = put_slot (shred_slot x) (slot_entry L (shred_slot x) st) st"
      using ingest_shred_rejected[OF L inv x(1)] st'(1) by simp
    then show ?thesis using p st'(2) x(2) by (simp add: ingesting_def slot_entry_put)
  next
    case True
    obtain v where "st' = (put_slot (shred_slot x) v st)
        \<lparr>slot_fec_indexes_to_iterate := slot_fec_indexes_to_iterate st @ [(shred_slot x, shred_fec_set_index x)],
          highest_slot_seen := max (highest_slot_seen st) (shred_slot x)\<rparr>"
      using ingest_shred_accepted[OF L inv x(1) True] st'(1) by (metis option.inject)
    then show ?thesis using p st'(2) x(2,3) threshold_max by (auto simp: ingesting_def slot_entry_put)
  qed
  then show ?thesis using st'(1) by blast
qed

text \<open>A shred of the slot.\<close>

lemma ingesting_own:
  assumes L: "ledger_ok L" and ok: "layout_ok L sh slot Y" and D: "C \<subseteq> E" "E \<subseteq> fl_sets Y" "codes_apart Y C"
    and p: "ingesting L sh slot Y C E X0 X st" and X: "X \<subseteq> layout_shreds sh Y" and x: "x \<in> layout_shreds sh Y"
  shows "\<exists>st'. ingest_shred L x st = Some st' \<and> ingesting L sh slot Y C E X0 (insert x X) st'"
proof -
  obtain f where f: "f \<in> fl_sets Y" "x \<in> set_shreds sh Y f" "shred_fec_set_index x = f" "shred_ok L x" "shred_slot x = slot"
    by (rule layout_member[OF ok x])
  have inv: "recon_inv L st" and st: "stage L sh Y X C E (slot_entry L slot st)"
    and h: "slot_threshold (highest_slot_seen st) \<le> slot" using p by (simp_all add: ingesting_def)
  note acc = stage_accepts[OF ok D h st x]
  obtain st' where st': "ingest_shred L x st = Some st'" "recon_inv L st'" using ingest_shred_ok[OF L inv f(4)] by blast
  have "ingesting L sh slot Y C E X0 (insert x X) st'"
  proof (cases "accepts L x st")
    case False
    then have eq: "st' = put_slot slot (slot_entry L slot st) st"
      using ingest_shred_rejected[OF L inv f(4)] st'(1) f(5) by simp
    have same: "of_fec (insert x X) g = of_fec X g" if "g \<notin> E" for g
      using False acc that by (auto simp: of_fec_def)
    have "stage L sh Y (insert x X) C E (slot_entry L slot st)"
    proof (cases "f \<in> E")
      case True
      then show ?thesis using stage_flagged_shred[OF ok st x] f(3) by simp
    next
      case nD: False
      then show ?thesis using False acc f(3) st by (simp add: insert_absorb)
    qed
    then show ?thesis using p st'(2) same by (auto simp: ingesting_def eq slot_entry_put)
  next
    case True
    then have fD: "f \<in> fl_sets Y - E" using acc f(1,3) by simp
    obtain fecs t shreds where "slot_entry L slot st = (fecs, t)"
      "hs_insert (comparable_eq L) x (or_default [] f fecs) = Some shreds"
      "ingest_shred L x st = Some ((put_slot slot (AList.update f shreds fecs, record_shred x t) st)
        \<lparr>slot_fec_indexes_to_iterate := slot_fec_indexes_to_iterate st @ [(slot, f)],
          highest_slot_seen := max (highest_slot_seen st) slot\<rparr>)"
      using ingest_shred_accepted[OF L inv f(4) True] unfolding f(3,5) by blast
    note r = this
    have "stage L sh Y (insert x X) C E (AList.update f shreds fecs, record_shred x t)"
      using stage_record[OF ok fD _ f(2) X r(2)] st r(1) by simp
    moreover have "of_fec (insert x X) g = of_fec X0 g \<or> g = f \<or> (slot, g) \<in> set (slot_fec_indexes_to_iterate st)"
      if "g \<in> fl_sets Y - E" for g
    proof (cases "g = f")
      case False
      then have "of_fec (insert x X) g = of_fec X g" using f(3) by (auto simp: of_fec_def)
      then show ?thesis using p that unfolding ingesting_def by metis
    qed simp
    moreover have "st' = (put_slot slot (AList.update f shreds fecs, record_shred x t) st)
        \<lparr>slot_fec_indexes_to_iterate := slot_fec_indexes_to_iterate st @ [(slot, f)],
          highest_slot_seen := max (highest_slot_seen st) slot\<rparr>" using st'(1) r(3) by simp
    ultimately show ?thesis using p st'(2) fD threshold_max[OF h slot_threshold_le]
      by (simp add: ingesting_def slot_entry_put)
  qed
  then show ?thesis using st'(1) by blast
qed

text \<open>The shreds of a batch that are of the slot, and when a batch fits the layout and the window.\<close>

definition of_slot :: "u64 \<Rightarrow> shred list \<Rightarrow> shred set" where
  "of_slot slot xs = {x \<in> set xs. shred_slot x = slot}"

definition fits :: "(nat \<Rightarrow> shred) \<Rightarrow> u64 \<Rightarrow> fec_layout \<Rightarrow> shred list \<Rightarrow> bool" where
  "fits sh slot Y xs \<longleftrightarrow> of_slot slot xs \<subseteq> layout_shreds sh Y \<and> (\<forall>x\<in>set xs. slot_threshold (shred_slot x) \<le> slot)"

lemma ingest_batch:
  assumes "ledger_ok L" "layout_ok L sh slot Y" "C \<subseteq> E" "E \<subseteq> fl_sets Y" "codes_apart Y C"
    "ingesting L sh slot Y C E X0 X st" "X \<subseteq> layout_shreds sh Y" "fits sh slot Y xs" "\<forall>x\<in>set xs. shred_ok L x"
  shows "\<exists>st'. foldM (ingest_shred L) xs st = Some st' \<and> ingesting L sh slot Y C E X0 (X \<union> of_slot slot xs) st'"
  using assms(6-9)
proof (induction xs arbitrary: X st)
  case Nil
  then show ?case by (simp add: of_slot_def)
next
  case (Cons x xs)
  have xs: "fits sh slot Y xs" "\<forall>x\<in>set xs. shred_ok L x" using Cons.prems(3,4) by (auto simp: fits_def of_slot_def)
  show ?case
  proof (cases "shred_slot x = slot")
    case True
    then have x: "x \<in> layout_shreds sh Y" "of_slot slot (x # xs) = insert x (of_slot slot xs)"
      using Cons.prems(3) by (auto simp: fits_def of_slot_def)
    obtain st1 where st1: "ingest_shred L x st = Some st1" "ingesting L sh slot Y C E X0 (insert x X) st1"
      using ingesting_own[OF assms(1-5) Cons.prems(1,2) x(1)] by blast
    have "insert x X \<subseteq> layout_shreds sh Y" using Cons.prems(2) x(1) by blast
    then show ?thesis using Cons.IH[OF st1(2) _ xs] st1(1) x(2) by simp
  next
    case False
    then have x: "of_slot slot (x # xs) = of_slot slot xs" "slot_threshold (shred_slot x) \<le> slot" "shred_ok L x"
      using Cons.prems(3,4) by (auto simp: fits_def of_slot_def)
    obtain st1 where st1: "ingest_shred L x st = Some st1" "ingesting L sh slot Y C E X0 X st1"
      using ingesting_other[OF assms(1) Cons.prems(1) x(3) False x(2)] by blast
    then show ?thesis using Cons.IH[OF st1(2) Cons.prems(2) xs] x(1) by simp
  qed
qed

end
