(* ===== verification/Slot_Call.thy ===== *)
theory Slot_Call
  imports Fec_Ingest
begin

text \<open>
  A call of \<^verbatim>\<open>reconstruct_shreds\<close> (\<^verbatim>\<open>proxy/src/deshred.rs\<close>) as one slot sees it: the entry batches
  whose sets have all become ready are delivered, in order, and everything else of the slot waits; what the
  packets hold of other slots makes no difference.
\<close>

section \<open>Ready sets\<close>

definition ready :: "ledger \<Rightarrow> (nat \<Rightarrow> shred) \<Rightarrow> fec_layout \<Rightarrow> shred set \<Rightarrow> u32 \<Rightarrow> bool" where
  "ready L sh Y X f \<longleftrightarrow> full_set sh Y X f \<or> recoverable L sh Y X f"

text \<open>A set that is not ready and has too few shreds.\<close>

definition waiting :: "fec_layout \<Rightarrow> shred set \<Rightarrow> u32 \<Rightarrow> bool" where
  "waiting Y X f \<longleftrightarrow> card (of_fec X f) < Suc (fl_end Y f) - unat f"

lemma full_of_fec:
  assumes "layout_ok L sh slot Y" "f \<in> fl_sets Y"
  shows "full_set sh Y X f \<longleftrightarrow> sh ` indices Y f \<subseteq> of_fec X f"
  using whole_fec_setD(4)[OF layout_okD(2)[OF assms]] by (auto simp: full_set_def of_fec_def)

lemma ready_of_fec:
  assumes "layout_ok L sh slot Y" "f \<in> fl_sets Y" "of_fec X f = of_fec X' f"
  shows "ready L sh Y X f \<longleftrightarrow> ready L sh Y X' f"
  using full_of_fec[OF assms(1,2)] assms(3) by (simp add: ready_def recoverable_def)

lemma full_not_waiting:
  assumes ok: "layout_ok L sh slot Y" and f: "f \<in> fl_sets Y" and X: "X \<subseteq> layout_shreds sh Y"
    and fin: "finite X" and full: "full_set sh Y X f"
  shows "\<not> waiting Y X f"
proof -
  have "card (sh ` indices Y f) \<le> card (of_fec X f)"
    using full full_of_fec[OF ok f] finite_subset[OF of_fec_subset fin] by (intro card_mono) auto
  then show ?thesis using card_image[OF whole_inj[OF layout_okD(2)[OF ok f]]] by (simp add: waiting_def)
qed

lemma of_fec_shreds:
  assumes "layout_ok L sh slot Y" "f \<in> fl_sets Y" "X \<subseteq> layout_shreds sh Y"
  shows "of_fec X f \<subseteq> sh ` indices Y f \<union> fl_codes Y f"
  using assms(3) of_fec_layout[OF assms(1,2)] unfolding set_shreds_def by (auto simp: of_fec_def)

section \<open>The recovery loop\<close>

lemma stage_cong:
  assumes "stage L sh Y X C E v" "snd v' = snd v" "\<forall>g. or_default [] g (fst v') = or_default [] g (fst v)"
  shows "stage L sh Y X C E v'"
  using assms by (simp add: stage_def)

text \<open>A set with missing data shreds that can be recovered.\<close>

definition lost :: "ledger \<Rightarrow> (nat \<Rightarrow> shred) \<Rightarrow> fec_layout \<Rightarrow> shred set \<Rightarrow> u32 \<Rightarrow> bool" where
  "lost L sh Y X f \<longleftrightarrow> \<not> full_set sh Y X f \<and> recoverable L sh Y X f"

lemma recovering_own:
  assumes L: "ledger_ok L" and ok: "layout_ok L sh slot Y" and X: "X \<subseteq> layout_shreds sh Y"
    and st: "stage L sh Y X C E (slot_entry L slot st)" and inv: "recon_inv L st"
    and f: "f \<in> fl_sets Y - E" and dec: "ready L sh Y X f \<or> waiting Y X f"
    and step: "recover_fec L (slot, f) (st, n) = Some (st', n')"
  shows "stage L sh Y X C (if lost L sh Y X f then insert f E else E) (slot_entry L slot st')"
    "\<exists>k. n' = n + k \<and> (k = 0 \<longleftrightarrow> \<not> lost L sh Y X f)"
proof -
  have fY: "f \<in> fl_sets Y" using f by blast
  note c = layout_okD[OF ok fY]
  obtain fecs t where v: "slot_entry L slot st = (fecs, t)" by force
  note s = stageD[OF st[unfolded v]]
  note xs = s(5,6)[OF f] and sub = of_fec_shreds[OF ok fY X] and full = full_of_fec[OF ok fY, of X]
  have "stage L sh Y X C (if lost L sh Y X f then insert f E else E) (slot_entry L slot st') \<and>
    (\<exists>k. n' = n + k \<and> (k = 0 \<longleftrightarrow> \<not> lost L sh Y X f))"
  proof (cases "lost L sh Y X f")
    case False
    have "length (or_default [] f fecs) = card (of_fec X f)" using xs distinct_card by metis
    then have skip: "skip_recovery L (or_default [] f fecs)"
      using full_set_skipped[OF L c(1)] not_enough_skipped[OF L c(1)] xs sub full dec False
      by (auto simp: ready_def waiting_def lost_def)
    have "stage L sh Y X C E (slot_entry L slot st')" "n' = n"
      using recover_skipped[OF v skip, of n] step stage_cong[OF st, of "slot_entry L slot st'"] v by auto
    then show ?thesis using False by simp
  next
    case True
    then obtain j where j: "j \<in> indices Y f" "sh j \<notin> of_fec X f" using full unfolding lost_def image_subset_iff by blast
    have rec: "Suc (fl_end Y f) - unat f \<le> card (of_fec X f)" "erasure_ok L sh (fl_codes Y f) f (fl_end Y f)"
      using True by (simp_all add: recoverable_def lost_def)
    obtain st2 k where r: "recover_fec L (slot, f) (st, n) = Some (st2, n + k)" "0 < k"
      "stores_indices L sh (held sh Y X E \<union> indices Y f) (covered Y C) (tracker_of L slot st2)"
      "\<not> unrecovered f (tracker_of L slot st2)" "only_set f (fecs, t) (slot_entry L slot st2)"
      using recover_lost[OF L c(1) rec(2) inv v s(2) s(4)[OF f] held_of_set[OF ok f] xs sub rec(1) j] by blast
    have "\<not> unrecovered g (tracker_of L slot st2)" if "g \<in> insert f E" for g
      using r(4,5) s(3)[of g] that by (cases "g = f") (simp_all add: only_set_def)
    then have "stage L sh Y X C (insert f E) (slot_entry L slot st2)"
      using r(3,5) st v unfolding stage_def held_insert[OF fY] only_set_def by (auto 4 0)
    then show ?thesis using r(1,2) True step by auto
  qed
  then show "stage L sh Y X C (if lost L sh Y X f then insert f E else E) (slot_entry L slot st')"
    "\<exists>k. n' = n + k \<and> (k = 0 \<longleftrightarrow> \<not> lost L sh Y X f)" by blast+
qed

lemma recovering_all:
  assumes L: "ledger_ok L" and ok: "layout_ok L sh slot Y" and X: "X \<subseteq> layout_shreds sh Y"
    and "stage L sh Y X C E (slot_entry L slot st)" "recon_inv L st" "distinct ps"
    and "\<forall>f. (slot, f) \<in> set ps \<longrightarrow> f \<in> fl_sets Y - E \<and> (ready L sh Y X f \<or> waiting Y X f)"
    and "\<forall>p\<in>set ps. unat (snd p) < MAX_DATA_SHREDS_PER_SLOT L"
    and "foldM (recover_fec L) ps (st, n) = Some (st', n')"
  shows "stage L sh Y X C (E \<union> {f. (slot, f) \<in> set ps \<and> lost L sh Y X f}) (slot_entry L slot st') \<and>
    ((\<forall>p\<in>set ps. fst p = slot) \<longrightarrow> (\<exists>k. n' = n + k \<and> (k = 0 \<longleftrightarrow> (\<forall>f. (slot, f) \<in> set ps \<longrightarrow> \<not> lost L sh Y X f))))"
  using assms(4-)
proof (induction ps arbitrary: E st n)
  case Nil
  then show ?case by simp
next
  case (Cons p ps)
  obtain slot' f where p: "p = (slot', f)" by force
  obtain st1 n1 where s1: "recover_fec L (slot', f) (st, n) = Some (st1, n1)" "foldM (recover_fec L) ps (st1, n1) = Some (st', n')"
    using Cons.prems(6) by (auto simp: p split: Option.bind_splits)
  have inv1: "recon_inv L st1"
    using recovery.step_SomeD[of L "(st, n)" p "(st1, n1)"] Cons.prems(2,5) L s1(1) p by (simp add: rec_loop_inv_def)
  have ps: "distinct ps" "p \<notin> set ps" "\<forall>p\<in>set ps. unat (snd p) < MAX_DATA_SHREDS_PER_SLOT L"
    using Cons.prems(3,5) by auto
  show ?case
  proof (cases "slot' = slot")
    case False
    obtain w where w: "st1 = put_slot slot' w st" using recover_fec_shape[OF s1(1)] by blast
    have "slot_entry L slot st1 = slot_entry L slot st" using False by (simp add: w slot_entry_put)
    then have "stage L sh Y X C (E \<union> {f. (slot, f) \<in> set ps \<and> lost L sh Y X f}) (slot_entry L slot st')"
      using Cons.IH[OF _ inv1 ps(1) _ ps(3) s1(2)] Cons.prems(1,4) by simp
    then show ?thesis using False by (simp add: p)
  next
    case True
    let ?E = "if lost L sh Y X f then insert f E else E"
    have f: "f \<in> fl_sets Y - E" "ready L sh Y X f \<or> waiting Y X f" "(slot, f) \<notin> set ps"
      using Cons.prems(4) ps(2) True by (auto simp: p)
    note own = recovering_own[OF L ok X Cons.prems(1,2) f(1,2) s1(1)[unfolded True]]
    have "\<forall>g. (slot, g) \<in> set ps \<longrightarrow> g \<in> fl_sets Y - ?E \<and> (ready L sh Y X g \<or> waiting Y X g)" using Cons.prems(4) f(3) by auto
    note IH = Cons.IH[OF own(1) inv1 ps(1) this ps(3) s1(2)]
    have sets: "?E \<union> {f. (slot, f) \<in> set ps \<and> lost L sh Y X f} = E \<union> {g. (slot, g) \<in> set (p # ps) \<and> lost L sh Y X g}"
      using True by (auto simp: p)
    have "\<exists>k. n' = n + k \<and> (k = 0 \<longleftrightarrow> (\<forall>g. (slot, g) \<in> set (p # ps) \<longrightarrow> \<not> lost L sh Y X g))"
      if all: "\<forall>q\<in>set (p # ps). fst q = slot"
    proof -
      obtain k1 where k1: "n1 = n + k1" "k1 = 0 \<longleftrightarrow> \<not> lost L sh Y X f" using own(2) by blast
      obtain k2 where k2: "n' = n1 + k2" "k2 = 0 \<longleftrightarrow> (\<forall>f. (slot, f) \<in> set ps \<longrightarrow> \<not> lost L sh Y X f)"
        using IH all by auto
      show ?thesis using k1 k2 True by (intro exI[of _ "k1 + k2"]) (auto simp: p)
    qed
    then show ?thesis using IH unfolding sets by blast
  qed
qed

section \<open>The deshredding loop\<close>

text \<open>A set of which the tracker has all data, and the sets of delivered batches.\<close>

definition complete :: "(nat \<Rightarrow> shred) \<Rightarrow> fec_layout \<Rightarrow> shred set \<Rightarrow> u32 set \<Rightarrow> u32 \<Rightarrow> bool" where
  "complete sh Y X E f \<longleftrightarrow> f \<in> E \<or> full_set sh Y X f"

definition sets_of :: "fec_layout \<Rightarrow> u32 set \<Rightarrow> u32 set" where
  "sets_of Y K = {f \<in> fl_sets Y. fl_first Y f \<in> K}"

lemma sets_of_insert: "sets_of Y (insert b K) = sets_of Y K \<union> batch_sets Y b"
  by (auto simp: sets_of_def batch_sets_def)

lemma sets_of_simps [simp]: "sets_of Y {} = {}" "f \<in> fl_sets Y \<Longrightarrow> f \<in> sets_of Y K \<longleftrightarrow> fl_first Y f \<in> K"
  by (auto simp: sets_of_def)

lemma complete_held: "f \<in> fl_sets Y \<Longrightarrow> complete sh Y X E f \<Longrightarrow> j \<in> indices Y f \<Longrightarrow> j \<in> held sh Y X E"
  unfolding complete_def held_def full_set_def by blast

lemma stage_status:
  assumes ok: "layout_ok L sh slot Y" and st: "stage L sh Y X C E (fecs, t)" and f: "f \<in> fl_sets Y" "j \<in> indices Y f"
  shows "data_status t ! j = (if j \<in> held sh Y X E then if j = fl_stop Y (fl_first Y f) then DataComplete else NotDataComplete else Unknown)"
proof -
  note s = stageD[OF st] and jm = layout_index(1)[OF ok f]
  show ?thesis using wf_tracker_status[OF s(1) jm] s(7)[OF jm] layout_batch(7)[OF ok f] by simp
qed

lemma batch_bounds:
  assumes ok: "layout_ok L sh slot Y" and b: "b \<in> entry_batches Y"
  shows "unat b \<le> fl_stop Y b" "fl_stop Y b < MAX_DATA_SHREDS_PER_SLOT L"
    "j \<in> batch_range Y b \<Longrightarrow> j < MAX_DATA_SHREDS_PER_SLOT L"
proof -
  obtain f where f: "f \<in> fl_sets Y" "b = fl_first Y f" using b by (auto simp: entry_batches_def)
  show le: "unat b \<le> fl_stop Y b"
    using layout_batch(5,6)[OF ok f(1)] whole_range[OF layout_okD(2)[OF ok f(1)]] unfolding f(2) by linarith
  then have "fl_stop Y b \<in> batch_range Y b" by simp
  then obtain g where "g \<in> fl_sets Y" "fl_stop Y b \<in> indices Y g" by (rule batch_member[OF ok b])
  then show "fl_stop Y b < MAX_DATA_SHREDS_PER_SLOT L" by (rule layout_index(1)[OF ok])
  then show "j \<in> batch_range Y b \<Longrightarrow> j < MAX_DATA_SHREDS_PER_SLOT L" by simp
qed

text \<open>The data of a complete entry batch is one segment, bounded by the batches around it.\<close>

lemma stage_segment:
  assumes ok: "layout_ok L sh slot Y" and st: "stage L sh Y X (sets_of Y K) E (fecs, t)"
    and b: "b \<in> entry_batches Y - K" "\<forall>g\<in>batch_sets Y b. complete sh Y X E g" and f: "f \<in> batch_sets Y b"
  shows "\<exists>u. is_segment t (unat f) (unat b) (fl_stop Y b) u"
    "segment_payloads t (unat b) (fl_stop Y b) = map (\<lambda>j. shred_payload (sh j)) [unat b..<Suc (fl_stop Y b)]"
proof -
  have bB: "b \<in> entry_batches Y" using b(1) by blast
  note s = stageD[OF st] and e = batch_bounds[OF ok bB]
  have fb: "f \<in> fl_sets Y" "fl_first Y f = b" using f by (auto simp: batch_sets_def)
  have at: "data_shreds t ! j = Some (sh j) \<and> \<not> already_deshredded t ! j \<and>
      data_status t ! j = (if j = fl_stop Y b then DataComplete else NotDataComplete)" if j: "j \<in> batch_range Y b" for j
  proof -
    obtain g where g: "g \<in> batch_sets Y b" "g \<in> fl_sets Y" "fl_first Y g = b" "j \<in> indices Y g" by (rule batch_member[OF ok bB j])
    have h: "j \<in> held sh Y X E" using complete_held[OF g(2) _ g(4)] b(2) g(1) by blast
    have "g \<notin> sets_of Y K" using g(3) b(1) by (auto simp: sets_of_def)
    then have "j \<notin> covered Y (sets_of Y K)" using covered_own[OF ok, of g "sets_of Y K" j] g(2,4) by (auto simp: sets_of_def)
    then show ?thesis using s(7,8)[OF e(3)[OF j]] h stage_status[OF ok st g(2,4)] g(3) by simp
  qed
  have before: "data_status t ! (unat b - 1) = Unknown \<or> data_status t ! (unat b - 1) = DataComplete" if "unat b \<noteq> 0"
  proof (cases "\<exists>g\<in>fl_sets Y. unat b - 1 \<in> indices Y g")
    case False
    have "unat b - 1 < MAX_DATA_SHREDS_PER_SLOT L" using e(1,2) by linarith
    moreover have "unat b - 1 \<notin> held sh Y X E" using False unfolding held_def by blast
    ultimately show ?thesis using wf_tracker_status[OF s(1), of "unat b - 1"] s(7) by simp
  next
    case True
    then obtain g where g: "g \<in> fl_sets Y" "unat b - 1 \<in> indices Y g" by blast
    note bg = layout_batch[OF ok g(1)]
    have "unat b - 1 \<notin> batch_range Y b" "unat b \<in> batch_range Y b" using that e(1) by auto
    then have "unat b \<notin> batch_range Y (fl_first Y g)" using batches_apart[OF ok bB bg(2)] bg(4) g(2) by blast
    then have "unat b - 1 = fl_stop Y (fl_first Y g)" using bg(4) g(2) that by auto
    then show ?thesis using stage_status[OF ok st g] by simp
  qed
  show "\<exists>u. is_segment t (unat f) (unat b) (fl_stop Y b) u"
    using e at before wf_tracker_lengths(1)[OF s(1)] layout_batch(5,6)[OF ok fb(1)] whole_range[OF layout_okD(2)[OF ok fb(1)]] fb(2)
    by (intro exI[of _ "unat b \<noteq> 0 \<and> data_status t ! (unat b - 1) = Unknown"]) (auto simp: is_segment_def)
  show "segment_payloads t (unat b) (fl_stop Y b) = map (\<lambda>j. shred_payload (sh j)) [unat b..<Suc (fl_stop Y b)]"
    using at by (auto simp: segment_payloads_def simp del: upt_Suc)
qed

text \<open>With a data shred of the batch missing, a segment at one of its sets misses the start of the batch.\<close>

lemma stage_partial:
  assumes ok: "layout_ok L sh slot Y" and st: "stage L sh Y X C E (fecs, t)" and f: "f \<in> fl_sets Y" "fl_first Y f = b"
    and g: "g \<in> batch_sets Y b" "\<not> complete sh Y X E g" and seg: "is_segment t (unat f) s e u"
  shows "e = fl_stop Y b" "unat b < s" "s \<le> unat f"
    "segment_payloads t s e = map (\<lambda>j. shred_payload (sh j)) [s..<Suc e]"
proof -
  note bf = layout_batch[OF ok f(1), unfolded f(2)]
  have known: "data_status t ! i \<noteq> Unknown" if "s \<le> i" "i \<le> e" for i
    using seg that by (cases "i = e") (auto simp: is_segment_def)
  have se: "s \<le> unat f" "unat f \<le> e" "data_status t ! e = DataComplete" "i < e \<Longrightarrow> s \<le> i \<Longrightarrow> data_status t ! i = NotDataComplete" for i
    using seg by (auto simp: is_segment_def)
  have le: "unat f \<le> fl_stop Y b" using bf(6) whole_range[OF layout_okD(2)[OF ok f(1)]] by linarith
  have status: "data_status t ! j = (if j \<in> held sh Y X E then if j = fl_stop Y b then DataComplete else NotDataComplete else Unknown)"
    if j: "j \<in> batch_range Y b" for j
  proof -
    obtain h where "h \<in> fl_sets Y" "fl_first Y h = b" "j \<in> indices Y h" by (rule batch_member[OF ok bf(2) j])
    then show ?thesis using stage_status[OF ok st, of h j] by simp
  qed
  have stop: "fl_stop Y b \<in> batch_range Y b" using batch_bounds(1)[OF ok bf(2)] by simp
  show e: "e = fl_stop Y b"
  proof (rule linorder_cases[of e "fl_stop Y b"])
    assume "e < fl_stop Y b"
    then have "e \<in> batch_range Y b" "e \<noteq> fl_stop Y b" using se(2) bf(5) by auto
    then show ?thesis using status[of e] se(3) by (auto split: if_splits)
  next
    assume "fl_stop Y b < e"
    then show ?thesis using status[OF stop] se(4)[of "fl_stop Y b"] se(1) le by (auto split: if_splits)
  qed
  show "s \<le> unat f" by (rule se(1))
  have held: "j \<in> held sh Y X E" if "j \<in> batch_range Y b" "s \<le> j" for j
    using status[OF that(1)] known[OF that(2)] that(1) e by (auto split: if_splits)
  show "unat b < s"
  proof (rule ccontr)
    assume "\<not> unat b < s"
    have gY: "g \<in> fl_sets Y - E" "fl_first Y g = b" using g by (auto simp: batch_sets_def complete_def)
    obtain j where j: "j \<in> indices Y g" "sh j \<notin> X" using g(2) unfolding complete_def full_set_def image_subset_iff by blast
    then have "j \<in> batch_range Y b" using layout_batch(4)[OF ok, of g] gY by blast
    moreover from this have "s \<le> j" using \<open>\<not> unat b < s\<close> by auto
    ultimately have "j \<in> held sh Y X E" by (rule held)
    then show False using held_index[OF ok gY(1) j(1)] j(2) by blast
  qed
  have "data_shreds t ! j = Some (sh j)" if "j \<in> {s..e}" for j
  proof -
    have j: "j \<in> batch_range Y b" using that e \<open>unat b < s\<close> by auto
    then show ?thesis using stageD(7)[OF st batch_bounds(3)[OF ok bf(2) j]] held[OF j] that by auto
  qed
  then show "segment_payloads t s e = map (\<lambda>j. shred_payload (sh j)) [s..<Suc e]"
    by (auto simp: segment_payloads_def simp del: upt_Suc)
qed

lemma stage_marked:
  assumes ok: "layout_ok L sh slot Y" and st: "stage L sh Y X (sets_of Y K) E (fecs, t)" and E: "E \<subseteq> fl_sets Y"
    and b: "b \<in> entry_batches Y - K" "\<forall>g\<in>batch_sets Y b. complete sh Y X E g"
    and m: "marked t (unat b) (fl_stop Y b) t'" and wf: "wf_tracker L t'"
  shows "stage L sh Y X (sets_of Y (insert b K)) (E \<union> batch_sets Y b) (fecs, t')"
proof -
  have bB: "b \<in> entry_batches Y" using b(1) by blast
  note s = stageD[OF st] and e = batch_bounds[OF ok bB]
  note len = wf_tracker_lengths[OF s(1)]
  have data: "\<exists>h\<in>batch_sets Y b. data_shreds t ! j = Some (sh j) \<and> shred_fec_set_index (sh j) = h \<and> j \<in> indices Y h"
    if j: "j \<in> batch_range Y b" for j
  proof -
    obtain g where g: "g \<in> batch_sets Y b" "g \<in> fl_sets Y" "j \<in> indices Y g" by (rule batch_member[OF ok bB j])
    have "j \<in> held sh Y X E" using complete_held[OF g(2) _ g(3)] b(2) g(1) by blast
    then show ?thesis using s(7)[OF e(3)[OF j]] whole_fec_setD(4)[OF layout_okD(2)[OF ok g(2)] g(3)] g by auto
  qed
  have in_batch: "\<exists>j\<in>batch_range Y b. j \<in> indices Y g" if "g \<in> batch_sets Y b" for g
    using layout_batch(4)[OF ok, of g] whole_range[OF layout_okD(2)[OF ok, of g]] that by (fastforce simp: batch_sets_def)
  have held: "held sh Y X (E \<union> batch_sets Y b) = held sh Y X E"
    using b(2) complete_held[of _ Y sh X E] unfolding held_def batch_sets_def by blast
  have "covered Y (sets_of Y (insert b K)) = covered Y (sets_of Y K) \<union> batch_range Y b"
  proof -
    have "batch_range Y b = (\<Union>g\<in>batch_sets Y b. indices Y g)"
      using layout_okD(4)[OF ok] bB by (auto simp: entry_batches_def batch_ok_def simp del: atLeastAtMost_iff)
    then show ?thesis by (auto simp: sets_of_insert covered_def simp del: atLeastAtMost_iff)
  qed
  then have stores: "stores_indices L sh (held sh Y X (E \<union> batch_sets Y b)) (covered Y (sets_of Y (insert b K))) t'"
    using s(2) m wf len(4) unfolding held by (auto simp: stores_indices_def marked_def)
  have flags: "unrecovered g t' \<longleftrightarrow> unrecovered g t \<and> g \<notin> batch_sets Y b" if gY: "g \<in> fl_sets Y" for g
  proof -
    have "unat g < length (already_recovered_fec_sets t)" using whole_range[OF layout_okD(2)[OF ok gY]] len(3) by simp
    then have "already_recovered_fec_sets t' ! unat g \<longleftrightarrow> already_recovered_fec_sets t ! unat g \<or>
        (\<exists>j x. unat b \<le> j \<and> j \<le> fl_stop Y b \<and> data_shreds t ! j = Some x \<and> unat (shred_fec_set_index x) = unat g)"
      using m by (simp add: marked_def)
    moreover have "(\<exists>j x. unat b \<le> j \<and> j \<le> fl_stop Y b \<and> data_shreds t ! j = Some x \<and> unat (shred_fec_set_index x) = unat g)
        \<longleftrightarrow> g \<in> batch_sets Y b"
    proof
      assume "\<exists>j x. unat b \<le> j \<and> j \<le> fl_stop Y b \<and> data_shreds t ! j = Some x \<and> unat (shred_fec_set_index x) = unat g"
      then obtain j x where j: "j \<in> batch_range Y b" "data_shreds t ! j = Some x" "shred_fec_set_index x = g"
        by (auto simp: word_unat_eq_iff)
      then show "g \<in> batch_sets Y b" using data[OF j(1)] by auto
    next
      assume gb: "g \<in> batch_sets Y b"
      then obtain j where j: "j \<in> batch_range Y b" "j \<in> indices Y g" using in_batch by blast
      then have "data_shreds t ! j = Some (sh j)" "shred_fec_set_index (sh j) = g"
        using data[OF j(1)] whole_fec_setD(4)[OF layout_okD(2)[OF ok gY] j(2)] by auto
      then show "\<exists>j x. unat b \<le> j \<and> j \<le> fl_stop Y b \<and> data_shreds t ! j = Some x \<and> unat (shred_fec_set_index x) = unat g"
        using j(1) by auto
    qed
    ultimately show ?thesis by (auto simp: unrecovered_def)
  qed
  have "\<not> unrecovered g t'" if "g \<in> E \<union> batch_sets Y b" for g
    using flags[of g] that s(3)[of g] E by (auto simp: batch_sets_def)
  then show ?thesis using st stores flags unfolding stage_def by auto
qed

lemma deshred_fec_entries:
  assumes "recon_inv L st" "deshred_fec L (slot, fec) st = Some st'"
  shows "\<exists>ds. deshredded_entries st' = deshredded_entries st @ ds \<and> (\<forall>d\<in>set ds. fst d = slot)"
proof -
  obtain fecs t where v: "slot_entry L slot st = (fecs, t)" by force
  show ?thesis
  proof (cases "\<exists>s e u. is_segment t (unat fec) s e u")
    case False
    then show ?thesis using assms deshred_fec_none[OF assms(1) v] by auto
  next
    case True
    then obtain s e u where seg: "is_segment t (unat fec) s e u" by blast
    show ?thesis using assms(2) unfolding deshred_fec_segment[OF assms(1) v seg]
      by (auto simp del: upt_Suc split: sum.splits Option.bind_splits)
  qed
qed

text \<open>The payloads of every entry batch deshred to \<open>pl\<close> and deserialize to \<open>es\<close>.\<close>

abbreviation decodable ::
  "ledger \<Rightarrow> (nat \<Rightarrow> shred) \<Rightarrow> fec_layout \<Rightarrow> (u32 \<Rightarrow> bytes) \<Rightarrow> (u32 \<Rightarrow> entry list) \<Rightarrow> bool" where
  "decodable L sh Y pl es \<equiv> \<forall>b\<in>entry_batches Y.
     deshred L (map (\<lambda>j. shred_payload (sh j)) [unat b..<Suc (fl_stop Y b)]) = Inr (pl b) \<and>
     deserialize_entries L (pl b) = Inr (es b)"

text \<open>
  What follows a gap in an entry batch that spans several sets does not decode. The code tries it (an unknown
  start position) and takes an error for the sign that the start is missing.
\<close>

definition suffixes_fail :: "ledger \<Rightarrow> (nat \<Rightarrow> shred) \<Rightarrow> fec_layout \<Rightarrow> bool" where
  "suffixes_fail L sh Y \<longleftrightarrow> (\<forall>f\<in>fl_sets Y. \<forall>s\<in>{unat (fl_first Y f)<..unat f}.
     case deshred L (map (\<lambda>j. shred_payload (sh j)) [s..<Suc (fl_stop Y (fl_first Y f))]) of
       Inl _ \<Rightarrow> True | Inr p \<Rightarrow> (\<exists>e. deserialize_entries L p = Inl e))"

lemma delivering_own:
  assumes ok: "layout_ok L sh slot Y" and dl: "decodable L sh Y pl es" and E: "E \<subseteq> fl_sets Y"
    and b: "b \<in> entry_batches Y - K" "\<forall>g\<in>batch_sets Y b. complete sh Y X E g" and f: "f \<in> batch_sets Y b"
    and inv: "recon_inv L st" and st: "stage L sh Y X (sets_of Y K) E (slot_entry L slot st)"
    and step: "deshred_fec L (slot, f) st = Some st'"
  shows "stage L sh Y X (sets_of Y (insert b K)) (E \<union> batch_sets Y b) (slot_entry L slot st')"
    "deshredded_entries st' = deshredded_entries st @ [(slot, es b, pl b)]"
proof -
  obtain fecs t where v: "slot_entry L slot st = (fecs, t)" by force
  note s = st[unfolded v]
  have sok: "slot_ok L slot (fecs, t)" using slot_entry_ok[OF inv] v by metis
  note seg = stage_segment[OF ok s b f]
  obtain u where u: "is_segment t (unat f) (unat b) (fl_stop Y b) u" using seg(1) by blast
  obtain t' where t': "foldM mark_deshredded (map (\<lambda>j. data_shreds t ! j) [unat b..<Suc (fl_stop Y b)]) t = Some t'"
    and m: "marked t (unat b) (fl_stop Y b) t'" using mark_segment[OF slot_okD(1)[OF sok] u] by blast
  have st': "st' = (put_slot slot (fecs, t') st)\<lparr>deshredded_entries := deshredded_entries st @ [(slot, es b, pl b)],
             rc_metrics := count_entries (es b) (count_unknown_start u (rc_metrics st))\<rparr>"
    using deshred_fec_segment[OF inv v u] dl b(1) t' step unfolding seg(2) by (auto simp del: upt_Suc)
  have "stage L sh Y X (sets_of Y (insert b K)) (E \<union> batch_sets Y b) (fecs, t')"
    by (rule stage_marked[OF ok s E b m slot_okD(1)[OF slot_ok_marked[OF sok u m]]])
  then show "stage L sh Y X (sets_of Y (insert b K)) (E \<union> batch_sets Y b) (slot_entry L slot st')" by (simp add: st' slot_entry_put)
  show "deshredded_entries st' = deshredded_entries st @ [(slot, es b, pl b)]" by (simp add: st')
qed

text \<open>An item of a delivered or of an incomplete batch changes nothing but counters.\<close>

lemma delivering_none:
  assumes ok: "layout_ok L sh slot Y" and f: "f \<in> fl_sets Y" "fl_first Y f = b"
    and inv: "recon_inv L st" and st: "stage L sh Y X (sets_of Y K) E (slot_entry L slot st)"
    and no: "b \<in> K \<or> suffixes_fail L sh Y \<and> (\<exists>g\<in>batch_sets Y b. \<not> complete sh Y X E g)"
    and step: "deshred_fec L (slot, f) st = Some st'"
  shows "slot_entry L slot st' = slot_entry L slot st" "deshredded_entries st' = deshredded_entries st"
proof -
  obtain fecs t where v: "slot_entry L slot st = (fecs, t)" by force
  note s = stageD[OF st[unfolded v]]
  have fi: "unat f \<in> indices Y f" using whole_range[OF layout_okD(2)[OF ok f(1)]] by simp
  have "slot_entry L slot st' = slot_entry L slot st \<and> deshredded_entries st' = deshredded_entries st"
  proof (cases "\<exists>a e u. is_segment t (unat f) a e u")
    case False
    then have "st' = put_slot slot (fecs, t) st" using deshred_fec_none[OF inv v] step by simp
    then show ?thesis using v by (simp add: slot_entry_put)
  next
    case True
    then obtain a e u where seg: "is_segment t (unat f) a e u" by blast
    have "b \<notin> K"
    proof
      assume "b \<in> K"
      then have "unat f \<in> covered Y (sets_of Y K)" using f fi unfolding covered_def sets_of_def by blast
      then have "already_deshredded t ! unat f" using s(8)[OF layout_index(1)[OF ok f(1) fi]] by simp
      then show False using seg by (auto simp: is_segment_def)
    qed
    then obtain g where g: "g \<in> batch_sets Y b" "\<not> complete sh Y X E g" and suf: "suffixes_fail L sh Y" using no by blast
    note p = stage_partial[OF ok st[unfolded v] f g seg]
    have "a \<in> {unat (fl_first Y f)<..unat f}" using p(2,3) f(2) by simp
    from suf[unfolded suffixes_fail_def, rule_format, OF f(1) this] have "case deshred L (segment_payloads t a e) of Inl _ \<Rightarrow> True | Inr p \<Rightarrow> (\<exists>e. deserialize_entries L p = Inl e)"
      unfolding p(4) unfolding p(1) f(2) .
    then show ?thesis using deshred_fec_segment[OF inv v seg] step v
      by (auto simp: slot_entry_put split: sum.splits)
  qed
  then show "slot_entry L slot st' = slot_entry L slot st" "deshredded_entries st' = deshredded_entries st" by blast+
qed

lemma deshred_other:
  assumes "recon_inv L st" "deshred_fec L (slot', f) st = Some st'" "slot' \<noteq> slot"
  shows "slot_entry L slot st' = slot_entry L slot st"
    "filter (\<lambda>d. fst d = slot) (deshredded_entries st') = filter (\<lambda>d. fst d = slot) (deshredded_entries st)"
proof -
  show "slot_entry L slot st' = slot_entry L slot st"
    using deshred_fec_shape[OF assms(2)] assms(3) by (auto simp: slot_entry_put)
  obtain ds where "deshredded_entries st' = deshredded_entries st @ ds" "\<forall>d\<in>set ds. fst d = slot'"
    using deshred_fec_entries[OF assms(1,2)] by blast
  then show "filter (\<lambda>d. fst d = slot) (deshredded_entries st') = filter (\<lambda>d. fst d = slot) (deshredded_entries st)"
    using assms(3) by (auto simp: filter_empty_conv)
qed

text \<open>The sets of the work items of a slot.\<close>

definition items :: "u64 \<Rightarrow> (u64 \<times> u32) list \<Rightarrow> u32 list" where
  "items slot ps = map snd (filter (\<lambda>p. fst p = slot) ps)"

lemma items_simps [simp]:
  "items slot [] = []" "items slot ((slot', f) # ps) = (if slot' = slot then f # items slot ps else items slot ps)"
  by (simp_all add: items_def)

lemma set_items: "f \<in> set (items slot ps) \<longleftrightarrow> (slot, f) \<in> set ps"
  by (force simp: items_def)

lemma items_sorted: "sorted_wrt (<) ps \<Longrightarrow> sorted_wrt (<) (items slot ps)"
proof (induction ps)
  case (Cons p ps)
  have "snd p < f" if "fst p = slot" "(slot, f) \<in> set ps" for f
    using Cons.prems that by (cases p) (force simp: less_prod_simp)
  then show ?case using Cons by (cases p) (auto simp: set_items)
qed simp

text \<open>
  The loop delivers the batches of its items that are complete and not delivered, in order. \<open>P\<close> says which
  sets are complete, which the loop does not change.
\<close>

lemma delivering_all:
  assumes ok: "layout_ok L sh slot Y" and dl: "decodable L sh Y pl es" and suf: "suffixes_fail L sh Y \<or> (\<forall>g\<in>fl_sets Y. P g)"
    and "E \<subseteq> fl_sets Y" "\<forall>g\<in>fl_sets Y. complete sh Y X E g \<longleftrightarrow> P g" "deshred_inv L st0 st"
    and "stage L sh Y X (sets_of Y K) E (slot_entry L slot st)" "sorted_wrt (<) ps"
    and "\<forall>f. (slot, f) \<in> set ps \<longrightarrow> f \<in> fl_sets Y" "foldM (deshred_fec L) ps st = Some st'"
  shows "\<exists>ds. stage L sh Y X (sets_of Y (K \<union> set ds)) (E \<union> sets_of Y (set ds)) (slot_entry L slot st') \<and>
     filter (\<lambda>d. fst d = slot) (deshredded_entries st') = filter (\<lambda>d. fst d = slot) (deshredded_entries st) @
       map (\<lambda>b. (slot, es b, pl b)) ds \<and>
     sorted_wrt (<) ds \<and> set ds = {b \<in> fl_first Y ` set (items slot ps) - K. \<forall>g\<in>batch_sets Y b. P g}"
  using assms(4-)
proof (induction ps arbitrary: K E st)
  case Nil
  then show ?case by (intro exI[of _ "[]"]) simp
next
  case (Cons p ps)
  obtain slot' f where p: "p = (slot', f)" by force
  obtain st1 where s1: "deshred_fec L (slot', f) st = Some st1" "foldM (deshred_fec L) ps st1 = Some st'"
    using Cons.prems(7) by (auto simp: p split: Option.bind_splits)
  have inv: "recon_inv L st" using Cons.prems(3) by (simp add: deshred_inv_def)
  have inv1: "deshred_inv L st0 st1" using deshredding.step_SomeD[OF Cons.prems(3) _ s1(1)] by simp
  have ps: "sorted_wrt (<) ps" "\<forall>f. (slot, f) \<in> set ps \<longrightarrow> f \<in> fl_sets Y" using Cons.prems(5,6) by auto
  note IH = Cons.IH[OF _ _ inv1 _ ps s1(2)]
  show ?case
  proof (cases "slot' = slot")
    case False
    then show ?thesis using IH[OF Cons.prems(1,2)] Cons.prems(4) deshred_other[OF inv s1(1) False]
      by (simp add: p del: upt_Suc)
  next
    case True
    let ?b = "fl_first Y f"
    have f: "f \<in> fl_sets Y" using Cons.prems(6) True by (auto simp: p)
    note bf = layout_batch[OF ok f]
    have P: "complete sh Y X E g \<longleftrightarrow> P g" if "g \<in> batch_sets Y ?b" for g using Cons.prems(2) that by (auto simp: batch_sets_def)
    show ?thesis
    proof (cases "?b \<notin> K \<and> (\<forall>g\<in>batch_sets Y ?b. P g)")
      case go: True
      then have b: "?b \<in> entry_batches Y - K" "\<forall>g\<in>batch_sets Y ?b. complete sh Y X E g" using bf(2) P by auto
      note own = delivering_own[OF ok dl Cons.prems(1) b bf(3) inv Cons.prems(4) s1(1)[unfolded True]]
      have "E \<union> batch_sets Y ?b \<subseteq> fl_sets Y" using Cons.prems(1) by (auto simp: batch_sets_def)
      moreover have "\<forall>g\<in>fl_sets Y. complete sh Y X (E \<union> batch_sets Y ?b) g \<longleftrightarrow> P g"
        using Cons.prems(2) go by (auto simp: complete_def)
      ultimately obtain ds where ds: "stage L sh Y X (sets_of Y (insert ?b K \<union> set ds)) (E \<union> batch_sets Y ?b \<union> sets_of Y (set ds)) (slot_entry L slot st')"
        "filter (\<lambda>d. fst d = slot) (deshredded_entries st') = filter (\<lambda>d. fst d = slot) (deshredded_entries st1) @ map (\<lambda>b. (slot, es b, pl b)) ds"
        "sorted_wrt (<) ds" "set ds = {b \<in> fl_first Y ` set (items slot ps) - insert ?b K. \<forall>g\<in>batch_sets Y b. P g}"
        using IH[OF _ _ own(1)] by blast
      have "?b < d" if d: "d \<in> set ds" for d
      proof -
        obtain g where g: "(slot, g) \<in> set ps" "d = fl_first Y g" "d \<noteq> ?b" using d ds(4) by (auto simp: set_items)
        then have "p < (slot, g)" using Cons.prems(5) by simp
        then have "f \<le> g" using True by (simp add: p less_prod_simp)
        then show ?thesis using first_mono[OF ok f] ps(2) g by (metis order_le_less)
      qed
      then have "sorted_wrt (<) (?b # ds)" using ds(3) by simp
      moreover have "insert ?b K \<union> set ds = K \<union> set (?b # ds)"
        "E \<union> batch_sets Y ?b \<union> sets_of Y (set ds) = E \<union> sets_of Y (set (?b # ds))" by (auto simp: sets_of_insert)
      note ds(1)[unfolded this]
      moreover have "filter (\<lambda>d. fst d = slot) (deshredded_entries st') = filter (\<lambda>d. fst d = slot) (deshredded_entries st) @
          map (\<lambda>b. (slot, es b, pl b)) (?b # ds)" using ds(2) own(2) by simp
      moreover have "set (?b # ds) = {b \<in> fl_first Y ` set (items slot (p # ps)) - K. \<forall>g\<in>batch_sets Y b. P g}"
        using ds(4) go True by (auto simp: p)
      ultimately show ?thesis by blast
    next
      case False
      then have "?b \<in> K \<or> suffixes_fail L sh Y \<and> (\<exists>g\<in>batch_sets Y ?b. \<not> complete sh Y X E g)"
        using suf P by (auto simp: batch_sets_def)
      note none = delivering_none[OF ok f refl inv Cons.prems(4) this s1(1)[unfolded True]]
      have "{b \<in> fl_first Y ` set (items slot (p # ps)) - K. \<forall>g\<in>batch_sets Y b. P g} =
          {b \<in> fl_first Y ` set (items slot ps) - K. \<forall>g\<in>batch_sets Y b. P g}" using False True by (auto simp: p)
      then show ?thesis using IH[OF Cons.prems(1,2)] Cons.prems(4) none by simp
    qed
  qed
qed

section \<open>The whole call\<close>

lemma deshred_highest:
  "foldM (deshred_fec L) ps st = Some st' \<Longrightarrow> highest_slot_seen st' = highest_slot_seen st"
proof (induction ps arbitrary: st)
  case Nil
  then show ?case by simp
next
  case (Cons p ps)
  then obtain st1 where s1: "deshred_fec L (fst p, snd p) st = Some st1" "foldM (deshred_fec L) ps st1 = Some st'"
    by (auto split: Option.bind_splits)
  then show ?case using deshred_fec_shape[OF s1(1)] Cons.IH[OF s1(2)] by auto
qed

lemma slot_call:
  assumes L: "ledger_ok L" and ok: "layout_ok L sh slot Y" and inv: "recon_inv L st"
    and D: "sets_of Y K \<subseteq> E" "E \<subseteq> fl_sets Y" "codes_apart Y (sets_of Y K)"
    and st: "stage L sh Y X (sets_of Y K) E (slot_entry L slot st)" and X: "X \<subseteq> layout_shreds sh Y"
    and h: "slot_threshold (highest_slot_seen st) \<le> slot" and fit: "fits sh slot Y (shreds_of L pkts)"
    and X': "X' = X \<union> of_slot slot (shreds_of L pkts)"
    and old: "\<forall>f\<in>fl_sets Y. complete sh Y X E f \<or> waiting Y X f"
      "\<forall>b\<in>entry_batches Y - K. \<exists>g\<in>batch_sets Y b. \<not> complete sh Y X E g"
    and dec: "\<forall>f\<in>fl_sets Y - E. ready L sh Y X' f \<or> waiting Y X' f"
    and suf: "suffixes_fail L sh Y \<or> (\<forall>f\<in>fl_sets Y. ready L sh Y X' f)"
    and dl: "decodable L sh Y pl es" and run: "stages L pkts st st1 st2 st3 k rep"
    and E': "E' = E \<union> {f \<in> fl_sets Y. lost L sh Y X' f}"
    and R: "R = {b \<in> entry_batches Y - K. \<forall>g\<in>batch_sets Y b. complete sh Y X' E' g}"
  shows "stage L sh Y X' (sets_of Y (K \<union> R)) (E' \<union> sets_of Y R) (slot_entry L slot st3)"
    "slot_threshold (highest_slot_seen st3) \<le> slot"
    "filter (\<lambda>d. fst d = slot) (deshredded_entries st3) = map (\<lambda>b. (slot, es b, pl b)) (sorted_list_of_set R)"
    "(\<forall>p\<in>set (slot_fec_indexes_to_iterate st1). fst p = slot) \<longrightarrow> (k = 0 \<longleftrightarrow> (\<forall>f\<in>fl_sets Y - E. \<not> lost L sh Y X' f))"
proof -
  let ?ps = "sort_dedup (slot_fec_indexes_to_iterate st1)"
  have s1: "foldM (ingest_packet L) (List.map_filter (packet_data L) pkts) (cleared st) = Some st1" "recon_inv L st1"
    and s2: "foldM (recover_fec L) ?ps (sorted_todo st1, 0) = Some (st2, k)"
    and st2: "deshredded_entries st2 = []" "highest_slot_seen st2 = highest_slot_seen st1" "deshred_inv L st2 st2"
    and s3: "foldM (deshred_fec L) ?ps st2 = Some st3"
    using run by (simp_all add: stages_def)
  have p1: "ingesting L sh slot Y (sets_of Y K) E X X' st1"
    using ingest_batch[OF L ok D ingesting_start[OF inv st h] X fit] shreds_of_ok[OF L] s1(1)
    by (simp add: foldM_ingest_shreds X') (simp add: shreds_of_def)
  have X'l: "X' \<subseteq> layout_shreds sh Y" using X fit by (auto simp: X' fits_def)
  have todo: "\<forall>f. (slot, f) \<in> set ?ps \<longrightarrow> f \<in> fl_sets Y - E" using p1 by (simp add: ingesting_def)
  have news: "(slot, f) \<in> set ?ps" if f: "f \<in> fl_sets Y - E" "\<not> full_set sh Y X f" "ready L sh Y X' f" for f
  proof -
    have "waiting Y X f" using old(1) f by (auto simp: complete_def)
    then have "of_fec X' f \<noteq> of_fec X f" using f full_of_fec[OF ok] by (auto simp: waiting_def ready_def recoverable_def)
    then show ?thesis using p1 f(1) by (auto simp: ingesting_def)
  qed
  have items: "(slot, f) \<in> set ?ps" if "f \<in> fl_sets Y - E" "lost L sh Y X' f" for f
    using news[OF that(1)] that(2) by (auto simp: lost_def ready_def full_set_def X')
  have ps: "distinct ?ps" "sorted_wrt (<) ?ps" "\<forall>p\<in>set ?ps. unat (snd p) < MAX_DATA_SHREDS_PER_SLOT L"
    using distinct_sort_dedup strict_sorted_sort_dedup s1(2) by (auto simp: recon_inv_def)
  have todo': "\<forall>f. (slot, f) \<in> set ?ps \<longrightarrow> f \<in> fl_sets Y - E \<and> (ready L sh Y X' f \<or> waiting Y X' f)" using todo dec by blast
  have "stage L sh Y X' (sets_of Y K) E (slot_entry L slot (sorted_todo st1))" "recon_inv L (sorted_todo st1)"
    using p1 s1(2) by (simp_all add: ingesting_def)
  note rec = recovering_all[OF L ok X'l this ps(1) todo' ps(3) s2]
  have EE: "E \<union> {f. (slot, f) \<in> set ?ps \<and> lost L sh Y X' f} = E'" using todo items unfolding E' by blast
  have E'F: "E' \<subseteq> fl_sets Y" using D(2) by (auto simp: E')
  have suf': "suffixes_fail L sh Y \<or> (\<forall>g\<in>fl_sets Y. complete sh Y X' E' g)"
    using suf by (auto simp: complete_def E' ready_def lost_def)
  have r: "stage L sh Y X' (sets_of Y K) E' (slot_entry L slot st2)" using rec unfolding EE by blast
  have todoF: "\<forall>f. (slot, f) \<in> set ?ps \<longrightarrow> f \<in> fl_sets Y" using todo by blast
  obtain ds where ds: "stage L sh Y X' (sets_of Y (K \<union> set ds)) (E' \<union> sets_of Y (set ds)) (slot_entry L slot st3)"
    "filter (\<lambda>d. fst d = slot) (deshredded_entries st3) = map (\<lambda>b. (slot, es b, pl b)) ds" "sorted_wrt (<) ds"
    "set ds = {b \<in> fl_first Y ` set (items slot ?ps) - K. \<forall>g\<in>batch_sets Y b. complete sh Y X' E' g}"
    using delivering_all[OF ok dl suf' E'F _ st2(3) r ps(2) todoF s3] st2(1) by auto
  have dsR: "set ds = R"
  proof (intro equalityI subsetI)
    fix b assume "b \<in> set ds"
    then show "b \<in> R" using ds(4) todoF unfolding R entry_batches_def by (auto simp: set_items)
  next
    fix b assume b: "b \<in> R"
    then obtain g where g: "g \<in> batch_sets Y b" "\<not> complete sh Y X E g" "complete sh Y X' E' g" using old(2) unfolding R by blast
    then have "g \<in> fl_sets Y - E" "\<not> full_set sh Y X g" "ready L sh Y X' g" "fl_first Y g = b"
      by (auto simp: complete_def batch_sets_def E' lost_def ready_def)
    then have "b \<in> fl_first Y ` set (items slot ?ps)" using news[of g] by (auto simp: set_items)
    then show "b \<in> set ds" using b unfolding ds(4) R by blast
  qed
  show "stage L sh Y X' (sets_of Y (K \<union> R)) (E' \<union> sets_of Y R) (slot_entry L slot st3)" using ds(1) unfolding dsR .
  show "slot_threshold (highest_slot_seen st3) \<le> slot" using p1 deshred_highest[OF s3] st2(2) by (simp add: ingesting_def)
  have "ds = sorted_list_of_set R"
    using ds(3) dsR by (metis sorted_list_of_set.idem_if_sorted_distinct strict_sorted_iff)
  then show "filter (\<lambda>d. fst d = slot) (deshredded_entries st3) = map (\<lambda>b. (slot, es b, pl b)) (sorted_list_of_set R)"
    using ds(2) by simp
  show "(\<forall>p\<in>set (slot_fec_indexes_to_iterate st1). fst p = slot) \<longrightarrow> (k = 0 \<longleftrightarrow> (\<forall>f\<in>fl_sets Y - E. \<not> lost L sh Y X' f))"
  proof
    assume "\<forall>p\<in>set (slot_fec_indexes_to_iterate st1). fst p = slot"
    then have "k = 0 \<longleftrightarrow> (\<forall>f. (slot, f) \<in> set ?ps \<longrightarrow> \<not> lost L sh Y X' f)" using rec by simp
    then show "k = 0 \<longleftrightarrow> (\<forall>f\<in>fl_sets Y - E. \<not> lost L sh Y X' f)" using items todo by blast
  qed
qed

end
