(* ===== verification/Whole_Fec_Set.thy ===== *)
theory Whole_Fec_Set
  imports Slot_Call Example_Ledger
begin

text \<open>
  The end-to-end behaviour of \<^verbatim>\<open>reconstruct_shreds\<close> (\<^verbatim>\<open>proxy/src/deshred.rs\<close>) on the shreds of
  one slot: when for every FEC set all data shreds arrive, or any shreds that are enough to recover the
  rest, in any order, interleaved and with any repetitions, one call delivers the entries of all sets.
\<close>

section \<open>The slots a call touches\<close>

abbreviation tracked_slots :: "recon_state \<Rightarrow> u64 set" where
  "tracked_slots st \<equiv> dom (map_of (all_shreds st))"

lemma ingest_shred_slots:
  assumes "ledger_ok L" "recon_inv L st" "shred_ok L s" "ingest_shred L s st = Some st'"
  shows "tracked_slots st' = insert (shred_slot s) (tracked_slots st)"
    "\<forall>p\<in>set (slot_fec_indexes_to_iterate st'). p \<in> set (slot_fec_indexes_to_iterate st) \<or> fst p = shred_slot s"
proof -
  have "tracked_slots st' = insert (shred_slot s) (tracked_slots st) \<and>
    (\<forall>p\<in>set (slot_fec_indexes_to_iterate st'). p \<in> set (slot_fec_indexes_to_iterate st) \<or> fst p = shred_slot s)"
  proof (cases "accepts L s st")
    case True
    obtain v where "st' = (put_slot (shred_slot s) v st)
        \<lparr>slot_fec_indexes_to_iterate :=
            slot_fec_indexes_to_iterate st @ [(shred_slot s, shred_fec_set_index s)],
          highest_slot_seen := max (highest_slot_seen st) (shred_slot s)\<rparr>"
      using ingest_shred_accepted[OF assms(1-3) True] assms(4) by (metis option.inject)
    then show ?thesis by auto
  next
    case False
    then show ?thesis using ingest_shred_rejected[OF assms(1-3) False] assms(4) by auto
  qed
  then show "tracked_slots st' = insert (shred_slot s) (tracked_slots st)"
    "\<forall>p\<in>set (slot_fec_indexes_to_iterate st'). p \<in> set (slot_fec_indexes_to_iterate st) \<or> fst p = shred_slot s" by blast+
qed

interpretation ingest_slot: fallible_step "ingest_shred L"
  "\<lambda>st. recon_inv L st \<and> tracked_slots st \<subseteq> insert slot S \<and> (\<forall>p\<in>set (slot_fec_indexes_to_iterate st). fst p = slot)"
  "\<lambda>x. ledger_ok L \<and> shred_ok L x \<and> shred_slot x = slot" for L slot S
proof unfold_locales
  fix st x assume st: "recon_inv L st \<and> tracked_slots st \<subseteq> insert slot S \<and> (\<forall>p\<in>set (slot_fec_indexes_to_iterate st). fst p = slot)"
    and x: "ledger_ok L \<and> shred_ok L x \<and> shred_slot x = slot"
  then obtain st' where st': "ingest_shred L x st = Some st'" "recon_inv L st'" using ingest_shred_ok by blast
  moreover have "tracked_slots st' = insert slot (tracked_slots st) \<and>
      (\<forall>p\<in>set (slot_fec_indexes_to_iterate st'). p \<in> set (slot_fec_indexes_to_iterate st) \<or> fst p = slot)"
    using ingest_shred_slots[of L st x st'] st x st'(1) by simp
  ultimately show "\<exists>st'. ingest_shred L x st = Some st' \<and> recon_inv L st' \<and> tracked_slots st' \<subseteq> insert slot S \<and>
      (\<forall>p\<in>set (slot_fec_indexes_to_iterate st'). fst p = slot)" using st by blast
qed

lemma recover_slots:
  "foldM (recover_fec L) ps (st, n) = Some (st', n') \<Longrightarrow> tracked_slots st' \<subseteq> fst ` set ps \<union> tracked_slots st"
proof (induction ps arbitrary: st n)
  case Nil
  then show ?case by auto
next
  case (Cons p ps)
  then obtain st1 n1 where s1: "recover_fec L (fst p, snd p) (st, n) = Some (st1, n1)"
    "foldM (recover_fec L) ps (st1, n1) = Some (st', n')"
    by (auto split: Option.bind_splits)
  then show ?case using recover_fec_shape[OF s1(1)] Cons.IH[OF s1(2)] by auto
qed

lemma deshred_slots:
  "deshred_inv L st0 st \<Longrightarrow> foldM (deshred_fec L) ps st = Some st' \<Longrightarrow> tracked_slots st' \<subseteq> fst ` set ps \<union> tracked_slots st \<and>
     fst ` set (deshredded_entries st') \<subseteq> fst ` set ps \<union> fst ` set (deshredded_entries st)"
proof (induction ps arbitrary: st)
  case Nil
  then show ?case by auto
next
  case (Cons p ps)
  then obtain st1 where s1: "deshred_fec L (fst p, snd p) st = Some st1" "foldM (deshred_fec L) ps st1 = Some st'"
    by (auto split: Option.bind_splits)
  have "deshred_inv L st0 st1" using deshredding.step_SomeD[OF Cons.prems(1) _ s1(1)] by simp
  note IH = Cons.IH[OF this s1(2)]
  have "tracked_slots st1 = insert (fst p) (tracked_slots st)" using deshred_fec_shape[OF s1(1)] by auto
  moreover obtain ds where "deshredded_entries st1 = deshredded_entries st @ ds" "\<forall>d\<in>set ds. fst d = fst p"
    using deshred_fec_entries[OF _ s1(1)] Cons.prems(1) by (auto simp: deshred_inv_def)
  then have "fst ` set (deshredded_entries st1) \<subseteq> insert (fst p) (fst ` set (deshredded_entries st))"
    by (simp add: image_Un) blast
  ultimately show ?case using IH unfolding list.set image_insert by blast
qed

text \<open>A slot whose tracker stores something is tracked.\<close>

lemma stored_slot:
  assumes "data_shreds (tracker_of L slot st) ! j = Some s" "j < MAX_DATA_SHREDS_PER_SLOT L"
  shows "slot \<in> tracked_slots st"
  using assms by (cases "map_of (all_shreds st) slot") (auto simp: slot_entry_def or_default_def default_tracker_def)

section \<open>A whole call\<close>

lemma fresh_incomplete:
  assumes ok: "layout_ok L sh slot Y"
  shows "f \<in> fl_sets Y \<Longrightarrow> waiting Y {} f" "f \<in> fl_sets Y \<Longrightarrow> \<not> complete sh Y {} {} f"
    "b \<in> entry_batches Y \<Longrightarrow> \<exists>g\<in>batch_sets Y b. \<not> complete sh Y {} {} g"
proof -
  show "f \<in> fl_sets Y \<Longrightarrow> waiting Y {} f" for f
    using whole_range[OF layout_okD(2)[OF ok]] by (simp add: waiting_def of_fec_def Suc_diff_le)
  show part: "f \<in> fl_sets Y \<Longrightarrow> \<not> complete sh Y {} {} f" for f
    using whole_range[OF layout_okD(2)[OF ok]] by (simp add: complete_def full_set_def)
  show "b \<in> entry_batches Y \<Longrightarrow> \<exists>g\<in>batch_sets Y b. \<not> complete sh Y {} {} g"
    using layout_batch(1)[OF ok] part by (force simp: entry_batches_def batch_sets_def)
qed

lemma sets_of_all: "sets_of Y (entry_batches Y) = fl_sets Y"
  by (auto simp: sets_of_def entry_batches_def)

lemma layout_delivered:
  assumes L: "ledger_ok L" and inv: "recon_inv L st" and fresh: "map_of (all_shreds st) slot = None"
    and h: "slot_threshold (highest_slot_seen st) \<le> slot"
    and ok: "layout_ok L sh slot Y" and xs: "set xs \<subseteq> layout_shreds sh Y"
    and can: "\<forall>f\<in>fl_sets Y. full_set sh Y (set xs) f \<or> recoverable L sh Y (set xs) f"
    and pk: "map (decode_shred L) (List.map_filter (packet_data L) pkts) = map Inr xs"
    and dl: "decodable L sh Y pl es"
  obtains st3 k rep where
    "reconstruct_shreds L pkts st = Some (count_recovered k (evicted L st3), k, rep)"
    "recon_inv L st3" "k = 0 \<longleftrightarrow> (\<forall>f\<in>fl_sets Y. full_set sh Y (set xs) f)"
    "deshredded_entries st3 = map (\<lambda>b. (slot, es b, pl b)) (sorted_list_of_set (entry_batches Y))"
    "stage L sh Y (set xs) (fl_sets Y) (fl_sets Y) (slot_entry L slot st3)" "tracked_slots st3 \<subseteq> insert slot (tracked_slots st)"
    "slot_threshold (highest_slot_seen st3) \<le> slot"
proof -
  obtain st1 st2 st3 k rep where run: "stages L pkts st st1 st2 st3 k rep" using stages_exist[OF L inv] by blast
  then have s1: "foldM (ingest_packet L) (List.map_filter (packet_data L) pkts) (cleared st) = Some st1"
    and s2: "foldM (recover_fec L) (sort_dedup (slot_fec_indexes_to_iterate st1)) (sorted_todo st1, 0) = Some (st2, k)"
    and st2: "deshredded_entries st2 = []" "deshred_inv L st2 st2"
    and s3: "foldM (deshred_fec L) (sort_dedup (slot_fec_indexes_to_iterate st1)) st2 = Some st3"
    and res: "reconstruct_shreds L pkts st = Some (count_recovered k (evicted L st3), k, rep)" and inv3: "recon_inv L st3"
    by (simp_all add: stages_def deshred_inv_def)
  have sx: "shreds_of L pkts = xs" by (rule shreds_of_decoded[OF pk])
  have of_xs: "\<forall>x\<in>set xs. shred_ok L x \<and> shred_slot x = slot" using layout_member[OF ok] xs by blast
  then have own: "of_slot slot xs = set xs" by (auto simp: of_slot_def)
  have fit: "fits sh slot Y (shreds_of L pkts)" using xs of_xs slot_threshold_le unfolding sx fits_def own by simp
  let ?E = "{} \<union> {f \<in> fl_sets Y. lost L sh Y (set xs) f}"
  have old: "\<forall>f\<in>fl_sets Y. complete sh Y {} {} f \<or> waiting Y {} f"
    "\<forall>b\<in>entry_batches Y - {}. \<exists>g\<in>batch_sets Y b. \<not> complete sh Y {} {} g" using fresh_incomplete[OF ok] by blast+
  have dec: "\<forall>f\<in>fl_sets Y - {}. ready L sh Y (set xs) f \<or> waiting Y (set xs) f"
    "suffixes_fail L sh Y \<or> (\<forall>f\<in>fl_sets Y. ready L sh Y (set xs) f)" using can by (simp_all add: ready_def)
  have R: "entry_batches Y = {b \<in> entry_batches Y - {}. \<forall>g\<in>batch_sets Y b. complete sh Y (set xs) ?E g}"
    using can by (auto simp: complete_def lost_def batch_sets_def)
  have X': "set xs = {} \<union> of_slot slot (shreds_of L pkts)" by (simp add: sx own)
  note c = slot_call[where K = "{}" and E = "{}" and X = "{}", unfolded sets_of_simps(1),
      OF L ok inv empty_subsetI empty_subsetI codes_apart_empty stage_fresh[OF ok fresh] empty_subsetI h fit X' old dec dl run refl R,
      unfolded Un_empty_left Diff_empty]
  have k: "(\<forall>f\<in>fl_sets Y. \<not> lost L sh Y (set xs) f) \<longleftrightarrow> (\<forall>f\<in>fl_sets Y. full_set sh Y (set xs) f)"
    using can by (auto simp: lost_def)
  have all: "{f \<in> fl_sets Y. lost L sh Y (set xs) f} \<union> fl_sets Y = fl_sets Y" by blast
  have "recon_inv L (cleared st) \<and> tracked_slots (cleared st) \<subseteq> insert slot (tracked_slots st) \<and>
      (\<forall>p\<in>set (slot_fec_indexes_to_iterate (cleared st)). fst p = slot)"
    using recon_inv_cleared[OF inv] by (auto simp: cleared_def)
  then have t1: "tracked_slots st1 \<subseteq> insert slot (tracked_slots st)" "\<forall>p\<in>set (slot_fec_indexes_to_iterate st1). fst p = slot"
    using ingest_slot.run_inv[of L "cleared st" slot "tracked_slots st" xs st1] of_xs L s1
    unfolding foldM_ingest_shreds shreds_of_def[symmetric] sx by blast+
  then have todo: "fst ` set (sort_dedup (slot_fec_indexes_to_iterate st1)) \<subseteq> {slot}" by auto
  have t3: "tracked_slots st3 \<subseteq> insert slot (tracked_slots st)"
    using recover_slots[OF s2] deshred_slots[OF st2(2) s3] t1(1) todo unfolding sorted_todo_def by simp blast
  have "fst ` set (deshredded_entries st3) \<subseteq> {slot}" using deshred_slots[OF st2(2) s3] todo st2(1) by simp blast
  then have "\<forall>d\<in>set (deshredded_entries st3). fst d = slot" by blast
  then have "deshredded_entries st3 = map (\<lambda>b. (slot, es b, pl b)) (sorted_list_of_set (entry_batches Y))"
    using c(3) by (simp add: filter_id_conv)
  then show ?thesis using that[OF res inv3 _ _ _ t3] c(1,2,4) t1(2) unfolding sets_of_all all k by blast
qed

lemma layout_call:
  assumes "ledger_ok L" "recon_inv L st" "map_of (all_shreds st) slot = None"
    and "slot_threshold (highest_slot_seen st) \<le> slot"
    and "layout_ok L sh slot Y" "set xs \<subseteq> layout_shreds sh Y"
    and "\<forall>f\<in>fl_sets Y. full_set sh Y (set xs) f \<or> recoverable L sh Y (set xs) f"
    and "map (decode_shred L) (List.map_filter (packet_data L) pkts) = map Inr xs"
    and "decodable L sh Y pl es"
  shows "\<exists>st' k rep. reconstruct_shreds L pkts st = Some (st', k, rep) \<and>
     (k = 0 \<longleftrightarrow> (\<forall>f\<in>fl_sets Y. full_set sh Y (set xs) f)) \<and>
     deshredded_entries st' = map (\<lambda>b. (slot, es b, pl b)) (sorted_list_of_set (entry_batches Y))"
  by (rule layout_delivered[OF assms]) simp

text \<open>One set is a layout.\<close>

definition one_set :: "u32 \<Rightarrow> nat \<Rightarrow> shred set \<Rightarrow> u16 \<Rightarrow> fec_layout" where
  "one_set fec e codes m = \<lparr>fl_sets = {fec}, fl_end = (\<lambda>_. e), fl_codes = (\<lambda>_. codes), fl_num_codes = (\<lambda>_. m),
     fl_first = (\<lambda>_. fec), fl_stop = (\<lambda>_. e)\<rparr>"

lemma one_set_simps [simp]:
  "fl_sets (one_set fec e codes m) = {fec}" "fl_end (one_set fec e codes m) f = e"
  "fl_codes (one_set fec e codes m) f = codes" "fl_num_codes (one_set fec e codes m) f = m"
  "fl_first (one_set fec e codes m) f = fec" "fl_stop (one_set fec e codes m) f = e"
  "entry_batches (one_set fec e codes m) = {fec}"
  by (simp_all add: one_set_def entry_batches_def)

lemma one_set_ok:
  assumes "coded_fec_set L sh codes slot fec e m" "completes (sh e)"
  shows "layout_ok L sh slot (one_set fec e codes m)"
proof -
  have "whole_fec_set L sh slot fec e" using assms(1) by (simp add: coded_fec_set_def)
  then have "batch_ok sh (one_set fec e codes m) fec"
    using assms(2) whole_fec_setD(6) by (auto simp: batch_ok_def batch_sets_def)
  then show ?thesis using assms(1) by (simp add: layout_ok_def)
qed

lemma one_set_shreds: "layout_shreds sh (one_set fec e codes m) = sh ` {unat fec..e} \<union> codes"
  by (simp add: layout_shreds_def set_shreds_def)

lemma one_set_of_fec:
  assumes "coded_fec_set L sh codes slot fec e m" "X \<subseteq> sh ` {unat fec..e} \<union> codes"
  shows "of_fec X fec = X"
proof -
  have "whole_fec_set L sh slot fec e" using assms(1) by (simp add: coded_fec_set_def)
  then have "shred_fec_set_index x = fec" if "x \<in> sh ` {unat fec..e} \<union> codes" for x
    using that assms(1) whole_fec_setD(4) by (auto simp: coded_fec_set_def)
  then show ?thesis using assms(2) by (auto simp: of_fec_def)
qed

lemma uncoded: "whole_fec_set L sh slot fec e \<Longrightarrow> coded_fec_set L sh {} slot fec e 0"
  by (simp add: coded_fec_set_def)

text \<open>A batch that holds every data shred of an FEC set of a slot not seen yet, in any order
and with any repetitions, is delivered by that one call, as exactly one item and without recovery,
provided the slot is not too old and the payloads deshred and deserialize.\<close>

theorem complete_fec_set_delivered:
  assumes L: "ledger_ok L" and inv: "recon_inv L st" and fresh: "map_of (all_shreds st) slot = None"
    and h: "slot_threshold (highest_slot_seen st) \<le> slot"
    and w: "whole_fec_set L sh slot fec e" "completes (sh e)"
    and js: "set js = {unat fec..e}"
    and pk: "map (decode_shred L) (List.map_filter (packet_data L) pkts) = map (Inr \<circ> sh) js"
    and dl: "deshred L (map (\<lambda>j. shred_payload (sh j)) [unat fec..<Suc e]) = Inr payload"
    and es: "deserialize_entries L payload = Inr es"
  shows "\<exists>st' rep. reconstruct_shreds L pkts st = Some (st', 0, rep) \<and>
     deshredded_entries st' = [(slot, es, payload)]"
proof -
  let ?Y = "one_set fec e {} 0"
  have full: "full_set sh ?Y (set (map sh js)) fec" using js by (simp add: full_set_def)
  have sub: "set (map sh js) \<subseteq> layout_shreds sh ?Y" using js by (simp add: one_set_shreds)
  show ?thesis
    using layout_call[OF L inv fresh h one_set_ok[OF uncoded[OF w(1)] w(2)] sub _ pk[folded List.map.compositionality],
        of "\<lambda>_. payload" "\<lambda>_. es"] full dl es by (simp del: upt_Suc)
qed

definition ex_piece :: "nat \<Rightarrow> bytes" where
  "ex_piece j = [0, 9, of_nat j, 0, if j = 1 then 1 else 0, 11 + of_nat j, 21]"

lemma ex_whole: "whole_fec_set ex_ledger (ex_data \<circ> ex_piece) 9 0 1"
  by (auto simp: whole_fec_set_def ex_data_def ex_piece_def ex_header_def ex_ledger_def unat_ucast_8_32
      le_Suc_eq)

theorem complete_fec_set_delivered_witness:
  "\<exists>st' rep. reconstruct_shreds ex_ledger (map (ex_packet \<circ> ex_piece) [1, 0, 1]) (initial_recon True)
       = Some (st', 0, rep) \<and>
     deshredded_entries st' = [(9, [\<lparr>transactions = [[11],[21],[12],[21]]\<rparr>], [11,21,12,21])]"
  by (rule complete_fec_set_delivered[OF ex_ledger_ok recon_inv_initial _ _ ex_whole, of _ "[1, 0, 1]"])
    (code_simp, code_simp, code_simp, auto, code_simp, code_simp, code_simp)

end
