(* ===== verification/Recovered_Fec_Set.thy ===== *)
theory Recovered_Fec_Set
  imports Whole_Fec_Set
begin

text \<open>
  The end-to-end guarantees of \<^verbatim>\<open>reconstruct_shreds\<close> (\<^verbatim>\<open>proxy/src/deshred.rs\<close>) when shreds were
  lost: one FEC set recovered from a part of it, and a batch with shreds of several FEC sets.
\<close>

text \<open>Lost data shreds are made up for by coding shreds: a batch with any shreds of an FEC set of a slot
not seen yet that are at least as many as the set has data shreds, in any order and with any
repetitions, is delivered by that one call as exactly one item with the entries of the whole set, and
the recovered shreds are counted, provided erasure coding recovers the missing ones, the slot is not
too old, and the payloads deshred and deserialize.\<close>

theorem recovered_fec_set_delivered:
  assumes L: "ledger_ok L" and inv: "recon_inv L st" and fresh: "map_of (all_shreds st) slot = None"
    and h: "slot_threshold (highest_slot_seen st) \<le> slot"
    and c: "coded_fec_set L sh codes slot fec e m" "completes (sh e)" and er: "erasure_ok L sh codes fec e"
    and xs: "set xs \<subseteq> sh ` {unat fec..e} \<union> codes" "Suc e - unat fec \<le> card (set xs)"
    and lost: "j \<in> {unat fec..e}" "sh j \<notin> set xs"
    and pk: "map (decode_shred L) (List.map_filter (packet_data L) pkts) = map Inr xs"
    and dl: "deshred L (map (\<lambda>j. shred_payload (sh j)) [unat fec..<Suc e]) = Inr payload"
    and es: "deserialize_entries L payload = Inr es"
  shows "\<exists>st' k rep. reconstruct_shreds L pkts st = Some (st', k, rep) \<and> 0 < k \<and>
     deshredded_entries st' = [(slot, es, payload)]"
proof -
  let ?Y = "one_set fec e codes m"
  have can: "recoverable L sh ?Y (set xs) fec" using er xs(2) one_set_of_fec[OF c(1) xs(1)] by (simp add: recoverable_def)
  have part: "\<not> full_set sh ?Y (set xs) fec" using lost unfolding full_set_def by (auto simp: image_subset_iff)
  have sub: "set xs \<subseteq> layout_shreds sh ?Y" using xs(1) by (simp add: one_set_shreds)
  show ?thesis
    using layout_call[OF L inv fresh h one_set_ok[OF c] sub _ pk, of "\<lambda>_. payload" "\<lambda>_. es"]
      can part dl es by (simp del: upt_Suc)
qed

text \<open>A set of one data shred and one coding shred; only the latter arrives.\<close>

definition ex_parity :: bytes where
  "ex_parity = [1, 9, 1, 0, 1, 13, 14]"

definition ex_lost :: "nat \<Rightarrow> shred" where
  "ex_lost = (case ex_code ex_parity of ShredCode c \<Rightarrow> ex_recovered c)"

lemma ex_coded: "coded_fec_set ex_ledger ex_lost {ex_code ex_parity} 9 0 0 1"
  by (auto simp: coded_fec_set_def whole_fec_set_def ex_lost_def ex_recovered_def ex_code_def ex_parity_def
      ex_header_def ex_ledger_def)

lemma distinct_of_two:
  assumes "distinct xs" "set xs \<subseteq> {a, b}" "b \<in> set xs"
  shows "xs = [b] \<or> xs = [b, a] \<or> xs = [a, b]"
proof -
  have "length xs \<le> card {a, b}" using assms(1,2) by (metis card_mono distinct_card finite.emptyI finite.insertI)
  also have "\<dots> \<le> 2" by (simp add: card_insert_if)
  finally have "length xs = 0 \<or> length xs = 1 \<or> length xs = 2" by linarith
  then obtain x y where "xs = [] \<or> xs = [x] \<or> xs = [x, y]"
    by (auto simp: length_Suc_conv numeral_2_eq_2)
  then show ?thesis using assms by auto
qed

lemma one_lost_erasure:
  assumes e: "unat fec = e" and one: "recover L [c] = Inr [Inr (sh e)]"
    and two: "recover L [c, sh e] = Inr []" "recover L [sh e, c] = Inr []"
  shows "erasure_ok L sh {c} fec e"
proof -
  let ?l = "sh e"
  have "\<exists>rs. recover L xs = Inr rs \<and> (?l \<notin> set xs \<longrightarrow> Inr ?l \<in> set rs) \<and>
      (\<forall>s. Inr s \<in> set rs \<longrightarrow> is_data s \<longrightarrow> s = ?l)"
    if xs: "distinct xs" "set xs \<subseteq> {?l, c}" "c \<in> set xs" for xs
  proof -
    have "xs = [c] \<or> xs = [c, ?l] \<or> xs = [?l, c]" by (rule distinct_of_two[OF xs])
    then show ?thesis using one two by auto
  qed
  then show ?thesis using e by (auto simp: erasure_ok_def)
qed

lemma ex_erasure: "erasure_ok ex_ledger ex_lost {ex_code ex_parity} 0 0"
  by (rule one_lost_erasure) (simp, code_simp, code_simp, code_simp)

theorem recovered_fec_set_delivered_witness:
  "\<exists>st' k rep. reconstruct_shreds ex_ledger [ex_packet ex_parity, ex_packet ex_parity] (initial_recon True)
       = Some (st', k, rep) \<and> 0 < k \<and>
     deshredded_entries st' = [(9, [\<lparr>transactions = [[13],[14]]\<rparr>], [13,14])]"
  by (rule recovered_fec_set_delivered[OF ex_ledger_ok recon_inv_initial _ _ ex_coded _ ex_erasure,
        of _ "[ex_code ex_parity, ex_code ex_parity]" 0])
    (code_simp, code_simp, code_simp, simp, simp, simp, code_simp, code_simp, code_simp, code_simp)

text \<open>C5: A packet batch with shreds of any number of FEC sets of a slot not seen yet, in any order, interleaved
and repeated, is delivered by that one call: one item per entry batch, which may span several FEC sets, in
the order of the batches, with its entries, when of each set all data shreds are there, or as many
different shreds as the set has data shreds and erasure coding recovers the rest. Recovered shreds are
counted exactly when a set was not complete. The slot must not be too old, and the payloads of each
entry batch deshred and deserialize.\<close>

theorem fec_sets_delivered:
  assumes "ledger_ok L" "recon_inv L st" "map_of (all_shreds st) slot = None"
    and "slot_threshold (highest_slot_seen st) \<le> slot"
    and "layout_ok L sh slot Y" "set xs \<subseteq> layout_shreds sh Y"
    and "\<forall>f\<in>fl_sets Y. full_set sh Y (set xs) f \<or> recoverable L sh Y (set xs) f"
    and "map (decode_shred L) (List.map_filter (packet_data L) pkts) = map Inr xs"
    and "decodable L sh Y pl es"
  shows "\<exists>st' k rep. reconstruct_shreds L pkts st = Some (st', k, rep) \<and>
     (k = 0 \<longleftrightarrow> (\<forall>f\<in>fl_sets Y. full_set sh Y (set xs) f)) \<and>
     deshredded_entries st' = map (\<lambda>b. (slot, es b, pl b)) (sorted_list_of_set (entry_batches Y))"
  by (rule layout_call[OF assms])

text \<open>
  Two entry batches: the set of index 0; and the set of indices 1 and 2 with the set of the lost index 3, of
  which there is a coding shred. Payloads that begin with 0 do not deserialize.
\<close>

definition ex_parity2 :: bytes where
  "ex_parity2 = [1, 9, 3, 3, 1, 0, 24]"

definition ex_piece2 :: "nat \<Rightarrow> bytes" where
  "ex_piece2 j = (if j = 0 then [0, 9, 0, 0, 1, 11, 12] else if j = 1 then [0, 9, 1, 1, 0, 21, 22] else [0, 9, 2, 1, 0, 0, 23])"

definition ex_slot :: "nat \<Rightarrow> shred" where
  "ex_slot j = (if j < 3 then ex_data (ex_piece2 j)
     else case ex_code ex_parity2 of ShredCode c \<Rightarrow> ex_recovered c (j - 3))"

definition ex_layout :: fec_layout where
  "ex_layout = \<lparr>fl_sets = {0, 1, 3}, fl_end = (\<lambda>f. if f = 0 then 0 else if f = 1 then 2 else 3),
     fl_codes = (\<lambda>f. if f = 3 then {ex_code ex_parity2} else {}), fl_num_codes = (\<lambda>f. if f = 3 then 1 else 0),
     fl_first = (\<lambda>f. if f = 0 then 0 else 1), fl_stop = (\<lambda>f. if f = 0 then 0 else 3)\<rparr>"

lemma ex_layout_sets:
  "entry_batches ex_layout = {0, 1}" "batch_sets ex_layout 0 = {0}" "batch_sets ex_layout 1 = {1, 3}"
  by (auto simp: entry_batches_def batch_sets_def ex_layout_def)

lemma ex_layout_simps:
  "fl_sets ex_layout = {0, 1, 3}" "fl_first ex_layout 0 = 0" "fl_first ex_layout 1 = 1" "fl_first ex_layout 3 = 1"
  "fl_stop ex_layout 0 = 0" "fl_stop ex_layout 1 = 3" "fl_end ex_layout 0 = 0" "fl_end ex_layout 1 = 2" "fl_end ex_layout 3 = 3"
  by (simp_all add: ex_layout_def)

lemma ex_slot_completes: "completes (ex_slot 0)" "\<not> completes (ex_slot 1)" "\<not> completes (ex_slot 2)" "completes (ex_slot 3)"
  by code_simp+

lemma ex_layout_ok: "layout_ok ex_ledger ex_slot 9 ex_layout"
proof -
  have "whole_fec_set ex_ledger ex_slot 9 0 0"
    by (auto simp: whole_fec_set_def ex_slot_def ex_data_def ex_piece2_def ex_header_def ex_ledger_def)
  then have c0: "coded_fec_set ex_ledger ex_slot {} 9 0 0 0" by (rule uncoded)
  have mid: "j = 1 \<or> j = 2" if "1 \<le> j" "j \<le> 2" for j :: nat using that by linarith
  have "is_data (ex_slot j) \<and> shred_ok ex_ledger (ex_slot j) \<and> shred_slot (ex_slot j) = 9 \<and> shred_fec_set_index (ex_slot j) = 1 \<and>
      unat (shred_index (ex_slot j)) = j" if "j = 1 \<or> j = 2" for j
    using that by (auto simp: ex_slot_def ex_data_def ex_piece2_def ex_header_def ex_ledger_def)
  moreover have "completes (ex_slot j) \<longrightarrow> j = 2" if "j = 1 \<or> j = 2" for j using that ex_slot_completes by auto
  moreover have "MAX_DATA_SHREDS_PER_SLOT ex_ledger = 4" by (simp add: ex_ledger_def)
  ultimately have "whole_fec_set ex_ledger ex_slot 9 1 2" using mid by (simp add: whole_fec_set_def)
  then have c1: "coded_fec_set ex_ledger ex_slot {} 9 1 2 0" by (rule uncoded)
  have c3: "coded_fec_set ex_ledger ex_slot {ex_code ex_parity2} 9 3 3 1"
    by (auto simp: coded_fec_set_def whole_fec_set_def ex_slot_def ex_recovered_def ex_code_def ex_parity2_def
        ex_header_def ex_ledger_def)
  have "{1..3} = {1..2} \<union> {3..3 :: nat}" by auto
  moreover have "\<forall>j\<in>{1..2}. completes (ex_slot j) \<longleftrightarrow> j = 3" using mid ex_slot_completes by force
  ultimately have "batch_ok ex_slot ex_layout 0" "batch_ok ex_slot ex_layout 1" "batch_ok ex_slot ex_layout 3"
    using ex_slot_completes by (simp_all add: batch_ok_def ex_layout_simps ex_layout_sets)
  then show ?thesis using c0 c1 c3 by (auto simp: layout_ok_def ex_layout_def)
qed

lemma ex_erasure2: "erasure_ok ex_ledger ex_slot {ex_code ex_parity2} 3 3"
  by (rule one_lost_erasure) (simp, code_simp, code_simp, code_simp)

abbreviation ex_pl :: "u32 \<Rightarrow> bytes" where
  "ex_pl b \<equiv> if b = 0 then [11,12] else [21,22,0,23,0,24]"

lemma ex_decodable: "decodable ex_ledger ex_slot ex_layout ex_pl (\<lambda>b. [\<lparr>transactions = map (\<lambda>b. [b]) (ex_pl b)\<rparr>])"
proof -
  have "deshred ex_ledger (map (\<lambda>j. shred_payload (ex_slot j)) [unat (0 :: u32)..<Suc 0]) = Inr [11,12]"
    "deshred ex_ledger (map (\<lambda>j. shred_payload (ex_slot j)) [unat (1 :: u32)..<Suc 3]) = Inr [21,22,0,23,0,24]"
    "deserialize_entries ex_ledger [11,12] = Inr [\<lparr>transactions = [[11],[12]]\<rparr>]"
    "deserialize_entries ex_ledger [21,22,0,23,0,24] = Inr [\<lparr>transactions = [[21],[22],[0],[23],[0],[24]]\<rparr>]" by code_simp+
  then show ?thesis unfolding ex_layout_sets by (simp add: ex_layout_def del: upt_Suc)
qed

theorem fec_sets_delivered_witness:
  "\<exists>st' k rep. reconstruct_shreds ex_ledger (map ex_packet [ex_parity2, ex_piece2 2, ex_piece2 1, ex_parity2, ex_piece2 0])
       (initial_recon True) = Some (st', k, rep) \<and> k \<noteq> 0 \<and>
     deshredded_entries st' = [(9, [\<lparr>transactions = [[11],[12]]\<rparr>], [11,12]),
       (9, [\<lparr>transactions = [[21],[22],[0],[23],[0],[24]]\<rparr>], [21,22,0,23,0,24])]"
proof -
  let ?xs = "[ex_code ex_parity2, ex_slot 2, ex_slot 1, ex_code ex_parity2, ex_slot 0]"
  have sub: "set ?xs \<subseteq> layout_shreds ex_slot ex_layout" by (auto simp: layout_shreds_def set_shreds_def ex_layout_def)
  have full: "full_set ex_slot ex_layout (set ?xs) 0" "full_set ex_slot ex_layout (set ?xs) 1"
    by (auto simp: full_set_def ex_layout_def numeral_2_eq_2 le_Suc_eq)
  have "ex_slot 3 \<notin> set ?xs" by code_simp
  then have part: "\<not> full_set ex_slot ex_layout (set ?xs) 3" by (auto simp: full_set_def ex_layout_def)
  have "of_fec (set ?xs) 3 = {ex_code ex_parity2}"
    by (auto simp: of_fec_def ex_slot_def ex_data_def ex_piece2_def ex_code_def ex_parity2_def ex_header_def)
  then have rec: "recoverable ex_ledger ex_slot ex_layout (set ?xs) 3"
    using ex_erasure2 by (simp add: recoverable_def ex_layout_def)
  have can: "\<forall>f\<in>fl_sets ex_layout. full_set ex_slot ex_layout (set ?xs) f \<or> recoverable ex_ledger ex_slot ex_layout (set ?xs) f"
    using full rec by (simp add: ex_layout_def)
  have fs: "sorted_list_of_set (entry_batches ex_layout) = [0, 1]" by (simp add: ex_layout_sets)
  have not_all: "\<not> (\<forall>f\<in>fl_sets ex_layout. full_set ex_slot ex_layout (set ?xs) f)" using part by (simp add: ex_layout_def)
  have "map_of (all_shreds (initial_recon True)) 9 = None" "slot_threshold (highest_slot_seen (initial_recon True)) \<le> 9"
    "map (decode_shred ex_ledger) (List.map_filter (packet_data ex_ledger)
       (map ex_packet [ex_parity2, ex_piece2 2, ex_piece2 1, ex_parity2, ex_piece2 0])) = map Inr ?xs" by code_simp+
  from fec_sets_delivered[OF ex_ledger_ok recon_inv_initial this(1,2) ex_layout_ok sub can this(3) ex_decodable]
  show ?thesis unfolding fs using not_all by (simp only: not_all simp_thms) simp
qed

end
