(* ===== verification/Deshred_Props.thy ===== *)
theory Deshred_Props
  imports Recovered_Fec_Set
begin

text \<open>
  More properties of \<^verbatim>\<open>proxy/src/deshred.rs\<close>: the segment search, the hash set of shreds
  as a set of identities, progress across calls, eviction, and what a call counts; and
  concrete runs that show where FEC sets are given up.
\<close>

section \<open>Segments\<close>

text \<open>C16: On a well-formed tracker the search for a segment terminates without an out-of-bounds access, and
finds exactly the declared segment around an index: the unique run that contains the index, ends at
the first DataComplete at or after it, holds only NotDataComplete before, is not delivered yet, and
starts at the slot start, right after a DataComplete, or right after an Unknown (flagged); it
returns none exactly when there is no such run.\<close>

theorem get_indexes_spec:
  assumes "wf_tracker L t"
  shows "\<exists>r. get_indexes t i = Some r \<and> (\<forall>s e u. r = Some (s, e, u) \<longleftrightarrow> is_segment t i s e u) \<and>
     (r = None \<longleftrightarrow> (\<nexists>s e u. is_segment t i s e u))"
proof -
  note sl = wf_same_lengths[OF assms]
  obtain r where r: "get_indexes t i = Some r" using get_indexes_total[OF sl] by blast
  have iff: "r = Some (s, e, u) \<longleftrightarrow> is_segment t i s e u" for s e u
    unfolding get_indexes_iff[OF sl, symmetric] r by simp
  then have "r = None \<longleftrightarrow> (\<nexists>s e u. is_segment t i s e u)" by (metis not_None_eq prod_cases3)
  then show ?thesis using r iff by blast
qed

theorem get_indexes_spec_witness:
  "\<exists>r. get_indexes (default_tracker ex_ledger) 2 = Some r \<and>
     (r = None \<longleftrightarrow> (\<nexists>s e u. is_segment (default_tracker ex_ledger) 2 s e u))"
  using get_indexes_spec[OF wf_default_tracker[of ex_ledger], of 2] by blast

section \<open>The shreds of a FEC set\<close>

text \<open>The key by which a shred is identified.\<close>

definition shred_identity ::
  "ledger \<Rightarrow> shred \<Rightarrow> (shred_common_header \<times> (coding_shred_header + bytes)) \<times> (err + bytes)" where
  "shred_identity L s = (hash_input s, compared_payload L s)"

text \<open>C23: The hash set of shreds refines a set of identities: on sanitized shreds insertion never panics,
adds the identity of the shred and no other, keeps the elements pairwise different, and grows the
set by one element exactly when the identity is new.\<close>

theorem shred_set_refines:
  assumes "shred_ok L x" "\<forall>y\<in>set ys. shred_ok L y" "distinct (map (shred_identity L) ys)"
  shows "\<exists>ys'. hs_insert (comparable_eq L) x ys = Some ys' \<and>
     shred_identity L ` set ys' = insert (shred_identity L x) (shred_identity L ` set ys) \<and>
     distinct (map (shred_identity L) ys') \<and>
     length ys' = (if shred_identity L x \<in> shred_identity L ` set ys then length ys else Suc (length ys))"
proof -
  have eq: "comparable_eq L x y = Some True \<longleftrightarrow> shred_identity L x = shred_identity L y" if "y \<in> set ys" for y
    using comparable_eq_iff[OF assms(1)] assms(2) that by (auto simp: shred_identity_def)
  have "hs_member (comparable_eq L) x ys = Some (shred_identity L x \<in> shred_identity L ` set ys)"
    using shred_key.member_eq[OF assms(1,2)] eq by auto
  then show ?thesis using assms(3) by (auto simp: hs_insert_def)
qed

theorem shred_set_refines_witness:
  "\<exists>ys'. hs_insert (comparable_eq ex_ledger) (ex_data (ex_piece 0)) [ex_data (ex_piece 0), ex_data (ex_piece 1)] = Some ys'
     \<and> length ys' = 2"
proof -
  have ok: "shred_ok ex_ledger (ex_data (ex_piece j))" if "j \<le> 1" for j
    using whole_fec_setD(2)[OF ex_whole, of j] that by simp
  have d: "distinct (map (shred_identity ex_ledger) [ex_data (ex_piece 0), ex_data (ex_piece 1)])"
    by (simp add: shred_identity_def ex_data_def ex_piece_def ex_header_def)
  from shred_set_refines[OF ok[of 0] _ d] show ?thesis using ok[of 0] ok[of 1] by auto
qed

section \<open>Progress\<close>

text \<open>C27: A call never loses progress: for every slot it still tracks afterwards, all data shreds that
were stored are still stored unchanged, every delivered index and every completed FEC set is still
marked; the highest slot seen never decreases.\<close>

theorem progress_kept:
  assumes L: "ledger_ok L" and inv: "recon_inv L st"
    and r: "reconstruct_shreds L pkts st = Some (st', n, rep)"
    and slot: "slot \<in> dom (map_of (all_shreds st'))"
  shows "tracker_le L (tracker_of L slot st) (tracker_of L slot st') \<and> highest_slot_seen st \<le> highest_slot_seen st'"
proof -
  obtain st1 st2 st3 k rep' where "stages L pkts st st1 st2 st3 k rep'" using stages_exist[OF L inv] by blast
  then have le: "recon_le L st st1" "recon_le L st1 st2" and d3: "deshred_inv L st2 st3"
    and res: "st' = count_recovered k (evicted L st3)"
    using r by (simp_all add: stages_def)
  have le3: "recon_le L st st3" and inv3: "recon_inv L st3"
    using d3 recon_le_trans[OF recon_le_trans[OF le]] by (auto simp: deshred_inv_def)
  have "tracker_of L slot st' = tracker_of L slot st3"
    using slot_entry_evicted[OF inv3] slot by (simp add: res)
  then show ?thesis using le3 by (simp add: recon_le_def res)
qed

theorem progress_kept_witness:
  "\<exists>st' n rep. reconstruct_shreds ex_ledger (map ex_packet [[0,9,0,0,0,11,12],[1,9,1,0,2,13,14]]) (initial_recon False)
       = Some (st', n, rep) \<and> tracker_le ex_ledger (tracker_of ex_ledger 9 (initial_recon False)) (tracker_of ex_ledger 9 st')"
proof -
  obtain st' n rep where r: "reconstruct_shreds ex_ledger
      (map ex_packet [[0,9,0,0,0,11,12],[1,9,1,0,2,13,14]]) (initial_recon False) = Some (st', n, rep)"
    and d: "map fst (all_shreds st') = [9]"
    using ex_batch_run by auto
  have "9 \<in> dom (map_of (all_shreds st'))"
    using d by (simp add: dom_map_of_conv_image_fst flip: list.set_map)
  from progress_kept[OF ex_ledger_ok recon_inv_initial r this] show ?thesis using r by blast
qed

section \<open>Eviction\<close>

lemma missed_fec_sets_length:
  "missed_fec_sets L t fecs = Some ms \<Longrightarrow>
   length ms = length [x \<leftarrow> fecs. \<not> already_recovered_fec_sets t ! unat (fst x)]"
  by (induction fecs arbitrary: ms) (auto simp: vec_get_def split: if_splits Option.bind_splits)

text \<open>The FEC sets of slots below the threshold that never completed.\<close>

definition lost_fec_sets :: "u64 \<Rightarrow> (u64 \<times> slot_state) list \<Rightarrow> (u64 \<times> u32) list" where
  "lost_fec_sets th m = concat (map (\<lambda>(slot, (fecs, t)). if th \<le> slot then [] else
     map (\<lambda>x. (slot, fst x)) [x \<leftarrow> fecs. \<not> already_recovered_fec_sets t ! unat (fst x)]) m)"

lemma collect_missed_count:
  "collect_missed L th m = Some ms \<Longrightarrow> sum_list (map (length \<circ> snd) ms) = length (lost_fec_sets th m)"
proof (induction m arbitrary: ms)
  case Nil
  then show ?case by (simp add: lost_fec_sets_def)
next
  case (Cons x m)
  obtain slot fecs t where x: "x = (slot, (fecs, t))" by (metis surj_pair)
  show ?case
  proof (cases "th \<le> slot")
    case True
    then show ?thesis using Cons by (simp add: x lost_fec_sets_def)
  next
    case False
    then obtain ls others where ls: "missed_fec_sets L t fecs = Some ls" "collect_missed L th m = Some others"
      "ms = (if ls = [] then others else (slot, ls) # others)"
      using Cons.prems by (auto simp: x split: Option.bind_splits)
    then show ?thesis using Cons.IH[OF ls(2)] missed_fec_sets_length[OF ls(1)] False
      by (auto simp: x lost_fec_sets_def)
  qed
qed

text \<open>C28: Eviction is exact: it happens only when more slots are tracked than the limit, then removes exactly
the slots more than the lookback behind the highest slot seen and touches no other; the data point
it emits counts exactly the FEC sets that are lost with them, and none is emitted when none is.\<close>

theorem eviction_exact:
  assumes inv: "recon_inv L st" and ev: "evict_old_slots L st = Some (st', rep)"
  shows "map_of (all_shreds st') slot =
       (if MAX_PROCESSING_AGE L < length (all_shreds st) \<and> slot < slot_threshold (highest_slot_seen st)
        then None else map_of (all_shreds st) slot) \<and>
     (case rep of
        None \<Rightarrow> MAX_PROCESSING_AGE L < length (all_shreds st) \<longrightarrow>
          lost_fec_sets (slot_threshold (highest_slot_seen st)) (all_shreds st) = []
      | Some (sets, slots, fec_count) \<Rightarrow> MAX_PROCESSING_AGE L < length (all_shreds st) \<and> slots = length sets \<and>
          0 < fec_count \<and>
          fec_count = length (lost_fec_sets (slot_threshold (highest_slot_seen st)) (all_shreds st)))"
proof -
  have st': "st' = evicted L st" using evict_old_slots_total[OF inv] ev by auto
  let ?th = "slot_threshold (highest_slot_seen st)"
  have "case rep of None \<Rightarrow> MAX_PROCESSING_AGE L < length (all_shreds st) \<longrightarrow> lost_fec_sets ?th (all_shreds st) = []
      | Some (sets, slots, k) \<Rightarrow> MAX_PROCESSING_AGE L < length (all_shreds st) \<and> slots = length sets \<and> 0 < k \<and>
          k = length (lost_fec_sets ?th (all_shreds st))"
  proof (cases "MAX_PROCESSING_AGE L < length (all_shreds st)")
    case True
    then obtain ms where ms: "collect_missed L ?th (all_shreds st) = Some ms" "rep = missed_report_of ms"
      using ev by (auto simp: evict_old_slots_def Let_def split: Option.bind_splits)
    show ?thesis using collect_missed_count[OF ms(1)] True
      by (auto simp: ms(2) missed_report_of_def Let_def)
  next
    case False
    then show ?thesis using ev by (auto simp: evict_old_slots_def)
  qed
  then show ?thesis using evicted_lookup[OF inv] by (simp add: st')
qed

lemma ex_evict_run:
  "map_option (\<lambda>(st, n, rep). (highest_slot_seen st, map fst (all_shreds st)))
     (reconstruct_shreds ex_ledger (map ex_packet [[0,9,0,0,0,11,12],[0,100,0,0,0,11,12],[0,101,0,0,0,1,2]])
       (initial_recon False)) = Some (101, [100, 101])"
  by code_simp

lemma evict_after_stages:
  assumes "ledger_ok L" "recon_inv L st" "reconstruct_shreds L pkts st = Some (st', n, rep)"
  shows "\<exists>st3. recon_inv L st3 \<and> evict_old_slots L st3 = Some (evicted L st3, rep)
     \<and> all_shreds st' = all_shreds (evicted L st3) \<and> highest_slot_seen st' = highest_slot_seen st3"
proof -
  obtain st1 st2 st3 k rep' where "stages L pkts st st1 st2 st3 k rep'" using stages_exist[OF assms(1,2)] by blast
  then show ?thesis using assms(3) by (auto simp: stages_def deshred_inv_def intro!: exI[of _ st3])
qed

theorem eviction_exact_witness:
  "\<exists>st st' rep. evict_old_slots ex_ledger st = Some (st', rep) \<and> map_of (all_shreds st') 9 = None \<and>
     highest_slot_seen st = 101"
proof -
  obtain st' n rep where r: "reconstruct_shreds ex_ledger
       (map ex_packet [[0,9,0,0,0,11,12],[0,100,0,0,0,11,12],[0,101,0,0,0,1,2]]) (initial_recon False) = Some (st', n, rep)"
    and h: "highest_slot_seen st' = 101" "map fst (all_shreds st') = [100, 101]"
    using ex_evict_run by auto
  obtain st3 where st3: "recon_inv ex_ledger st3" "evict_old_slots ex_ledger st3 = Some (evicted ex_ledger st3, rep)"
      "all_shreds st' = all_shreds (evicted ex_ledger st3)" "highest_slot_seen st' = highest_slot_seen st3"
    using evict_after_stages[OF ex_ledger_ok recon_inv_initial r] by blast
  have "9 \<notin> fst ` set (all_shreds (evicted ex_ledger st3))"
    using h(2) unfolding st3(3) list.set_map[symmetric] by simp
  then have "map_of (all_shreds (evicted ex_ledger st3)) 9 = None" by (simp add: map_of_eq_None_iff)
  moreover have "map_of (all_shreds (evicted ex_ledger st3)) 9 =
      (if MAX_PROCESSING_AGE ex_ledger < length (all_shreds st3) \<and> 9 < slot_threshold (highest_slot_seen st3)
       then None else map_of (all_shreds st3) 9)"
    using eviction_exact[OF st3(1,2), of 9] by (rule conjunct1)
  ultimately show ?thesis using st3(2) st3(4)[symmetric] h(1) by (intro exI[of _ st3] exI[of _ "evicted ex_ledger st3"] exI[of _ rep]) simp
qed

text \<open>The debugging aid lists the same FEC sets as an eviction of everything would, and keeps them.\<close>

lemma remaining_as_missed: "\<forall>x\<in>set m. fst x < th \<Longrightarrow> remaining_fec_sets L m = collect_missed L th m"
  by (induction m) (auto simp: not_le[symmetric])

lemma debug_remaining_total:
  assumes "recon_inv L st"
  shows "debug_remaining_shreds L (all_shreds st) \<noteq> None"
proof -
  have "\<forall>(slot, v)\<in>set m. slot_ok L slot v \<Longrightarrow> remaining_fec_sets L m \<noteq> None" for m
  proof (induction m)
    case (Cons x m)
    obtain slot fecs t where x: "x = (slot, (fecs, t))" by (metis surj_pair)
    obtain ms where "missed_fec_sets L t fecs = Some ms"
      using slot_ok_missed_total[of L slot fecs t] Cons.prems by (auto simp: x)
    then show ?case using Cons by (auto simp: x)
  qed simp
  moreover have "\<forall>(slot, v)\<in>set (all_shreds st). slot_ok L slot v"
    using assms by (auto simp: recon_inv_def alist_ok_def dest!: map_of_is_SomeI)
  ultimately show ?thesis by (simp add: debug_remaining_shreds_def)
qed

section \<open>Counting\<close>

definition entries_of :: "(u64 \<times> entry list \<times> bytes) list \<Rightarrow> u64" where
  "entries_of ds = sum_list (map (\<lambda>(_, es, _). of_nat (length es)) ds)"

definition txns_of :: "(u64 \<times> entry list \<times> bytes) list \<Rightarrow> u64" where
  "txns_of ds = sum_list (map (\<lambda>(_, es, _). sum_list (map (\<lambda>e. of_nat (length (transactions e))) es)) ds)"

definition same_balance :: "recon_state \<Rightarrow> recon_state \<Rightarrow> bool" where
  "same_balance st st' \<longleftrightarrow>
     entry_count (rc_metrics st') - entries_of (deshredded_entries st') =
       entry_count (rc_metrics st) - entries_of (deshredded_entries st) \<and>
     txn_count (rc_metrics st') - txns_of (deshredded_entries st') =
       txn_count (rc_metrics st) - txns_of (deshredded_entries st) \<and>
     recovered_count (rc_metrics st') = recovered_count (rc_metrics st)"

lemma deshred_fec_balance:
  assumes inv: "recon_inv L st" and step: "deshred_fec L (slot, fec) st = Some st'"
  shows "same_balance st st'"
proof -
  obtain fecs t where v: "slot_entry L slot st = (fecs, t)" by force
  show ?thesis
  proof (cases "\<exists>s e u. is_segment t (unat fec) s e u")
    case False
    then show ?thesis using step deshred_fec_none[OF inv v] by (auto simp: same_balance_def put_slot_def)
  next
    case True
    then obtain s e u where seg: "is_segment t (unat fec) s e u" by blast
    show ?thesis using step unfolding deshred_fec_segment[OF inv v seg]
      by (auto simp: same_balance_def put_slot_def deshred_metrics_err_def count_unknown_start_def Let_def
          count_unknown_start_error_def count_entries_def entries_of_def txns_of_def
          split: sum.splits if_splits Option.bind_splits simp del: upt_Suc)
  qed
qed

interpretation deshredding_balance: monotone_step "deshred_fec L" "deshred_inv L st0" "\<lambda>_. True"
  same_balance for L st0
proof unfold_locales
  fix st st' and x :: "u64 \<times> u32"
  assume "deshred_inv L st0 st" "deshred_fec L x st = Some st'"
  then show "same_balance st st'"
    using deshred_fec_balance[of L st "fst x" "snd x" st'] by (simp add: deshred_inv_def)
qed (auto simp: same_balance_def)



section \<open>Runs that give up\<close>

text \<open>The flag of a delivered data index also drops the coding shred with that number: of two batches
that differ only in the index of the coding shred, one recovers FEC set 2 and the other does not.\<close>

lemma coding_shred_dropped:
  "map_option (\<lambda>(st, n, rep). n) (reconstruct_shreds ex_ledger
     (map ex_packet [[0,9,3,2,0,21,22],[1,9,1,2,2,23,24]]) st0) = Some 1 \<and>
   map_option (\<lambda>(st, n, rep). n) (reconstruct_shreds ex_ledger
     (map ex_packet [[0,9,3,2,0,21,22],[1,9,0,2,2,23,24]]) st0) = Some 0"
  if "st0 = fst (the (reconstruct_shreds ex_ledger (map ex_packet [[0,9,0,0,1,11,12]]) (initial_recon False)))"
  unfolding that by (intro conjI) code_simp+

text \<open>Only the segment around the first index of a FEC set is looked for: the second of two complete
segments of one set is stored and never delivered.\<close>

lemma second_segment_lost:
  "map_option (\<lambda>(st, n, rep). (map (snd \<circ> snd) (deshredded_entries st), data_status (tracker_of ex_ledger 9 st)))
     (reconstruct_shreds ex_ledger (map ex_packet [[0,9,0,0,1,11,12],[0,9,1,0,1,13,14]]) (initial_recon False)) =
   Some ([[11,12]], [DataComplete, DataComplete, Unknown, Unknown])"
  by code_simp

text \<open>A shred of a slot below the threshold is skipped after a tracker has been allocated for its slot.\<close>

lemma old_shred_allocates:
  "map_option (\<lambda>(st, n, rep). (map fst (all_shreds st), slot_fec_indexes_to_iterate st))
     (reconstruct_shreds ex_ledger (map ex_packet [[0,100,0,0,0,11,12],[0,9,0,0,0,1,2]]) (initial_recon False)) =
   Some ([100, 9], [(100, 0)])"
  by code_simp

end
