(* ===== verification/Prom.thy ===== *)
theory Prom
  imports Net_Addr
begin

text \<open>
  \<^verbatim>\<open>proxy/src/prom.rs\<close>: the Prometheus collectors, the functions that feed them, their
  registration and the scrape server. The \<^verbatim>\<open>prometheus\<close> crate is third-party code: what the
  proxy does to it is the sequence of calls it makes, and registration is a parameter.
\<close>

section \<open>Collectors\<close>

datatype histogram =
    DEDUP_DURATION_HIST | SEND_DURATION_HIST | SEND_PACKET_COUNT_HIST
  | RECV_INTERVAL_HIST | RECV_PACKET_COUNT_HIST

datatype counter =
    PACKETS_RECEIVED_TOTAL | PACKETS_DEDUPED_TOTAL | PACKETS_FORWARDED_TOTAL
  | PACKETS_FORWARD_FAILED_TOTAL

datatype collector = Hist histogram | Cnt counter | PACKETS_BY_SOURCE

fun collector_name :: "collector \<Rightarrow> string" where
  "collector_name (Hist DEDUP_DURATION_HIST) = ''shredstream_dedup_duration_usec''"
| "collector_name (Hist SEND_DURATION_HIST) = ''shredstream_send_duration_usec''"
| "collector_name (Hist SEND_PACKET_COUNT_HIST) = ''shredstream_send_packet_count''"
| "collector_name (Hist RECV_INTERVAL_HIST) = ''shredstream_recv_interval_usec''"
| "collector_name (Hist RECV_PACKET_COUNT_HIST) = ''shredstream_recv_packet_count''"
| "collector_name (Cnt PACKETS_RECEIVED_TOTAL) = ''shredstream_packets_received_total''"
| "collector_name (Cnt PACKETS_DEDUPED_TOTAL) = ''shredstream_packets_deduped_total''"
| "collector_name (Cnt PACKETS_FORWARDED_TOTAL) = ''shredstream_packets_forwarded_total''"
| "collector_name (Cnt PACKETS_FORWARD_FAILED_TOTAL) = ''shredstream_packets_forward_failed_total''"
| "collector_name PACKETS_BY_SOURCE = ''shredstream_packets_by_source''"

text \<open>The bucket bounds, in tenths.\<close>

fun buckets :: "histogram \<Rightarrow> nat list" where
  "buckets DEDUP_DURATION_HIST = [5, 10, 20, 30, 50, 80, 130, 210]"
| "buckets SEND_DURATION_HIST = [5, 10, 20, 30, 50, 80, 130, 210, 340, 550]"
| "buckets SEND_PACKET_COUNT_HIST = [10, 20, 30, 50, 100, 200, 500, 1000]"
| "buckets RECV_INTERVAL_HIST = [10, 50, 100, 250, 500, 1000, 2000, 5000, 10000, 20000]"
| "buckets RECV_PACKET_COUNT_HIST = [10, 20, 30, 50, 100, 200, 300, 400, 500, 640, 1000]"

section \<open>Feeding the collectors\<close>

text \<open>
  A call into the crate. The integers are the ones the proxy has before its casts to
  \<^verbatim>\<open>f64\<close>; a source is identified by its address, of which the label is the text form.
\<close>

datatype prom_call = Observe histogram nat | IncBy counter u64 | IncSource IpAddr string u64

type_synonym prom = "prom_call list"

definition observe_dedup_time :: "u64 \<Rightarrow> prom \<Rightarrow> prom" where
  "observe_dedup_time usecs p = p @ [Observe DEDUP_DURATION_HIST (unat usecs)]"

definition observe_send_packet_count :: "nat \<Rightarrow> prom \<Rightarrow> prom" where
  "observe_send_packet_count n p = p @ [Observe SEND_PACKET_COUNT_HIST n]"

definition observe_send_duration :: "u64 \<Rightarrow> prom \<Rightarrow> prom" where
  "observe_send_duration usecs p = p @ [Observe SEND_DURATION_HIST (unat usecs)]"

definition observe_recv_interval :: "nat \<Rightarrow> prom \<Rightarrow> prom" where
  "observe_recv_interval usecs p = p @ [Observe RECV_INTERVAL_HIST usecs]"

definition observe_recv_packet_count :: "u64 \<Rightarrow> prom \<Rightarrow> prom" where
  "observe_recv_packet_count n p = p @ [Observe RECV_PACKET_COUNT_HIST (unat n)]"

definition inc_packets_received :: "u64 \<Rightarrow> prom \<Rightarrow> prom" where
  "inc_packets_received n p = p @ [IncBy PACKETS_RECEIVED_TOTAL n]"

definition inc_packets_deduped :: "u64 \<Rightarrow> prom \<Rightarrow> prom" where
  "inc_packets_deduped n p = p @ [IncBy PACKETS_DEDUPED_TOTAL n]"

definition inc_packets_forwarded :: "u64 \<Rightarrow> prom \<Rightarrow> prom" where
  "inc_packets_forwarded n p = p @ [IncBy PACKETS_FORWARDED_TOTAL n]"

definition inc_packets_forward_failed :: "u64 \<Rightarrow> prom \<Rightarrow> prom" where
  "inc_packets_forward_failed n p = p @ [IncBy PACKETS_FORWARD_FAILED_TOTAL n]"

definition inc_packets_by_source :: "IpAddr \<Rightarrow> string \<Rightarrow> u64 \<Rightarrow> prom \<Rightarrow> prom" where
  "inc_packets_by_source addr status n p = p @ [IncSource addr status n]"

lemmas prom_defs = observe_dedup_time_def observe_send_packet_count_def observe_send_duration_def
  observe_recv_interval_def observe_recv_packet_count_def inc_packets_received_def
  inc_packets_deduped_def inc_packets_forwarded_def inc_packets_forward_failed_def
  inc_packets_by_source_def

text \<open>What a counter was incremented by in total.\<close>

definition incremented :: "counter \<Rightarrow> prom \<Rightarrow> u64" where
  "incremented c p = sum_list [n. IncBy c' n \<leftarrow> p, c' = c]"

lemma incremented_simps [simp]:
  "incremented c [] = 0"
  "incremented c (IncBy c' n # p) = (if c' = c then n else 0) + incremented c p"
  "incremented c (Observe h k # p) = incremented c p"
  "incremented c (IncSource a s n # p) = incremented c p"
  "incremented c (p @ q) = incremented c p + incremented c q"
  by (simp_all add: incremented_def)

section \<open>Registration\<close>

text \<open>
  \<open>reg\<close> is \<^verbatim>\<open>Registry::register\<close>; every call is unwrapped, so an error is a panic.
\<close>

definition registered_collectors :: "collector list" where
  "registered_collectors =
     [Hist DEDUP_DURATION_HIST, Hist SEND_DURATION_HIST, Hist SEND_PACKET_COUNT_HIST,
      Hist RECV_INTERVAL_HIST, Hist RECV_PACKET_COUNT_HIST,
      Cnt PACKETS_RECEIVED_TOTAL, Cnt PACKETS_DEDUPED_TOTAL, Cnt PACKETS_FORWARDED_TOTAL,
      Cnt PACKETS_FORWARD_FAILED_TOTAL, PACKETS_BY_SOURCE]"

definition register_metrics :: "(collector \<Rightarrow> 'r \<Rightarrow> err + 'r) \<Rightarrow> 'r \<Rightarrow> 'r option" where
  "register_metrics reg registry =
     foldM (\<lambda>c r. case reg c r of Inl e \<Rightarrow> None | Inr r' \<Rightarrow> Some r') registered_collectors registry"

text \<open>
  The documented behaviour of a registry: it holds names, and registration succeeds
  when the name is not held yet.
\<close>

definition registry_ok :: "(collector \<Rightarrow> 'r \<Rightarrow> err + 'r) \<Rightarrow> ('r \<Rightarrow> string set) \<Rightarrow> bool" where
  "registry_ok reg names \<longleftrightarrow> (\<forall>c r. collector_name c \<notin> names r \<longrightarrow>
     (\<exists>r'. reg c r = Inr r' \<and> names r' = insert (collector_name c) (names r)))"

lemma register_all:
  assumes "registry_ok reg names" "distinct (map collector_name cs)" "names r \<inter> collector_name ` set cs = {}"
  shows "\<exists>r'. foldM (\<lambda>c r. case reg c r of Inl e \<Rightarrow> None | Inr r' \<Rightarrow> Some r') cs r = Some r' \<and>
     names r' = names r \<union> collector_name ` set cs"
  using assms(2,3)
proof (induction cs arbitrary: r)
  case Nil
  then show ?case by simp
next
  case (Cons c cs)
  have "collector_name c \<notin> names r" using Cons.prems by auto
  then obtain r1 where r1: "reg c r = Inr r1" "names r1 = insert (collector_name c) (names r)"
    using assms(1) unfolding registry_ok_def by blast
  then show ?case using Cons.IH[of r1] Cons.prems by auto
qed

section \<open>The scrape server\<close>

text \<open>
  One iteration after \<^verbatim>\<open>shutdown_signal.try_recv()\<close> failed: receiving may fail, time out, or
  give a request; \<open>Scrape enc sent\<close> has the result of encoding the gathered metrics and
  whether the response could be sent. \<open>ExitSet\<close> is the iteration that finds the signal.
\<close>

datatype scrape_event = ScrapeRecvError err | NoRequest | Scrape "err + string" bool

record scrape_server =
  responses :: "string list"
  respond_errors :: nat

fun prometheus_body :: "scrape_event \<Rightarrow> scrape_server \<Rightarrow> scrape_server verdict option" where
  "prometheus_body (ScrapeRecvError e) s = None"
| "prometheus_body NoRequest s = Some (Continue s)"
| "prometheus_body (Scrape (Inl e) sent) s = None"
| "prometheus_body (Scrape (Inr encoded) sent) s = Some (Continue
     (if sent then s\<lparr>responses := responses s @ [encoded]\<rparr>
      else s\<lparr>respond_errors := Suc (respond_errors s)\<rparr>))"

definition spawn_prometheus_server :: "(err + unit) \<Rightarrow> scrape_event poll list \<Rightarrow> scrape_server option" where
  "spawn_prometheus_server bound polls = (case bound of
      Inl e \<Rightarrow> None
    | Inr _ \<Rightarrow> event_loop prometheus_body polls \<lparr>responses = [], respond_errors = 0\<rparr>)"

fun scrape_ok :: "scrape_event \<Rightarrow> bool" where
  "scrape_ok (ScrapeRecvError e) = False"
| "scrape_ok NoRequest = True"
| "scrape_ok (Scrape enc sent) = (\<exists>x. enc = Inr x)"

interpretation prometheus_server: thread_body prometheus_body "\<lambda>_. True" scrape_ok
proof unfold_locales
  fix s e assume "scrape_ok e"
  then show "\<exists>r. prometheus_body e s = Some r \<and> True" by (cases e) auto
qed

section \<open>Properties\<close>

text \<open>Registering the collectors in a registry that holds none of their names succeeds, so
start-up does not panic there, and afterwards the registry holds exactly the ten names more; all
histogram bucket lists are strictly increasing, as the crate demands.\<close>

theorem register_metrics_succeeds:
  assumes "registry_ok reg names" "names registry \<inter> collector_name ` set registered_collectors = {}"
  shows "\<exists>r'. register_metrics reg registry = Some r' \<and>
      names r' = names registry \<union> collector_name ` set registered_collectors \<and>
      card (collector_name ` set registered_collectors) = 10 \<and> (\<forall>h. sorted_wrt (<) (buckets h))"
proof -
  have d: "distinct (map collector_name registered_collectors)"
    by (simp add: registered_collectors_def)
  then have "card (collector_name ` set registered_collectors) = length registered_collectors"
    by (metis distinct_card length_map list.set_map)
  then have "card (collector_name ` set registered_collectors) = 10"
    by (simp only: registered_collectors_def) simp
  moreover have "sorted_wrt (<) (buckets h)" for h by (cases h) simp_all
  ultimately show ?thesis using register_all[OF assms(1) d assms(2)] by (auto simp: register_metrics_def)
qed

definition ex_register :: "collector \<Rightarrow> string list \<Rightarrow> err + string list" where
  "ex_register c names = (if collector_name c \<in> set names then Inl ''AlreadyReg''
     else Inr (collector_name c # names))"

theorem register_metrics_succeeds_witness:
  "\<exists>r'. register_metrics ex_register [''up''] = Some r' \<and> ''up'' \<in> set r' \<and>
     ''shredstream_packets_by_source'' \<in> set r'"
proof -
  have "registry_ok ex_register set" by (simp add: registry_ok_def ex_register_def)
  moreover have "set [''up''] \<inter> collector_name ` set registered_collectors = {}"
    by (simp add: registered_collectors_def)
  ultimately obtain r' where r: "register_metrics ex_register [''up''] = Some r'"
    "set r' = set [''up''] \<union> collector_name ` set registered_collectors"
    using register_metrics_succeeds[of ex_register set] by blast
  have "''up'' \<in> set r'" "''shredstream_packets_by_source'' \<in> set r'"
    unfolding r(2) by (simp_all add: registered_collectors_def)
  then show ?thesis using r(1) by blast
qed

end
