(* ===== verification/Proxy_Error.thy ===== *)
theory Proxy_Error
  imports Net_Addr
begin

text \<open>
  The error type of the proxy (\<^verbatim>\<open>ShredstreamProxyError\<close> of \<^verbatim>\<open>proxy/src/main.rs\<close>), the one of
  the authentication layer it wraps, and the hostname resolution that command-line parsing
  and the destination refresh share.
\<close>

datatype ErrorKind = AddrNotAvailable | InvalidInput | InvalidData | OtherError

type_synonym io_error = "ErrorKind \<times> string"

datatype BlockEngineConnectionError = Transport err | Client err | Deserialization

datatype ShredstreamProxyError =
    TonicError err
  | GrpcError err
  | ReqwestError err
  | SerdeJsonError err
  | RpcError err
  | BlockEngineError BlockEngineConnectionError
  | RecvError err
  | IoError io_error
  | Shutdown

section \<open>Resolution of destinations\<close>

text \<open>\<open>lookup\<close> is \<^verbatim>\<open>to_socket_addrs\<close>; the first address is taken.\<close>

definition resolve_hostname_port ::
  "(string \<Rightarrow> io_error + SocketAddr list) \<Rightarrow> string \<Rightarrow> io_error + SocketAddr \<times> string" where
  "resolve_hostname_port lookup hostname_port = (case lookup hostname_port of
      Inl e \<Rightarrow> Inl e
    | Inr [] \<Rightarrow> Inl (AddrNotAvailable, ''Could not find destination '' @ hostname_port)
    | Inr (socketaddr # _) \<Rightarrow> Inr (socketaddr, hostname_port))"

lemma resolve_hostname_port_iff:
  "resolve_hostname_port lookup h = Inr (a, h') \<longleftrightarrow> h' = h \<and> (\<exists>as. lookup h = Inr (a # as))"
  by (auto simp: resolve_hostname_port_def split: sum.splits list.splits)

end
