(* ===== verification/Forwarder.thy ===== *)
theory Forwarder
  imports Ledger Shred_Metrics Prom Proxy_Error
begin

text \<open>
  The forwarding path of \<^verbatim>\<open>proxy/src/forwarder.rs\<close>: one batch through
  \<^verbatim>\<open>recv_from_channel_and_send_multiple_dest\<close>, the send thread around it, and how the threads
  are started. The deduper, the socket, the trace decoder and the clocks are parameters.
\<close>

section \<open>The environment of one batch\<close>

datatype send_result = SendOk | SendIoError err nat

record trace_shred =
  tr_region :: string
  tr_seq_num :: u32
  tr_created_at :: "(int \<times> int) option"

text \<open>
  \<open>dedup_and_count\<close> is \<^verbatim>\<open>dedup_packets_and_count_discards\<close>: it sets bits of the deduper, marks
  packets as discarded and returns the number of discarded packets. \<open>batch_send\<close> is
  \<^verbatim>\<open>sendmmsg::batch_send\<close>. \<open>decode_trace\<close> is \<^verbatim>\<open>TraceShred::decode\<close>, \<open>system_time_of\<close> the
  conversion of a timestamp to a \<^verbatim>\<open>SystemTime\<close>, in nanoseconds. The remaining fields are what
  the clocks show: the time of receipt in nanoseconds and the durations in microseconds.
\<close>

record 'd net =
  dedup_and_count :: "'d \<Rightarrow> packet list \<Rightarrow> 'd \<times> packet list \<times> u64"
  batch_send :: "(bytes \<times> SocketAddr) list \<Rightarrow> send_result"
  decode_trace :: "bytes \<Rightarrow> trace_shred option"
  system_time_of :: "int \<times> int \<Rightarrow> int option"
  UIO_MAXIOV :: nat
  received_at :: int
  dedup_usecs :: u64
  send_usecs :: "SocketAddr \<Rightarrow> u64"

text \<open>A bounded channel as its sender sees it.\<close>

record 'a channel =
  ch_capacity :: nat
  ch_connected :: bool
  ch_items :: "'a list"

definition try_send :: "'a \<Rightarrow> 'a channel \<Rightarrow> 'a channel" where
  "try_send x c = (if ch_connected c \<and> length (ch_items c) < ch_capacity c
     then c\<lparr>ch_items := ch_items c @ [x]\<rparr> else c)"

text \<open>
  What the send threads share or produce: the deduper and whether its lock is poisoned, the
  counters, the calls to Prometheus, the channel to the reconstructor, the batches handed to
  the socket and the trace data points (region, sequence number, latency in microseconds).
\<close>

record 'd forwarder =
  fw_deduper :: 'd
  fw_poisoned :: bool
  fw_metrics :: ShredMetrics
  fw_prom :: prom
  fw_reconstruct :: "packet list channel"
  fw_out :: "(bytes \<times> SocketAddr) list list"
  fw_traces :: "(string \<times> u32 \<times> nat) list"

section \<open>One batch\<close>

definition count_source :: "IpAddr \<Rightarrow> bool \<Rightarrow> ShredMetrics \<Rightarrow> ShredMetrics" where
  "count_source addr is_discarded m = m\<lparr>packets_received :=
     AList.update addr
       (case map_of (packets_received m) addr of
          Some (discarded, not_discarded) \<Rightarrow>
            (discarded + of_bool is_discarded, not_discarded + of_bool (\<not> is_discarded))
        | None \<Rightarrow> (of_bool is_discarded, of_bool (\<not> is_discarded)))
       (packets_received m)\<rparr>"

definition count_packet :: "packet \<Rightarrow> 'd forwarder \<Rightarrow> 'd forwarder" where
  "count_packet pkt fw = fw\<lparr>
     fw_metrics := count_source (pk_addr pkt) (pk_discard pkt) (fw_metrics fw),
     fw_prom := inc_packets_by_source (pk_addr pkt)
        (if pk_discard pkt then ''discarded'' else ''forwarded'') 1 (fw_prom fw)\<rparr>"

definition packets_with_dest :: "ledger \<Rightarrow> packet list \<Rightarrow> SocketAddr \<Rightarrow> (bytes \<times> SocketAddr) list" where
  "packets_with_dest L batch addr =
     List.map_filter (\<lambda>pkt. map_option (\<lambda>data. (data, addr)) (packet_data L pkt)) batch"

definition send_to ::
  "ledger \<Rightarrow> 'd net \<Rightarrow> packet list \<Rightarrow> u64 \<Rightarrow> SocketAddr \<Rightarrow> 'd forwarder \<Rightarrow> 'd forwarder" where
  "send_to L net batch num_deduped addr fw =
     (let out = packets_with_dest L batch addr;
          n = of_nat (length out) :: u64;
          m = fw_metrics fw;
          m = m\<lparr>send_batch_size_sum := send_batch_size_sum m + n,
                send_batch_count := send_batch_count m + 1,
                saturated_iov_count := saturated_iov_count m + of_nat (length out div UIO_MAXIOV net),
                unsaturated_iov_count := unsaturated_iov_count m + of_nat (length out mod UIO_MAXIOV net)\<rparr>;
          p = observe_send_packet_count (length out) (fw_prom fw);
          (m, p) = (case batch_send net out of
              SendOk \<Rightarrow>
                (m\<lparr>success_forward := success_forward m + n, duplicate := duplicate m + num_deduped\<rparr>,
                 inc_packets_forwarded n p)
            | SendIoError e num_failed \<Rightarrow>
                (m\<lparr>fail_forward := fail_forward m + n, duplicate := duplicate m + of_nat num_failed\<rparr>,
                 inc_packets_forward_failed n p))
      in fw\<lparr>fw_out := fw_out fw @ [out],
            fw_metrics := m\<lparr>batch_send_time_spent := batch_send_time_spent m + send_usecs net addr\<rparr>,
            fw_prom := observe_send_duration (send_usecs net addr) p\<rparr>)"

text \<open>The loop that reports trace shreds; a timestamp that is no \<^verbatim>\<open>SystemTime\<close> panics.\<close>

definition report_trace ::
  "'d net \<Rightarrow> trace_shred \<Rightarrow> (string \<times> u32 \<times> nat) list \<Rightarrow> (string \<times> u32 \<times> nat) list option" where
  "report_trace net t traces = (case tr_created_at t of
      None \<Rightarrow> Some traces
    | Some ts \<Rightarrow> do {
        created \<leftarrow> system_time_of net ts;
        Some (traces @ [(tr_region t, tr_seq_num t, nat (received_at net - created) div 1000)]) })"

definition traces_of :: "ledger \<Rightarrow> 'd net \<Rightarrow> packet list \<Rightarrow> trace_shred list" where
  "traces_of L net batch =
     List.map_filter (\<lambda>p. Option.bind (packet_data L p) (decode_trace net)) batch"

text \<open>Counting the batch and offering it to the reconstructor, before deduplication.\<close>

definition note_received :: "bool \<Rightarrow> packet list \<Rightarrow> 'd forwarder \<Rightarrow> 'd forwarder" where
  "note_received should_reconstruct_shreds packet_batch fw =
     (let batch_len = of_nat (length packet_batch) :: u64;
          m = fw_metrics fw;
          fw = fw\<lparr>fw_metrics := m\<lparr>received := received m + batch_len\<rparr>,
                  fw_prom := observe_recv_packet_count batch_len (inc_packets_received batch_len (fw_prom fw))\<rparr>
      in if should_reconstruct_shreds
         then fw\<lparr>fw_reconstruct := try_send packet_batch (fw_reconstruct fw)\<rparr> else fw)"

text \<open>Deduplication under the read lock, which panics when the lock is poisoned.\<close>

definition dedup_batch :: "'d net \<Rightarrow> packet list \<Rightarrow> 'd forwarder \<Rightarrow> ('d forwarder \<times> packet list \<times> u64) option" where
  "dedup_batch net packet_batch fw = (if fw_poisoned fw then None else
     (let (deduper, batch, num_deduped) = dedup_and_count net (fw_deduper fw) packet_batch;
          m = fw_metrics fw
      in Some (fw\<lparr>fw_deduper := deduper,
                  fw_metrics := m\<lparr>dedup_time_spent := dedup_time_spent m + dedup_usecs net\<rparr>,
                  fw_prom := inc_packets_deduped num_deduped (observe_dedup_time (dedup_usecs net) (fw_prom fw))\<rparr>,
               batch, num_deduped)))"

text \<open>The result is \<open>None\<close> when the calling thread panics.\<close>

definition recv_from_channel_and_send_multiple_dest ::
  "ledger \<Rightarrow> 'd net \<Rightarrow> err + packet list \<Rightarrow> SocketAddr list \<Rightarrow> bool \<Rightarrow> bool \<Rightarrow> 'd forwarder \<Rightarrow>
   ((ShredstreamProxyError + unit) \<times> 'd forwarder) option" where
  "recv_from_channel_and_send_multiple_dest L net maybe_packet_batch local_dest_sockets
       should_reconstruct_shreds debug_trace_shred fw = (case maybe_packet_batch of
     Inl e \<Rightarrow> Some (Inl (RecvError e), fw)
   | Inr packet_batch \<Rightarrow> do {
       (fw, batch, num_deduped) \<leftarrow> dedup_batch net packet_batch
          (note_received should_reconstruct_shreds packet_batch fw);
       let fw = fold count_packet batch fw;
       let fw = fold (send_to L net batch num_deduped) local_dest_sockets fw;
       traces \<leftarrow> (if debug_trace_shred
          then foldM (report_trace net) (traces_of L net batch) (fw_traces fw) else Some (fw_traces fw));
       Some (Inr (), fw\<lparr>fw_traces := traces\<rparr>) })"

section \<open>The send thread\<close>

text \<open>
  \<open>RecvPackets\<close> carries the time since the last receipt; \<open>RefreshTick\<close> carries what the shared
  destination list holds when it is loaded.
\<close>

datatype 'd sender_event =
    RecvPackets nat "'d net" "err + packet list"
  | RefreshTick "SocketAddr list"
  | ShutdownMsg

record 'd sender =
  sd_fw :: "'d forwarder"
  sd_dests :: "SocketAddr list"

fun sender_body ::
  "ledger \<Rightarrow> bool \<Rightarrow> bool \<Rightarrow> 'd sender_event \<Rightarrow> 'd sender \<Rightarrow> 'd sender verdict option" where
  "sender_body L should_reconstruct debug_trace (RecvPackets usecs net maybe_batch) s = do {
     let fw = (sd_fw s)\<lparr>fw_prom := observe_recv_interval usecs (fw_prom (sd_fw s))\<rparr>;
     (res, fw) \<leftarrow> recv_from_channel_and_send_multiple_dest L net maybe_batch (sd_dests s)
                     should_reconstruct debug_trace fw;
     Some (case res of Inl e \<Rightarrow> Break (s\<lparr>sd_fw := fw\<rparr>) | Inr _ \<Rightarrow> Continue (s\<lparr>sd_fw := fw\<rparr>)) }"
| "sender_body L should_reconstruct debug_trace (RefreshTick dests) s = Some (Continue (s\<lparr>sd_dests := dests\<rparr>))"
| "sender_body L should_reconstruct debug_trace ShutdownMsg s = Some (Break s)"

text \<open>
  \<^verbatim>\<open>expect\<close> on the bind of the sending socket; the destinations are loaded before the loop.
\<close>

definition sender_thread ::
  "ledger \<Rightarrow> bool \<Rightarrow> bool \<Rightarrow> (err + unit) \<Rightarrow> SocketAddr list \<Rightarrow> 'd sender_event poll list \<Rightarrow>
   'd forwarder \<Rightarrow> 'd sender option" where
  "sender_thread L should_reconstruct debug_trace bound unioned_dest_sockets polls fw = (case bound of
      Inl e \<Rightarrow> None
    | Inr _ \<Rightarrow> event_loop (sender_body L should_reconstruct debug_trace) polls
                 \<lparr>sd_fw = fw, sd_dests = unioned_dest_sockets\<rparr>)"

section \<open>Starting the threads\<close>

datatype thread_name =
    Reconstructor_Thread | Listen nat | Send nat | Heartbeat_Loop | Report_Stats | Accessory
  | Dest_Refresh | Entry_Server | Prometheus_Server

text \<open>
  \<open>parallelism\<close> is \<^verbatim>\<open>available_parallelism\<close> (unwrapped), \<open>multi_bind\<close> is
  \<^verbatim>\<open>multi_bind_in_range_with_config\<close>, which returns the port and the sockets. The result has the
  threads that are spawned and those whose handles are returned to be joined.
\<close>

definition start_forwarder_threads ::
  "(err + nat) \<Rightarrow> (IpAddr \<Rightarrow> u16 \<times> u16 \<Rightarrow> nat \<Rightarrow> err + u16 \<times> 's list) \<Rightarrow> IpAddr \<Rightarrow> u16 \<Rightarrow>
   's list option \<Rightarrow> nat option \<Rightarrow> bool \<Rightarrow> (thread_name list \<times> thread_name list) option" where
  "start_forwarder_threads parallelism multi_bind src_addr src_port maybe_multicast_socket num_threads
       should_reconstruct_shreds = do {
     num_threads \<leftarrow> (case num_threads of Some n \<Rightarrow> Some n
        | None \<Rightarrow> (case parallelism of Inl e \<Rightarrow> None | Inr n \<Rightarrow> Some (min n 4)));
     sockets \<leftarrow> (case multi_bind src_addr (src_port, src_port + 1) num_threads of
        Inl e \<Rightarrow> None | Inr (_, ss) \<Rightarrow> Some ss);
     let thread_hdls = (if should_reconstruct_shreds then [Reconstructor_Thread] else []);
     let hdls = concat (map (\<lambda>(thread_id, _). [Listen thread_id, Send thread_id])
        (List.enumerate 0 (sockets @ (case maybe_multicast_socket of None \<Rightarrow> [] | Some ms \<Rightarrow> ms))));
     Some (thread_hdls @ hdls, hdls) }"

section \<open>What the forwarder relies on\<close>

text \<open>
  Deduplication only sets the discard mark, and returns how many packets carry it;
  \<^verbatim>\<open>Packet::data(..)\<close> is empty exactly for discarded packets and sizes past the buffer.
\<close>

definition dedup_ok :: "'d net \<Rightarrow> bool" where
  "dedup_ok net \<longleftrightarrow> (\<forall>d ps d' ps' n. dedup_and_count net d ps = (d', ps', n) \<longrightarrow>
     list_all2 (\<lambda>p p'. p' = p\<lparr>pk_discard := pk_discard p'\<rparr> \<and> (pk_discard p \<longrightarrow> pk_discard p')) ps ps' \<and>
     n = of_nat (length (filter pk_discard ps')))"

definition packet_ok :: "ledger \<Rightarrow> bool" where
  "packet_ok L \<longleftrightarrow> (\<forall>p. packet_data L p =
     (if pk_discard p \<or> length (pk_buffer p) < pk_size p then None else Some (take (pk_size p) (pk_buffer p))))"

section \<open>Per-source counts\<close>

definition source_counts :: "ShredMetrics \<Rightarrow> IpAddr \<Rightarrow> u64 \<times> u64" where
  "source_counts m a = (case map_of (packets_received m) a of None \<Rightarrow> (0, 0) | Some c \<Rightarrow> c)"

definition from_source :: "packet list \<Rightarrow> IpAddr \<Rightarrow> bool \<Rightarrow> nat" where
  "from_source batch a disc = length [p \<leftarrow> batch. pk_addr p = a \<and> pk_discard p = disc]"

lemma from_source_simps [simp]:
  "from_source [] a d = 0"
  "from_source (p # ps) a d = of_bool (pk_addr p = a \<and> pk_discard p = d) + from_source ps a d"
  by (simp_all add: from_source_def)

lemma source_counts_count_source:
  "source_counts (count_source b d m) a =
     (if a = b then (fst (source_counts m a) + of_bool d, snd (source_counts m a) + of_bool (\<not> d))
      else source_counts m a)"
  by (simp add: source_counts_def count_source_def split: option.splits)

lemma source_counts_frame [simp]:
  "source_counts (m\<lparr>received := n\<rparr>) = source_counts m"
  "source_counts (m\<lparr>dedup_time_spent := n\<rparr>) = source_counts m"
  by (simp_all add: source_counts_def fun_eq_iff)

lemma fold_count_packet_sources:
  "source_counts (fw_metrics (fold count_packet batch fw)) a =
     (fst (source_counts (fw_metrics fw) a) + of_nat (from_source batch a True),
      snd (source_counts (fw_metrics fw) a) + of_nat (from_source batch a False))"
  by (induction batch arbitrary: fw)
     (auto simp: count_packet_def source_counts_count_source)

text \<open>Counting the sources changes nothing else.\<close>

definition same_but_sources :: "'d forwarder \<Rightarrow> 'd forwarder \<Rightarrow> bool" where
  "same_but_sources fw fw' \<longleftrightarrow> (\<exists>ps p. fw' = fw\<lparr>
     fw_metrics := (fw_metrics fw)\<lparr>packets_received := ps\<rparr>, fw_prom := fw_prom fw @ p\<rparr> \<and>
     (\<forall>c. incremented c p = 0))"

lemma fold_count_packet_frame: "same_but_sources fw (fold count_packet batch fw)"
proof (induction batch arbitrary: fw)
  case Nil
  show ?case unfolding same_but_sources_def
    by (rule exI[of _ "packets_received (fw_metrics fw)"], rule exI[of _ "[]"]) simp
next
  case (Cons pkt batch)
  obtain ps p where *: "fold count_packet batch (count_packet pkt fw) = (count_packet pkt fw)\<lparr>
     fw_metrics := (fw_metrics (count_packet pkt fw))\<lparr>packets_received := ps\<rparr>,
     fw_prom := fw_prom (count_packet pkt fw) @ p\<rparr>" "\<forall>c. incremented c p = 0"
    using Cons.IH[of "count_packet pkt fw"] by (auto simp: same_but_sources_def)
  obtain qs st where q: "count_packet pkt fw = fw\<lparr>fw_metrics := (fw_metrics fw)\<lparr>packets_received := qs\<rparr>,
     fw_prom := fw_prom fw @ [IncSource (pk_addr pkt) st 1]\<rparr>"
    by (simp add: count_packet_def count_source_def inc_packets_by_source_def)
  have "fold count_packet (pkt # batch) fw = fw\<lparr>fw_metrics := (fw_metrics fw)\<lparr>packets_received := ps\<rparr>,
     fw_prom := fw_prom fw @ (IncSource (pk_addr pkt) st 1 # p)\<rparr>"
    using *(1) by (simp add: q)
  then show ?case using *(2) unfolding same_but_sources_def
    by (intro exI[of _ ps] exI[of _ "IncSource (pk_addr pkt) st 1 # p"]) simp
qed

section \<open>Sending\<close>

text \<open>The number of packets of a batch that still have data.\<close>

definition survivors :: "ledger \<Rightarrow> packet list \<Rightarrow> bytes list" where
  "survivors L batch = List.map_filter (packet_data L) batch"

lemma packets_with_dest_eq: "packets_with_dest L batch addr = map (\<lambda>d. (d, addr)) (survivors L batch)"
  by (induction batch) (auto simp: packets_with_dest_def survivors_def List.map_filter_simps split: option.splits)

definition was_sent :: "ledger \<Rightarrow> 'd net \<Rightarrow> packet list \<Rightarrow> SocketAddr \<Rightarrow> bool" where
  "was_sent L net batch addr \<longleftrightarrow> batch_send net (packets_with_dest L batch addr) = SendOk"

fun failed_of :: "send_result \<Rightarrow> nat" where
  "failed_of SendOk = 0"
| "failed_of (SendIoError e n) = n"

text \<open>What sending one batch to a list of destinations adds to every counter.\<close>

definition sent_account ::
  "ledger \<Rightarrow> 'd net \<Rightarrow> packet list \<Rightarrow> u64 \<Rightarrow> SocketAddr list \<Rightarrow> 'd forwarder \<Rightarrow> 'd forwarder \<Rightarrow> bool" where
  "sent_account L net batch n dests fw fw' \<longleftrightarrow>
    (let k = length (survivors L batch); ok = length (filter (was_sent L net batch) dests);
         bad = length dests - ok; m = fw_metrics fw; m' = fw_metrics fw' in
     fw_out fw' = fw_out fw @ map (packets_with_dest L batch) dests \<and>
     success_forward m' = success_forward m + of_nat (ok * k) \<and>
     fail_forward m' = fail_forward m + of_nat (bad * k) \<and>
     duplicate m' = duplicate m + of_nat ok * n
        + of_nat (sum_list (map (\<lambda>a. failed_of (batch_send net (packets_with_dest L batch a))) dests)) \<and>
     send_batch_count m' = send_batch_count m + of_nat (length dests) \<and>
     send_batch_size_sum m' = send_batch_size_sum m + of_nat (length dests * k) \<and>
     saturated_iov_count m' = saturated_iov_count m + of_nat (length dests * (k div UIO_MAXIOV net)) \<and>
     unsaturated_iov_count m' = unsaturated_iov_count m + of_nat (length dests * (k mod UIO_MAXIOV net)) \<and>
     incremented PACKETS_FORWARDED_TOTAL (fw_prom fw')
       = incremented PACKETS_FORWARDED_TOTAL (fw_prom fw) + of_nat (ok * k) \<and>
     incremented PACKETS_FORWARD_FAILED_TOTAL (fw_prom fw')
       = incremented PACKETS_FORWARD_FAILED_TOTAL (fw_prom fw) + of_nat (bad * k))"

definition same_but_sending :: "'d forwarder \<Rightarrow> 'd forwarder \<Rightarrow> bool" where
  "same_but_sending fw fw' \<longleftrightarrow>
     fw_deduper fw' = fw_deduper fw \<and> fw_poisoned fw' = fw_poisoned fw \<and>
     fw_reconstruct fw' = fw_reconstruct fw \<and> fw_traces fw' = fw_traces fw \<and>
     received (fw_metrics fw') = received (fw_metrics fw) \<and>
     packets_received (fw_metrics fw') = packets_received (fw_metrics fw) \<and>
     incremented PACKETS_RECEIVED_TOTAL (fw_prom fw') = incremented PACKETS_RECEIVED_TOTAL (fw_prom fw) \<and>
     incremented PACKETS_DEDUPED_TOTAL (fw_prom fw') = incremented PACKETS_DEDUPED_TOTAL (fw_prom fw) \<and>
     (\<forall>c. cumulative c (fw_metrics fw') = cumulative c (fw_metrics fw))"

lemma send_to_account: "sent_account L net batch n [addr] fw (send_to L net batch n addr fw)"
proof (cases "batch_send net (packets_with_dest L batch addr)")
  case SendOk
  then show ?thesis
    by (simp add: sent_account_def send_to_def was_sent_def packets_with_dest_eq Let_def prom_defs)
next
  case (SendIoError e f)
  then show ?thesis
    by (simp add: sent_account_def send_to_def was_sent_def packets_with_dest_eq Let_def prom_defs)
qed

lemma send_to_frame: "same_but_sending fw (send_to L net batch n addr fw)"
proof -
  have "cumulative c (fw_metrics (send_to L net batch n addr fw)) = cumulative c (fw_metrics fw)" for c
    by (cases c) (simp_all add: send_to_def Let_def split: send_result.splits)
  then show ?thesis
    by (simp add: same_but_sending_def send_to_def Let_def prom_defs split: send_result.splits)
qed

lemma same_but_sending_refl: "same_but_sending fw fw"
  by (simp add: same_but_sending_def)

lemma same_but_sending_trans:
  "same_but_sending a b \<Longrightarrow> same_but_sending b c \<Longrightarrow> same_but_sending a c"
  by (simp add: same_but_sending_def)

lemma fold_send_frame: "same_but_sending fw (fold (send_to L net batch n) dests fw)"
  by (induction dests arbitrary: fw)
     (auto simp: same_but_sending_refl intro: same_but_sending_trans[OF send_to_frame])

lemma sent_account_cons:
  assumes "sent_account L net batch n [a] fw fw1" "sent_account L net batch n dests fw1 fw2"
  shows "sent_account L net batch n (a # dests) fw fw2"
proof -
  have le: "length (filter (was_sent L net batch) dests) \<le> length dests" by (rule length_filter_le)
  show ?thesis using assms le
    by (cases "was_sent L net batch a")
      (simp_all add: sent_account_def Let_def Suc_diff_le algebra_simps)
qed

lemma fold_send_account: "sent_account L net batch n dests fw (fold (send_to L net batch n) dests fw)"
proof (induction dests arbitrary: fw)
  case Nil
  then show ?case by (simp add: sent_account_def)
next
  case (Cons a dests)
  show ?case using sent_account_cons[OF send_to_account Cons.IH] by simp
qed

section \<open>The whole batch\<close>

definition traces_representable :: "ledger \<Rightarrow> 'd net \<Rightarrow> packet list \<Rightarrow> bool" where
  "traces_representable L net batch \<longleftrightarrow>
     (\<forall>t\<in>set (traces_of L net batch). \<forall>ts. tr_created_at t = Some ts \<longrightarrow> system_time_of net ts \<noteq> None)"

interpretation traces: fallible_step "report_trace net" "\<lambda>_. True"
  "\<lambda>t. \<forall>ts. tr_created_at t = Some ts \<longrightarrow> system_time_of net ts \<noteq> None" for net
  by unfold_locales (auto simp: report_trace_def split: option.splits)

lemma note_received_simps [simp]:
  "fw_deduper (note_received sr b fw) = fw_deduper fw"
  "fw_poisoned (note_received sr b fw) = fw_poisoned fw"
  "fw_out (note_received sr b fw) = fw_out fw"
  "fw_traces (note_received sr b fw) = fw_traces fw"
  "fw_reconstruct (note_received sr b fw) =
     (if sr then try_send b (fw_reconstruct fw) else fw_reconstruct fw)"
  "fw_metrics (note_received sr b fw) =
     (fw_metrics fw)\<lparr>received := received (fw_metrics fw) + of_nat (length b)\<rparr>"
  "fw_prom (note_received sr b fw) = fw_prom fw @
     [IncBy PACKETS_RECEIVED_TOTAL (of_nat (length b)),
      Observe RECV_PACKET_COUNT_HIST (unat (of_nat (length b) :: u64))]"
  by (simp_all add: note_received_def Let_def prom_defs)

text \<open>The whole batch as its stages, none of which panics.\<close>

lemma forward_stages:
  assumes dd: "dedup_and_count net (fw_deduper fw) batch = (d', batch', n)"
    and np: "\<not> fw_poisoned fw" and tr: "dbg \<longrightarrow> traces_representable L net batch'"
  obtains fw1 fw2 fw' where
    "recv_from_channel_and_send_multiple_dest L net (Inr batch) dests sr dbg fw = Some (Inr (), fw')"
    "dedup_batch net batch (note_received sr batch fw) = Some (fw1, batch', n)"
    "fw2 = fold count_packet batch' fw1"
    "sent_account L net batch' n dests fw2 (fold (send_to L net batch' n) dests fw2)"
    "\<exists>ts. fw' = (fold (send_to L net batch' n) dests fw2)\<lparr>fw_traces := ts\<rparr>"
proof -
  obtain fw1 where d: "dedup_batch net batch (note_received sr batch fw) = Some (fw1, batch', n)"
    using dd np by (simp add: dedup_batch_def Let_def)
  let ?fw2 = "fold count_packet batch' fw1"
  let ?fw3 = "fold (send_to L net batch' n) dests ?fw2"
  obtain ts where "(if dbg then foldM (report_trace net) (traces_of L net batch') (fw_traces ?fw3)
      else Some (fw_traces ?fw3)) = Some ts"
    using traces.run_ok[of "traces_of L net batch'" net "fw_traces ?fw3"] tr
    by (cases dbg) (auto simp: traces_representable_def)
  then have "recv_from_channel_and_send_multiple_dest L net (Inr batch) dests sr dbg fw =
      Some (Inr (), ?fw3\<lparr>fw_traces := ts\<rparr>)"
    using d by (simp add: recv_from_channel_and_send_multiple_dest_def)
  then show ?thesis using that[OF _ d refl fold_send_account] by blast
qed

lemma sent_account_frame:
  assumes "sent_account L net batch n dests fw fw'"
    and "fw_out fw0 = fw_out fw" "success_forward (fw_metrics fw0) = success_forward (fw_metrics fw)"
    "fail_forward (fw_metrics fw0) = fail_forward (fw_metrics fw)"
    "duplicate (fw_metrics fw0) = duplicate (fw_metrics fw)"
    "send_batch_count (fw_metrics fw0) = send_batch_count (fw_metrics fw)"
    "send_batch_size_sum (fw_metrics fw0) = send_batch_size_sum (fw_metrics fw)"
    "saturated_iov_count (fw_metrics fw0) = saturated_iov_count (fw_metrics fw)"
    "unsaturated_iov_count (fw_metrics fw0) = unsaturated_iov_count (fw_metrics fw)"
    "incremented PACKETS_FORWARDED_TOTAL (fw_prom fw0) = incremented PACKETS_FORWARDED_TOTAL (fw_prom fw)"
    "incremented PACKETS_FORWARD_FAILED_TOTAL (fw_prom fw0) = incremented PACKETS_FORWARD_FAILED_TOTAL (fw_prom fw)"
  shows "sent_account L net batch n dests fw0 (fw'\<lparr>fw_traces := ts\<rparr>)"
  using assms by (simp add: sent_account_def Let_def)

text \<open>What the call does, in one statement.\<close>

lemma forward_batch:
  assumes dd: "dedup_and_count net (fw_deduper fw) batch = (d', batch', n)"
    and np: "\<not> fw_poisoned fw" and tr: "dbg \<longrightarrow> traces_representable L net batch'"
  obtains fw' where
    "recv_from_channel_and_send_multiple_dest L net (Inr batch) dests sr dbg fw = Some (Inr (), fw')"
    "sent_account L net batch' n dests fw fw'"
    "fw_deduper fw' = d'" "fw_poisoned fw' = fw_poisoned fw"
    "fw_reconstruct fw' = (if sr then try_send batch (fw_reconstruct fw) else fw_reconstruct fw)"
    "received (fw_metrics fw') = received (fw_metrics fw) + of_nat (length batch)"
    "incremented PACKETS_RECEIVED_TOTAL (fw_prom fw') =
       incremented PACKETS_RECEIVED_TOTAL (fw_prom fw) + of_nat (length batch)"
    "incremented PACKETS_DEDUPED_TOTAL (fw_prom fw') = incremented PACKETS_DEDUPED_TOTAL (fw_prom fw) + n"
    "\<forall>a. source_counts (fw_metrics fw') a =
       (fst (source_counts (fw_metrics fw) a) + of_nat (from_source batch' a True),
        snd (source_counts (fw_metrics fw) a) + of_nat (from_source batch' a False))"
    "\<forall>c. cumulative c (fw_metrics fw') = cumulative c (fw_metrics fw)"
proof -
  obtain fw1 fw2 fw' where
    r: "recv_from_channel_and_send_multiple_dest L net (Inr batch) dests sr dbg fw = Some (Inr (), fw')"
    and d: "dedup_batch net batch (note_received sr batch fw) = Some (fw1, batch', n)"
    and fw2: "fw2 = fold count_packet batch' fw1"
    and acc: "sent_account L net batch' n dests fw2 (fold (send_to L net batch' n) dests fw2)"
    and "\<exists>ts. fw' = (fold (send_to L net batch' n) dests fw2)\<lparr>fw_traces := ts\<rparr>"
    by (rule forward_stages[OF dd np tr])
  then obtain ts where fw': "fw' = (fold (send_to L net batch' n) dests fw2)\<lparr>fw_traces := ts\<rparr>" by blast
  note frame = fold_send_frame[of fw2 L net batch' n dests, unfolded same_but_sending_def]
  have fw1: "fw1 = (note_received sr batch fw)\<lparr>fw_deduper := d',
       fw_metrics := (fw_metrics (note_received sr batch fw))
         \<lparr>dedup_time_spent := dedup_time_spent (fw_metrics (note_received sr batch fw)) + dedup_usecs net\<rparr>,
       fw_prom := fw_prom (note_received sr batch fw) @
         [Observe DEDUP_DURATION_HIST (unat (dedup_usecs net)), IncBy PACKETS_DEDUPED_TOTAL n]\<rparr>"
    using d dd np by (auto simp: dedup_batch_def Let_def prom_defs)
  obtain ps p where fw2': "fw2 = fw1\<lparr>fw_metrics := (fw_metrics fw1)\<lparr>packets_received := ps\<rparr>,
      fw_prom := fw_prom fw1 @ p\<rparr>" "\<forall>c. incremented c p = 0"
    using fold_count_packet_frame[of fw1 batch'] fw2 by (auto simp: same_but_sources_def)
  have "sent_account L net batch' n dests fw fw'"
    unfolding fw' by (rule sent_account_frame[OF acc]) (simp_all add: fw2' fw1)
  moreover have "source_counts (fw_metrics fw') a =
       (fst (source_counts (fw_metrics fw) a) + of_nat (from_source batch' a True),
        snd (source_counts (fw_metrics fw) a) + of_nat (from_source batch' a False))" for a
  proof -
    have "source_counts (fw_metrics fw') a = source_counts (fw_metrics fw2) a"
      using frame by (simp add: fw' source_counts_def)
    then show ?thesis using fold_count_packet_sources[of batch' fw1 a] by (simp add: fw2 fw1)
  qed
  moreover have "cumulative c (fw_metrics fw') = cumulative c (fw_metrics fw)" for c
  proof -
    have "cumulative c (fw_metrics fw') = cumulative c (fw_metrics fw2)" using frame by (simp add: fw')
    then show ?thesis by (cases c) (simp_all add: fw2' fw1)
  qed
  ultimately show ?thesis using frame by (intro that[OF r]) (simp_all add: fw' fw2' fw1)
qed

section \<open>The threads that are started\<close>

lemma socket_threads:
  "distinct (concat (map (\<lambda>(i, _). [Listen i, Send i]) (List.enumerate a xs))) \<and>
   set (concat (map (\<lambda>(i, _). [Listen i, Send i]) (List.enumerate a xs))) \<subseteq> {t. \<exists>j \<ge> a. t = Listen j \<or> t = Send j} \<and>
   length (concat (map (\<lambda>(i, _). [Listen i, Send i]) (List.enumerate a xs))) = 2 * length xs"
  by (induction xs arbitrary: a) force+

text \<open>All threads but the reconstructor are returned, two for every socket.\<close>

lemma forwarder_threads_split:
  assumes "start_forwarder_threads par mbind ip port mcast n sr = Some (spawned, hdls)"
  shows "spawned = (if sr then [Reconstructor_Thread] else []) @ hdls"
    and "distinct hdls" and "set hdls \<subseteq> range Listen \<union> range Send"
    and "\<exists>p ss. mbind ip (port, port + 1) (case n of Some k \<Rightarrow> k | None \<Rightarrow> min (projr par) 4) = Inr (p, ss) \<and>
       length hdls = 2 * (length ss + (case mcast of None \<Rightarrow> 0 | Some ms \<Rightarrow> length ms))"
proof -
  obtain p ss where k: "mbind ip (port, port + 1) (case n of Some k \<Rightarrow> k | None \<Rightarrow> min (projr par) 4) = Inr (p, ss)"
    "hdls = concat (map (\<lambda>(i, _). [Listen i, Send i])
       (List.enumerate 0 (ss @ (case mcast of None \<Rightarrow> [] | Some ms \<Rightarrow> ms))))"
    and sp: "spawned = (if sr then [Reconstructor_Thread] else []) @ hdls"
    using assms unfolding start_forwarder_threads_def Let_def
    by (auto split: option.splits sum.splits prod.splits Option.bind_splits)
  note h = socket_threads[of 0 "ss @ (case mcast of None \<Rightarrow> [] | Some ms \<Rightarrow> ms)", folded k(2)]
  show "spawned = (if sr then [Reconstructor_Thread] else []) @ hdls" by (rule sp)
  show "distinct hdls" "set hdls \<subseteq> range Listen \<union> range Send" using h by auto
  show "\<exists>p ss. mbind ip (port, port + 1) (case n of Some k \<Rightarrow> k | None \<Rightarrow> min (projr par) 4) = Inr (p, ss) \<and>
       length hdls = 2 * (length ss + (case mcast of None \<Rightarrow> 0 | Some ms \<Rightarrow> length ms))"
    using h k(1) by (auto split: option.splits)
qed

end
