(* ===== verification/Forwarder_Props.thy ===== *)
theory Forwarder_Props
  imports Forwarder Example_Ledger
begin

text \<open>
  Properties of the forwarding path (\<^verbatim>\<open>proxy/src/forwarder.rs\<close>): what reaches the destinations,
  how the counters account for it, that a send thread does not panic, and which threads are
  joined.
\<close>

section \<open>The send thread\<close>

definition sender_inv :: "'d sender \<Rightarrow> bool" where
  "sender_inv s \<longleftrightarrow> \<not> fw_poisoned (sd_fw s) \<and>
     length (ch_items (fw_reconstruct (sd_fw s))) \<le> ch_capacity (fw_reconstruct (sd_fw s))"

fun sender_event_ok :: "ledger \<Rightarrow> bool \<Rightarrow> 'd sender_event \<Rightarrow> bool" where
  "sender_event_ok L dbg (RecvPackets usecs net (Inr batch)) =
     (dbg \<longrightarrow> (\<forall>d. traces_representable L net (fst (snd (dedup_and_count net d batch)))))"
| "sender_event_ok L dbg e = True"

lemma try_send_bounded:
  "length (ch_items c) \<le> ch_capacity c \<Longrightarrow>
   length (ch_items (try_send x c)) \<le> ch_capacity (try_send x c)"
  by (simp add: try_send_def)

interpretation send_thread: thread_body "sender_body L sr dbg" sender_inv
  "sender_event_ok L dbg :: 'd sender_event \<Rightarrow> bool" for L sr dbg
proof unfold_locales
  fix s :: "'d sender" and e :: "'d sender_event" assume inv: "sender_inv s" and ok: "sender_event_ok L dbg e"
  show "\<exists>r. sender_body L sr dbg e s = Some r \<and> sender_inv (after r)"
  proof (cases e)
    case (RecvPackets usecs net mb)
    let ?fw = "(sd_fw s)\<lparr>fw_prom := observe_recv_interval usecs (fw_prom (sd_fw s))\<rparr>"
    show ?thesis
    proof (cases mb)
      case (Inl err)
      then show ?thesis using RecvPackets inv
        by (simp add: recv_from_channel_and_send_multiple_dest_def sender_inv_def)
    next
      case (Inr batch)
      obtain d' batch' n where dd: "dedup_and_count net (fw_deduper ?fw) batch = (d', batch', n)"
        by (cases "dedup_and_count net (fw_deduper ?fw) batch") auto
      have np: "\<not> fw_poisoned ?fw" using inv by (simp add: sender_inv_def)
      have "traces_representable L net batch'" if dbg
      proof -
        have "traces_representable L net (fst (snd (dedup_and_count net (fw_deduper ?fw) batch)))"
          using ok RecvPackets Inr that by simp
        then show ?thesis by (simp only: dd fst_conv snd_conv)
      qed
      then have tr: "dbg \<longrightarrow> traces_representable L net batch'" by blast
      obtain fw' where
        "recv_from_channel_and_send_multiple_dest L net (Inr batch) (sd_dests s) sr dbg ?fw = Some (Inr (), fw')"
        "fw_poisoned fw' = fw_poisoned ?fw"
        "fw_reconstruct fw' = (if sr then try_send batch (fw_reconstruct ?fw) else fw_reconstruct ?fw)"
        by (rule forward_batch[OF dd np tr])
      then show ?thesis using RecvPackets Inr inv by (simp add: sender_inv_def try_send_bounded)
    qed
  qed (use inv in \<open>auto simp: sender_inv_def\<close>)
qed

section \<open>Properties\<close>

text \<open>The packets the socket is given for one destination.\<close>

definition deliverable :: "packet list \<Rightarrow> bytes list" where
  "deliverable batch = map (\<lambda>p. take (pk_size p) (pk_buffer p))
     [p \<leftarrow> batch. \<not> pk_discard p \<and> pk_size p \<le> length (pk_buffer p)]"

lemma survivors_deliverable: "packet_ok L \<Longrightarrow> survivors L batch = deliverable batch"
  by (induction batch) (auto simp: survivors_def deliverable_def packet_ok_def List.map_filter_simps)

text \<open>C8: Every batch is forwarded to every destination: unless the deduper lock is poisoned or a
trace timestamp is out of range, the call succeeds, and hands to the socket, once per destination
and in the order of the destination list, exactly the data of the packets that carry no discard
mark after deduplication, in arrival order; the packets it works on are the received ones except
for that mark, and a packet marked on arrival is never sent.\<close>

theorem forward_every_destination:
  assumes "packet_ok L" "dedup_ok net"
    and "dedup_and_count net (fw_deduper fw) batch = (d', batch', n)"
    and "\<not> fw_poisoned fw" "dbg \<longrightarrow> traces_representable L net batch'"
  shows "\<exists>fw'. recv_from_channel_and_send_multiple_dest L net (Inr batch) dests sr dbg fw = Some (Inr (), fw') \<and>
     fw_out fw' = fw_out fw @ map (\<lambda>a. map (\<lambda>d. (d, a)) (deliverable batch')) dests \<and>
     list_all2 (\<lambda>p p'. p' = p\<lparr>pk_discard := pk_discard p'\<rparr> \<and> (pk_discard p \<longrightarrow> pk_discard p')) batch batch'"
proof -
  obtain fw' where r: "recv_from_channel_and_send_multiple_dest L net (Inr batch) dests sr dbg fw = Some (Inr (), fw')"
    and acc: "sent_account L net batch' n dests fw fw'"
    by (rule forward_batch[OF assms(3-5)])
  have "fw_out fw' = fw_out fw @ map (\<lambda>a. map (\<lambda>d. (d, a)) (deliverable batch')) dests"
    using acc by (simp add: sent_account_def Let_def packets_with_dest_eq survivors_deliverable[OF assms(1)])
  moreover have "list_all2 (\<lambda>p p'. p' = p\<lparr>pk_discard := pk_discard p'\<rparr> \<and> (pk_discard p \<longrightarrow> pk_discard p')) batch batch'"
    using assms(2,3) unfolding dedup_ok_def by blast
  ultimately show ?thesis using r by blast
qed

text \<open>A deduper that remembers the packets it has seen.\<close>

fun ex_dedup :: "bytes list \<Rightarrow> packet list \<Rightarrow> bytes list \<times> packet list" where
  "ex_dedup seen [] = (seen, [])"
| "ex_dedup seen (p # ps) =
     (if pk_discard p \<or> pk_buffer p \<in> set seen
      then let (s, qs) = ex_dedup seen ps in (s, p\<lparr>pk_discard := True\<rparr> # qs)
      else let (s, qs) = ex_dedup (pk_buffer p # seen) ps in (s, p # qs))"

definition ex_net :: "bytes list net" where
  "ex_net = \<lparr>dedup_and_count = (\<lambda>d ps. case ex_dedup d ps of (d', qs) \<Rightarrow>
       (d', qs, of_nat (length (filter pk_discard qs)))),
     batch_send = (\<lambda>ps. if (\<exists>p\<in>set ps. snd p = SocketAddrV4 2 8001) then SendIoError ''unreachable'' 1 else SendOk),
     decode_trace = (\<lambda>b. if b = [7] then Some \<lparr>tr_region = ''ny'', tr_seq_num = 1, tr_created_at = Some (1, 0)\<rparr> else None),
     system_time_of = (\<lambda>(s, ns). Some (s * 1000000000 + ns)),
     UIO_MAXIOV = 1024, received_at = 1000005000, dedup_usecs = 3, send_usecs = (\<lambda>_. 4)\<rparr>"

definition ex_forwarder :: "bytes list forwarder" where
  "ex_forwarder = \<lparr>fw_deduper = [], fw_poisoned = False, fw_metrics = ShredMetrics_new True, fw_prom = [],
     fw_reconstruct = \<lparr>ch_capacity = 1024, ch_connected = True, ch_items = []\<rparr>, fw_out = [], fw_traces = []\<rparr>"

lemma ex_dedup_ok:
  "ex_dedup seen ps = (seen', qs) \<Longrightarrow>
   list_all2 (\<lambda>p p'. p' = p\<lparr>pk_discard := pk_discard p'\<rparr> \<and> (pk_discard p \<longrightarrow> pk_discard p')) ps qs"
proof (induction ps arbitrary: seen qs)
  case Nil
  then show ?case by simp
next
  case (Cons p ps)
  then show ?case by (auto split: if_splits prod.splits)
qed

lemma ex_net_ok: "dedup_ok ex_net" "packet_ok ex_ledger" "traces_representable ex_ledger ex_net batch"
proof -
  show "dedup_ok ex_net" unfolding dedup_ok_def ex_net_def
    using ex_dedup_ok by (auto split: prod.splits)
qed (auto simp: packet_ok_def ex_ledger_def traces_representable_def ex_net_def)

theorem forward_every_destination_witness:
  "\<exists>fw'. recv_from_channel_and_send_multiple_dest ex_ledger ex_net (Inr (map ex_packet [[5], [6], [5]]))
       [SocketAddrV4 1 8001, SocketAddrV4 2 8001] True True ex_forwarder = Some (Inr (), fw') \<and>
     fw_out fw' = [[([5], SocketAddrV4 1 8001), ([6], SocketAddrV4 1 8001)],
                   [([5], SocketAddrV4 2 8001), ([6], SocketAddrV4 2 8001)]]"
proof -
  have dd: "dedup_and_count ex_net (fw_deduper ex_forwarder) (map ex_packet [[5], [6], [5]]) =
      ([[6], [5]], [ex_packet [5], ex_packet [6], (ex_packet [5])\<lparr>pk_discard := True\<rparr>], 1)"
    by code_simp
  have np: "\<not> fw_poisoned ex_forwarder" by (simp add: ex_forwarder_def)
  show ?thesis
    using forward_every_destination[OF ex_net_ok(2,1) dd np, of True "[SocketAddrV4 1 8001, SocketAddrV4 2 8001]" True]
      ex_net_ok(3)
    by (auto simp: ex_forwarder_def deliverable_def ex_packet_def)
qed

text \<open>C18: The counters account for every packet of a batch: received grows by the batch size;
successes plus failures grow by the number of surviving packets times the number of destinations;
each source's discarded and not-discarded counts grow by its packets with and without the mark; the
batch statistics and the split by the maximal vector length add up to the same packets; and the
Prometheus totals grow by the same amounts. All arithmetic is modulo 2^64.\<close>

theorem forward_accounting:
  assumes "dedup_and_count net (fw_deduper fw) batch = (d', batch', n)"
    and "\<not> fw_poisoned fw" "dbg \<longrightarrow> traces_representable L net batch'"
  shows "\<exists>fw'. recv_from_channel_and_send_multiple_dest L net (Inr batch) dests sr dbg fw = Some (Inr (), fw') \<and>
    (let m = fw_metrics fw; m' = fw_metrics fw'; p = fw_prom fw; p' = fw_prom fw';
         k = of_nat (length dests * length (survivors L batch')) in
     received m' = received m + of_nat (length batch) \<and>
     success_forward m' + fail_forward m' = success_forward m + fail_forward m + k \<and>
     send_batch_size_sum m' = send_batch_size_sum m + k \<and>
     of_nat (UIO_MAXIOV net) * saturated_iov_count m' + unsaturated_iov_count m'
       = of_nat (UIO_MAXIOV net) * saturated_iov_count m + unsaturated_iov_count m + k \<and>
     (\<forall>a. source_counts m' a = (fst (source_counts m a) + of_nat (from_source batch' a True),
                                 snd (source_counts m a) + of_nat (from_source batch' a False))) \<and>
     incremented PACKETS_RECEIVED_TOTAL p' - incremented PACKETS_RECEIVED_TOTAL p = received m' - received m \<and>
     incremented PACKETS_FORWARDED_TOTAL p' - incremented PACKETS_FORWARDED_TOTAL p
       = success_forward m' - success_forward m \<and>
     incremented PACKETS_FORWARD_FAILED_TOTAL p' - incremented PACKETS_FORWARD_FAILED_TOTAL p
       = fail_forward m' - fail_forward m \<and>
     incremented PACKETS_DEDUPED_TOTAL p' - incremented PACKETS_DEDUPED_TOTAL p = n)"
proof -
  obtain fw' where r: "recv_from_channel_and_send_multiple_dest L net (Inr batch) dests sr dbg fw = Some (Inr (), fw')"
    and acc: "sent_account L net batch' n dests fw fw'"
    and rec: "received (fw_metrics fw') = received (fw_metrics fw) + of_nat (length batch)"
    "incremented PACKETS_RECEIVED_TOTAL (fw_prom fw') =
       incremented PACKETS_RECEIVED_TOTAL (fw_prom fw) + of_nat (length batch)"
    "incremented PACKETS_DEDUPED_TOTAL (fw_prom fw') = incremented PACKETS_DEDUPED_TOTAL (fw_prom fw) + n"
    "\<forall>a. source_counts (fw_metrics fw') a =
       (fst (source_counts (fw_metrics fw) a) + of_nat (from_source batch' a True),
        snd (source_counts (fw_metrics fw) a) + of_nat (from_source batch' a False))"
    by (rule forward_batch[OF assms])
  define k ok where "k = length (survivors L batch')" and "ok = length (filter (was_sent L net batch') dests)"
  have ok: "ok \<le> length dests" by (simp add: ok_def)
  have "of_nat (ok * k) + of_nat ((length dests - ok) * k) = (of_nat (length dests * k) :: u64)"
    using ok by (simp flip: of_nat_add distrib_right)
  moreover have "of_nat (UIO_MAXIOV net) * of_nat (length dests * (k div UIO_MAXIOV net))
      + of_nat (length dests * (k mod UIO_MAXIOV net)) = (of_nat (length dests * k) :: u64)"
  proof -
    have "UIO_MAXIOV net * (length dests * (k div UIO_MAXIOV net)) + length dests * (k mod UIO_MAXIOV net)
        = length dests * k"
      by (metis add_mult_distrib2 mult.left_commute mult_div_mod_eq)
    then show ?thesis by (metis of_nat_add of_nat_mult)
  qed
  ultimately show ?thesis using r rec acc
    by (intro exI[of _ fw'] conjI)
      (simp_all add: Let_def sent_account_def flip: k_def ok_def, simp_all add: algebra_simps)
qed

theorem forward_accounting_witness:
  "\<exists>fw'. recv_from_channel_and_send_multiple_dest ex_ledger ex_net (Inr (map ex_packet [[5], [6], [5]]))
       [SocketAddrV4 1 8001, SocketAddrV4 2 8001] True True ex_forwarder = Some (Inr (), fw') \<and>
     received (fw_metrics fw') = 3 \<and>
     success_forward (fw_metrics fw') + fail_forward (fw_metrics fw') = 4 \<and>
     source_counts (fw_metrics fw') (V4 0) = (1, 2)"
proof -
  let ?b = "[ex_packet [5], ex_packet [6], (ex_packet [5])\<lparr>pk_discard := True\<rparr>]"
  have dd: "dedup_and_count ex_net (fw_deduper ex_forwarder) (map ex_packet [[5], [6], [5]]) = ([[6], [5]], ?b, 1)"
    by code_simp
  have np: "\<not> fw_poisoned ex_forwarder" by (simp add: ex_forwarder_def)
  have init: "received (fw_metrics ex_forwarder) = 0" "success_forward (fw_metrics ex_forwarder) = 0"
    "fail_forward (fw_metrics ex_forwarder) = 0" "source_counts (fw_metrics ex_forwarder) (V4 0) = (0, 0)"
    by (simp_all add: ex_forwarder_def ShredMetrics_new_def source_counts_def)
  have "length (survivors ex_ledger ?b) = 2" by code_simp
  then show ?thesis
    using forward_accounting[OF dd np, of True ex_ledger "[SocketAddrV4 1 8001, SocketAddrV4 2 8001]" True]
      ex_net_ok(3)
    by (auto simp: init Let_def ex_packet_def)
qed

text \<open>The duplicate counter does not count duplicate packets: it grows by the number of
discarded packets once per destination that was reached (so by nothing when there is no
destination, and by a multiple with several), and by the number of failed packets, which are no
duplicates, for each destination that was not.\<close>

theorem duplicate_counter_effect:
  assumes "dedup_and_count net (fw_deduper fw) batch = (d', batch', n)"
    and "\<not> fw_poisoned fw" "dbg \<longrightarrow> traces_representable L net batch'"
  shows "\<exists>fw'. recv_from_channel_and_send_multiple_dest L net (Inr batch) dests sr dbg fw = Some (Inr (), fw') \<and>
     duplicate (fw_metrics fw') = duplicate (fw_metrics fw)
       + of_nat (length [a \<leftarrow> dests. batch_send net (packets_with_dest L batch' a) = SendOk]) * n
       + of_nat (sum_list (map (\<lambda>a. failed_of (batch_send net (packets_with_dest L batch' a))) dests))"
proof -
  obtain fw' where r: "recv_from_channel_and_send_multiple_dest L net (Inr batch) dests sr dbg fw = Some (Inr (), fw')"
    and acc: "sent_account L net batch' n dests fw fw'"
    by (rule forward_batch[OF assms])
  then show ?thesis by (intro exI[of _ fw']) (simp add: sent_account_def Let_def was_sent_def[abs_def])
qed

text \<open>One duplicate packet, two destinations that are reached and one that is not: counted three times.\<close>

theorem duplicate_counter_effect_witness:
  "\<exists>fw'. recv_from_channel_and_send_multiple_dest ex_ledger ex_net (Inr (map ex_packet [[5], [6], [5]]))
       [SocketAddrV4 1 8001, SocketAddrV4 2 8001, SocketAddrV4 3 8001] False False ex_forwarder
       = Some (Inr (), fw') \<and> duplicate (fw_metrics fw') = 3"
proof -
  let ?b = "[ex_packet [5], ex_packet [6], (ex_packet [5])\<lparr>pk_discard := True\<rparr>]"
  let ?dests = "[SocketAddrV4 1 8001, SocketAddrV4 2 8001, SocketAddrV4 3 8001]"
  have dd: "dedup_and_count ex_net (fw_deduper ex_forwarder) (map ex_packet [[5], [6], [5]]) = ([[6], [5]], ?b, 1)"
    by code_simp
  have np: "\<not> fw_poisoned ex_forwarder" by (simp add: ex_forwarder_def)
  have "length [a \<leftarrow> ?dests. batch_send ex_net (packets_with_dest ex_ledger ?b a) = SendOk] = 2"
    "sum_list (map (\<lambda>a. failed_of (batch_send ex_net (packets_with_dest ex_ledger ?b a))) ?dests) = 1"
    "duplicate (fw_metrics ex_forwarder) = 0"
    by code_simp+
  then show ?thesis using duplicate_counter_effect[OF dd np, of False ex_ledger ?dests False] by auto
qed

text \<open>C32: A send thread never panics and never outgrows the channel to the reconstructor: if its
socket can be bound, the deduper lock is not poisoned, and trace timestamps are in range whenever
trace shreds are reported, then every run of the thread ends normally, with at most the channel's
capacity of batches queued.\<close>

theorem sender_never_panics:
  assumes "\<not> fw_poisoned fw" "length (ch_items (fw_reconstruct fw)) \<le> ch_capacity (fw_reconstruct fw)"
    and "\<forall>e. Event e \<in> set polls \<longrightarrow> sender_event_ok L dbg e"
  shows "\<exists>s. sender_thread L sr dbg (Inr ()) dests polls fw = Some s \<and>
     length (ch_items (fw_reconstruct (sd_fw s))) \<le> ch_capacity (fw_reconstruct (sd_fw s))"
  using send_thread.loop_ok[of "\<lparr>sd_fw = fw, sd_dests = dests\<rparr>" polls L dbg sr] assms
  by (auto simp: sender_thread_def sender_inv_def)

theorem sender_never_panics_witness:
  "\<exists>s. sender_thread ex_ledger True False (Inr ()) [SocketAddrV4 1 8001]
       [Event (RecvPackets 5 ex_net (Inr [ex_packet [5]])), Event (RefreshTick []), Event ShutdownMsg]
       ex_forwarder = Some s \<and>
     length (ch_items (fw_reconstruct (sd_fw s))) \<le> ch_capacity (fw_reconstruct (sd_fw s))"
  by (rule sender_never_panics) (auto simp: ex_forwarder_def)

text \<open>Starting the forwarder spawns distinct threads, two per bound or multicast socket, and
returns exactly the handles of those; the reconstructor, spawned whenever entries are to be
served, is never among the handles the main thread joins.\<close>

theorem forwarder_handles:
  assumes "start_forwarder_threads par mbind ip port mcast n sr = Some (spawned, hdls)"
  shows "distinct spawned \<and> set hdls \<subseteq> set spawned \<and> Reconstructor_Thread \<notin> set hdls \<and>
     (Reconstructor_Thread \<in> set spawned \<longleftrightarrow> sr) \<and>
     (\<exists>p ss. mbind ip (port, port + 1) (case n of Some k \<Rightarrow> k | None \<Rightarrow> min (projr par) 4) = Inr (p, ss) \<and>
        length hdls = 2 * (length ss + (case mcast of None \<Rightarrow> 0 | Some ms \<Rightarrow> length ms)))"
proof -
  note sp = forwarder_threads_split[OF assms]
  have "Reconstructor_Thread \<notin> set hdls" using sp(3) by blast
  then show ?thesis using sp by auto
qed

theorem forwarder_handles_witness:
  "\<exists>spawned hdls. start_forwarder_threads (Inr 16) (\<lambda>ip range n. Inr (fst range, replicate n ())) (V4 0) 20000
       (Some [()]) None True = Some (spawned, hdls) \<and> length hdls = 10 \<and> length spawned = 11 \<and>
     Reconstructor_Thread \<notin> set hdls"
proof -
  obtain spawned hdls where s: "start_forwarder_threads (Inr 16) (\<lambda>ip range n. Inr (fst range, replicate n ()))
      (V4 0) 20000 (Some [()]) None True = Some (spawned, hdls)" "length hdls = 10" "length spawned = 11"
    by (simp add: start_forwarder_threads_def Let_def numeral_eq_Suc)
  then show ?thesis using forwarder_handles[OF s(1)] by blast
qed

end
