(* ===== verification/Destinations.thy ===== *)
theory Destinations
  imports Proxy_Error Shred_Metrics
begin

text \<open>
  The two maintenance threads of \<^verbatim>\<open>proxy/src/forwarder.rs\<close>: \<^verbatim>\<open>start_destination_refresh_thread\<close>
  with \<^verbatim>\<open>fetch_unioned_destinations\<close>, and \<^verbatim>\<open>start_forwarder_accessory_thread\<close>.
\<close>

section \<open>Fetching the destinations\<close>

text \<open>
  \<open>http_get\<close> is the request with the body read, \<open>parse_ips\<close> is
  \<^verbatim>\<open>serde_json::from_slice::<Vec<IpAddr>>\<close>, \<open>to_socket_addrs\<close> the system's resolver and
  \<open>unique\<close> the iterator adaptor of \<^verbatim>\<open>itertools\<close>.
\<close>

record discovery =
  http_get :: "string \<Rightarrow> err + bytes"
  parse_ips :: "bytes \<Rightarrow> err + IpAddr list"
  to_socket_addrs :: "string \<Rightarrow> io_error + SocketAddr list"
  unique :: "SocketAddr list \<Rightarrow> SocketAddr list"

definition reresolve :: "discovery \<Rightarrow> (SocketAddr \<times> string) list \<Rightarrow> SocketAddr list" where
  "reresolve D static_dest_sockets = List.map_filter
     (\<lambda>(_, hostname_port). case resolve_hostname_port (to_socket_addrs D) hostname_port of
        Inl e \<Rightarrow> None | Inr (a, _) \<Rightarrow> Some a) static_dest_sockets"

definition fetch_unioned_destinations ::
  "discovery \<Rightarrow> string \<Rightarrow> u16 \<Rightarrow> (SocketAddr \<times> string) list \<Rightarrow> ShredstreamProxyError + SocketAddr list" where
  "fetch_unioned_destinations D endpoint_discovery_url discovered_endpoints_port static_dest_sockets =
     (case http_get D endpoint_discovery_url of
        Inl e \<Rightarrow> Inl (ReqwestError e)
      | Inr bytes \<Rightarrow> (case parse_ips D bytes of
          Inl e \<Rightarrow> Inl (SerdeJsonError e)
        | Inr ips \<Rightarrow> Inr (unique D
            (map (\<lambda>ip. SocketAddr_new ip discovered_endpoints_port) ips
             @ reresolve D static_dest_sockets))))"

section \<open>The refresh thread\<close>

text \<open>
  \<open>rf_dests\<close> is the shared list the send threads load, \<open>rf_count\<close> the local
  \<^verbatim>\<open>socket_count\<close>; \<open>rf_reported\<close> and \<open>rf_errors\<close> are the data points, the count each carries.
\<close>

record refresher =
  rf_dests :: "SocketAddr list"
  rf_count :: nat
  rf_reported :: "nat list"
  rf_errors :: "nat list"

datatype refresh_event = FetchTick discovery | RefreshMetricsTick | RefreshShutdown

fun refresh_body ::
  "string \<Rightarrow> u16 \<Rightarrow> (SocketAddr \<times> string) list \<Rightarrow> refresh_event \<Rightarrow> refresher \<Rightarrow> refresher verdict option" where
  "refresh_body url port static_dests (FetchTick D) s = Some (Continue
     (case fetch_unioned_destinations D url port static_dests of
        Inl e \<Rightarrow> s\<lparr>rf_errors := rf_errors s @ [rf_count s]\<rparr>
      | Inr new_sockets \<Rightarrow> s\<lparr>rf_count := length new_sockets, rf_dests := new_sockets\<rparr>))"
| "refresh_body url port static_dests RefreshMetricsTick s =
     Some (Continue (s\<lparr>rf_reported := rf_reported s @ [rf_count s]\<rparr>))"
| "refresh_body url port static_dests RefreshShutdown s = Some (Break s)"

definition start_destination_refresh_thread ::
  "string \<Rightarrow> u16 \<Rightarrow> (SocketAddr \<times> string) list \<Rightarrow> SocketAddr list \<Rightarrow> refresh_event poll list \<Rightarrow>
   refresher option" where
  "start_destination_refresh_thread url port static_dests unioned polls =
     event_loop (refresh_body url port static_dests) polls
       \<lparr>rf_dests = unioned, rf_count = length static_dests, rf_reported = [], rf_errors = []\<rparr>"

section \<open>The accessory thread\<close>

text \<open>
  \<open>DeduperTick f\<close>: \<open>f\<close> is \<^verbatim>\<open>maybe_reset\<close> with the random state of that moment. A tick whose
  lock is poisoned panics.
\<close>

record 'd accessory =
  ac_deduper :: 'd
  ac_poisoned :: bool
  ac_metrics :: ShredMetrics
  ac_points :: "datapoint list"

datatype 'd accessory_event = DeduperTick "'d \<Rightarrow> 'd" | MetricsTick | AccessoryShutdown

fun accessory_body :: "'d accessory_event \<Rightarrow> 'd accessory \<Rightarrow> 'd accessory verdict option" where
  "accessory_body (DeduperTick maybe_reset) s =
     (if ac_poisoned s then None
      else Some (Continue (s\<lparr>ac_deduper := maybe_reset (ac_deduper s)\<rparr>)))"
| "accessory_body MetricsTick s =
     (case report (ac_metrics s) of (m, points) \<Rightarrow>
        Some (Continue (s\<lparr>ac_metrics := reset m, ac_points := ac_points s @ points\<rparr>)))"
| "accessory_body AccessoryShutdown s = Some (Break s)"

definition start_forwarder_accessory_thread ::
  "'d accessory \<Rightarrow> 'd accessory_event poll list \<Rightarrow> 'd accessory option" where
  "start_forwarder_accessory_thread s polls = event_loop accessory_body polls s"

section \<open>Lemmas\<close>

text \<open>Documented behaviour of \<^verbatim>\<open>unique\<close>: no element twice, and none lost.\<close>

definition unique_ok :: "discovery \<Rightarrow> bool" where
  "unique_ok D \<longleftrightarrow> (\<forall>xs. distinct (unique D xs) \<and> set (unique D xs) = set xs)"

lemma set_reresolve:
  "set (reresolve D st) =
     {a. \<exists>old h as. (old, h) \<in> set st \<and> to_socket_addrs D h = Inr (a # as)}"
proof (induction st)
  case Nil
  then show ?case by (simp add: reresolve_def List.map_filter_simps)
next
  case (Cons x st)
  obtain old h where x: "x = (old, h)" by force
  show ?case
  proof (cases "resolve_hostname_port (to_socket_addrs D) h")
    case (Inl e)
    then have "\<nexists>a as. to_socket_addrs D h = Inr (a # as)"
      by (auto simp: resolve_hostname_port_def)
    then show ?thesis using Cons Inl by (auto simp: x reresolve_def List.map_filter_simps)
  next
    case (Inr r)
    then obtain a where r: "r = (a, h)" "\<exists>as. to_socket_addrs D h = Inr (a # as)"
      using resolve_hostname_port_iff by (cases r) metis
    then show ?thesis using Cons Inr by (auto simp: x reresolve_def List.map_filter_simps)
  qed
qed

text \<open>
  The state of the refresh thread: its list is the initial one or the result of a successful
  fetch among \<open>Ds\<close>.
\<close>

definition fetched_from ::
  "string \<Rightarrow> u16 \<Rightarrow> (SocketAddr \<times> string) list \<Rightarrow> SocketAddr list \<Rightarrow> discovery set \<Rightarrow> refresher \<Rightarrow> bool" where
  "fetched_from url port st unioned Ds s \<longleftrightarrow>
     (rf_dests s = unioned \<and> rf_count s = length st) \<or>
     (\<exists>D\<in>Ds. fetch_unioned_destinations D url port st = Inr (rf_dests s) \<and> rf_count s = length (rf_dests s))"

interpretation dest_refresh: thread_body "refresh_body url port st" "fetched_from url port st unioned Ds"
  "\<lambda>e. \<forall>D. e = FetchTick D \<longrightarrow> D \<in> Ds" for url port st unioned Ds
proof unfold_locales
  fix s e assume "fetched_from url port st unioned Ds s" "\<forall>D. e = FetchTick D \<longrightarrow> D \<in> Ds"
  then show "\<exists>r. refresh_body url port st e s = Some r \<and> fetched_from url port st unioned Ds (after r)"
    by (cases e) (auto simp: fetched_from_def split: sum.splits)
qed

text \<open>The accessory thread keeps the sums of current and cumulative counters.\<close>

definition tallies :: "ShredMetrics \<Rightarrow> tally \<Rightarrow> u64" where
  "tallies m = (\<lambda>c. current c m + cumulative c m)"

lemma report_tallies: "tallies (fst (report m)) = tallies m"
proof
  fix c show "tallies (fst (report m)) c = tallies m c"
    by (cases c) (simp_all add: tallies_def report_def clear_service_def)
qed

lemma reset_tallies: "tallies (reset m) = tallies m"
proof
  fix c show "tallies (reset m) c = tallies m c"
    by (cases c) (simp_all add: tallies_def reset_eq)
qed

interpretation accessory_loop: thread_body accessory_body
  "\<lambda>s. \<not> ac_poisoned s \<and> tallies (ac_metrics s) = t" "\<lambda>_ :: 'd accessory_event. True" for t
proof unfold_locales
  fix s :: "'d accessory" and e :: "'d accessory_event"
  assume "\<not> ac_poisoned s \<and> tallies (ac_metrics s) = t"
  then show "\<exists>r. accessory_body e s = Some r \<and> \<not> ac_poisoned (after r) \<and> tallies (ac_metrics (after r)) = t"
    using report_tallies[of "ac_metrics s"] by (cases e) (auto simp: reset_tallies split: prod.splits)
qed

section \<open>Properties\<close>

text \<open>C31: A successful fetch returns each destination once: the addresses of the service's IPs at the
discovery port together with the current first addresses of the configured hostnames; names that do
not resolve are left out, whatever they resolved to before.\<close>

theorem fetched_destinations:
  assumes "unique_ok D" "fetch_unioned_destinations D url port st = Inr dests"
  shows "distinct dests \<and> (\<exists>bytes ips. http_get D url = Inr bytes \<and> parse_ips D bytes = Inr ips \<and>
     set dests = (\<lambda>ip. SocketAddr_new ip port) ` set ips \<union>
       {a. \<exists>old h as. (old, h) \<in> set st \<and> to_socket_addrs D h = Inr (a # as)})"
  using assms by (auto simp: fetch_unioned_destinations_def unique_ok_def set_reresolve split: sum.splits)

definition ex_discovery :: discovery where
  "ex_discovery = \<lparr>http_get = (\<lambda>u. if u = ''up'' then Inr [1, 2, 1] else Inl ''refused''),
     parse_ips = (\<lambda>b. Inr (map (\<lambda>x. V4 (ucast x)) b)),
     to_socket_addrs = (\<lambda>h. if h = ''a:8001'' then Inr [SocketAddrV4 1 8001] else
        if h = ''b:8001'' then Inr [SocketAddrV4 7 8001, SocketAddrV4 8 8001] else Inl (OtherError, h)),
     unique = remdups\<rparr>"

theorem fetched_destinations_witness:
  "\<exists>dests. fetch_unioned_destinations ex_discovery ''up'' 8001
       [(SocketAddrV4 1 8001, ''a:8001''), (SocketAddrV4 5 8001, ''b:8001''), (SocketAddrV4 6 9, ''gone'')] = Inr dests
     \<and> distinct dests \<and> dests = [SocketAddrV4 2 8001, SocketAddrV4 1 8001, SocketAddrV4 7 8001]"
proof -
  let ?st = "[(SocketAddrV4 1 8001, ''a:8001''), (SocketAddrV4 5 8001, ''b:8001''), (SocketAddrV4 6 9, ''gone'')]"
  have r: "fetch_unioned_destinations ex_discovery ''up'' 8001 ?st =
      Inr [SocketAddrV4 2 8001, SocketAddrV4 1 8001, SocketAddrV4 7 8001]"
    by code_simp
  have "unique_ok ex_discovery" by (simp add: unique_ok_def ex_discovery_def)
  then show ?thesis using fetched_destinations[OF _ r] r by blast
qed


text \<open>The accessory thread never panics as long as the deduper lock is not poisoned, and no number
of its ticks changes the sum of the current and the cumulative value of any of the four persistent
counters.\<close>

theorem accessory_conserves:
  assumes "\<not> ac_poisoned s"
  shows "\<exists>s'. start_forwarder_accessory_thread s polls = Some s' \<and>
     (\<forall>c. current c (ac_metrics s') + cumulative c (ac_metrics s')
        = current c (ac_metrics s) + cumulative c (ac_metrics s))"
  using accessory_loop.loop_ok[of s "tallies (ac_metrics s)" polls] assms
  by (auto simp: start_forwarder_accessory_thread_def tallies_def fun_eq_iff)

theorem accessory_conserves_witness:
  "\<exists>s'. start_forwarder_accessory_thread
       \<lparr>ac_deduper = (0 :: nat), ac_poisoned = False,
        ac_metrics = (ShredMetrics_new True)\<lparr>received := 7, agg_received_cumulative := 30\<rparr>, ac_points = []\<rparr>
       [Event (DeduperTick Suc), Event MetricsTick, Event AccessoryShutdown] = Some s' \<and>
     current Received (ac_metrics s') + cumulative Received (ac_metrics s') = 37"
proof -
  let ?s = "\<lparr>ac_deduper = (0 :: nat), ac_poisoned = False,
        ac_metrics = (ShredMetrics_new True)\<lparr>received := 7, agg_received_cumulative := 30\<rparr>, ac_points = []\<rparr>"
  let ?polls = "[Event (DeduperTick Suc), Event MetricsTick, Event AccessoryShutdown]"
  obtain s' where "start_forwarder_accessory_thread ?s ?polls = Some s'"
    "\<forall>c. current c (ac_metrics s') + cumulative c (ac_metrics s')
        = current c (ac_metrics ?s) + cumulative c (ac_metrics ?s)"
    using accessory_conserves[of ?s ?polls] by auto
  moreover have "current Received (ac_metrics ?s) + cumulative Received (ac_metrics ?s) = 37" by simp
  ultimately show ?thesis by (intro exI[of _ s'] conjI) (assumption, simp only:)
qed

end
