(* ===== verification/Server.thy ===== *)
theory Server
  imports Reconstructor
begin

text \<open>
  \<^verbatim>\<open>proxy/src/server.rs\<close>: the task that forwards broadcast entries to one subscriber and the
  thread that runs the service. The broadcast channel is third-party code: what a subscriber's
  receiver returns is a parameter.
\<close>

section \<open>A subscription\<close>

text \<open>
  One iteration of the forwarding task: what \<^verbatim>\<open>recv\<close> returned, and whether the subscriber's
  channel accepted the message.
\<close>

fun forward_entries :: "((err + PbEntry) \<times> bool) list \<Rightarrow> PbEntry list" where
  "forward_entries [] = []"
| "forward_entries ((Inl e, _) # rest) = []"
| "forward_entries ((Inr entry, accepted) # rest) = (if accepted then entry # forward_entries rest else [])"

text \<open>
  \<^verbatim>\<open>subscribe_entries\<close> answers at once with the stream; the task fills it. \<open>recvs\<close> is given the
  capacity of the subscriber's channel.
\<close>

definition subscribe_entries :: "(nat \<Rightarrow> ((err + PbEntry) \<times> bool) list) \<Rightarrow> PbEntry list" where
  "subscribe_entries recvs = forward_entries (recvs 100)"

section \<open>The service thread\<close>

datatype server_event = ServerTimeout | ServerShutdown

record entry_server =
  es_aborted :: bool

fun server_body :: "server_event \<Rightarrow> entry_server \<Rightarrow> entry_server verdict option" where
  "server_body ServerTimeout s = Some (Continue s)"
| "server_body ServerShutdown s = Some (Break (s\<lparr>es_aborted := True\<rparr>))"

definition start_server_thread :: "(err + unit) \<Rightarrow> server_event poll list \<Rightarrow> entry_server option" where
  "start_server_thread runtime polls = (case runtime of
      Inl e \<Rightarrow> None
    | Inr _ \<Rightarrow> event_loop server_body polls \<lparr>es_aborted = False\<rparr>)"

section \<open>The example client\<close>

text \<open>
  \<^verbatim>\<open>examples/deshred.rs\<close>: what it prints for every message. \<open>messages\<close> are the results of
  \<^verbatim>\<open>stream.message()\<close>: an error panics, the end of the stream ends the loop.
\<close>

datatype client_line = DeserializationFailed err | SlotLine u64 nat nat

definition client_line_of :: "ledger \<Rightarrow> PbEntry \<Rightarrow> client_line" where
  "client_line_of L msg = (case deserialize_entries L (pb_entries msg) of
      Inl e \<Rightarrow> DeserializationFailed e
    | Inr entries \<Rightarrow> SlotLine (pb_slot msg) (length entries)
        (sum_list (map (\<lambda>e. length (transactions e)) entries)))"

fun client_loop :: "ledger \<Rightarrow> (err + PbEntry option) list \<Rightarrow> client_line list \<Rightarrow> client_line list option" where
  "client_loop L [] out = Some out"
| "client_loop L (Inl e # ms) out = None"
| "client_loop L (Inr None # ms) out = Some out"
| "client_loop L (Inr (Some m) # ms) out = client_loop L ms (out @ [client_line_of L m])"

interpretation entry_service: thread_body server_body "\<lambda>_. True" "\<lambda>_. True"
proof unfold_locales
  fix s e show "\<exists>r. server_body e s = Some r \<and> True" by (cases e) auto
qed

section \<open>Lemmas\<close>

abbreviation isr :: "'a + 'b \<Rightarrow> bool" where
  "isr r \<equiv> \<not> isl r"

lemma forward_entries_eq:
  "forward_entries rs = map (projr \<circ> fst) (takeWhile (\<lambda>(r, ok). isr r \<and> ok) rs)"
  by (induction rs rule: forward_entries.induct) auto

lemma client_loop_messages:
  "client_loop L (map (Inr \<circ> Some) ms @ [Inr None]) out = Some (out @ map (client_line_of L) ms)"
  by (induction ms arbitrary: out) auto

text \<open>
  A receiver that has not fallen behind: up to its first error it returns what was sent since
  the subscription, in order.
\<close>

definition in_order :: "PbEntry list \<Rightarrow> ((err + PbEntry) \<times> bool) list \<Rightarrow> bool" where
  "in_order since rs \<longleftrightarrow> map (projr \<circ> fst) (takeWhile (\<lambda>x. isr (fst x)) rs)
      = take (length (takeWhile (\<lambda>x. isr (fst x)) rs)) since"

lemma forward_entries_prefix:
  assumes "in_order since rs"
  shows "forward_entries rs = take (length (forward_entries rs)) since"
    and "\<forall>(r, ok)\<in>set rs. isr r \<and> ok \<Longrightarrow> length (forward_entries rs) = length rs"
proof -
  let ?p = "\<lambda>(r, ok). isr r \<and> ok"
  have le: "length (takeWhile ?p rs) \<le> length (takeWhile (\<lambda>x. isr (fst x)) rs) \<and>
    takeWhile ?p rs = take (length (takeWhile ?p rs)) (takeWhile (\<lambda>x. isr (fst x)) rs)" for rs
    by (induction rs) (auto split: prod.splits)
  have "forward_entries rs = take (length (takeWhile ?p rs)) (map (projr \<circ> fst) (takeWhile (\<lambda>x. isr (fst x)) rs))"
    unfolding take_map using le[of rs] by (subst forward_entries_eq) simp
  also have "\<dots> = take (length (takeWhile ?p rs)) since"
    using assms le[of rs] by (simp add: in_order_def min_absorb1)
  finally show "forward_entries rs = take (length (forward_entries rs)) since"
    by (metis forward_entries_eq length_map)
  assume "\<forall>(r, ok)\<in>set rs. isr r \<and> ok"
  then have "takeWhile ?p rs = rs" unfolding takeWhile_eq_all_conv by blast
  then show "length (forward_entries rs) = length rs" by (simp only: forward_entries_eq length_map)
qed

text \<open>The messages of a thread are appended, and come from the items a batch delivered.\<close>

lemma reconstructor_sent:
  assumes "reconstructor_body L e r = Some v"
  shows "\<exists>new. sent (after v) = sent r @ new \<and>
     (\<forall>m\<in>set new. \<exists>pkts st n rep es. e = PktBatch pkts \<and> reconstruct_shreds L pkts (recon r) = Some (st, n, rep) \<and>
        (pb_slot m, es, pb_entries m) \<in> set (deshredded_entries st))"
proof (cases e)
  case (PktBatch pkts)
  then obtain st n rep where "reconstruct_shreds L pkts (recon r) = Some (st, n, rep)"
    "sent (after v) = sent r @ drain_entries st"
    using assms by (auto split: Option.bind_splits)
  then show ?thesis using PktBatch by (auto simp: drain_entries_def)
qed (use assms in auto)

lemma loop_sent_deserialize:
  assumes L: "ledger_ok L" and inv: "thread_inv L r"
    and run: "event_loop (reconstructor_body L) polls r = Some r'"
    and old: "\<forall>m\<in>set (sent r). \<exists>es. deserialize_entries L (pb_entries m) = Inr es"
  shows "\<forall>m\<in>set (sent r'). \<exists>es. deserialize_entries L (pb_entries m) = Inr es"
  using inv run old
proof (induction polls arbitrary: r)
  case Nil
  then show ?case by simp
next
  case (Cons p polls)
  show ?case
  proof (cases p)
    case ExitSet
    then show ?thesis using Cons.prems by simp
  next
    case (Event e)
    obtain v where v: "reconstructor_body L e r = Some v" "thread_inv L (after v)"
      using recon_thread.body_ok[OF Cons.prems(1)] L by blast
    have "\<forall>m\<in>set (sent (after v)). \<exists>es. deserialize_entries L (pb_entries m) = Inr es"
    proof
      fix m assume m: "m \<in> set (sent (after v))"
      obtain new where new: "sent (after v) = sent r @ new"
        "\<forall>m\<in>set new. \<exists>pkts st n rep es. e = PktBatch pkts \<and> reconstruct_shreds L pkts (recon r) = Some (st, n, rep) \<and>
          (pb_slot m, es, pb_entries m) \<in> set (deshredded_entries st)"
        using reconstructor_sent[OF v(1)] by blast
      show "\<exists>es. deserialize_entries L (pb_entries m) = Inr es"
      proof (cases "m \<in> set (sent r)")
        case True
        then show ?thesis using Cons.prems(3) by blast
      next
        case False
        then obtain pkts st n rep es where d: "reconstruct_shreds L pkts (recon r) = Some (st, n, rep)"
          "(pb_slot m, es, pb_entries m) \<in> set (deshredded_entries st)"
          using m new by auto
        have "recon_inv L (recon r)" using Cons.prems(1) by (simp add: thread_inv_def)
        from delivered_account[OF L this d(1)] obtain tr ds where
          "deshredded_entries st = map fst ds" "\<forall>(d, run)\<in>set ds. delivers L tr d run" by blast
        then show ?thesis using d(2) by force
      qed
    qed
    then show ?thesis using Cons.IH[OF v(2)] Cons.prems(2) Event v(1) by (cases v) auto
  qed
qed

section \<open>Properties\<close>

text \<open>C24: A subscriber that keeps up receives what the reconstructor broadcasts, in order and without
gaps: as long as its receiver reports no error and its channel accepts, it gets the messages sent
since it subscribed; the stream ends for good at the first error, and what it got until then is a
prefix of those messages.\<close>

theorem subscriber_gets_prefix:
  assumes "in_order since (recvs 100)"
  shows "subscribe_entries recvs = take (length (subscribe_entries recvs)) since \<and>
     ((\<forall>(r, ok)\<in>set (recvs 100). isr r \<and> ok) \<longrightarrow> subscribe_entries recvs = take (length (recvs 100)) since)"
  using forward_entries_prefix[OF assms] unfolding subscribe_entries_def by auto

definition ex_entry :: "u64 \<Rightarrow> PbEntry" where
  "ex_entry s = \<lparr>pb_slot = s, pb_entries = [1]\<rparr>"

theorem subscriber_gets_prefix_witness:
  "subscribe_entries (\<lambda>_. [(Inr (ex_entry 1), True), (Inr (ex_entry 2), True), (Inl ''lagged'', True),
       (Inr (ex_entry 9), True)]) = take 2 (map ex_entry [1, 2, 3, 4, 9])"
proof -
  let ?rs = "[(Inr (ex_entry 1), True), (Inr (ex_entry 2), True), (Inl ''lagged'', True), (Inr (ex_entry 9), True)]"
  have "in_order (map ex_entry [1, 2, 3, 4, 9]) ((\<lambda>_. ?rs) (100 :: nat))" by (simp add: in_order_def)
  from subscriber_gets_prefix[OF this] show ?thesis by (simp add: subscribe_entries_def)
qed

text \<open>Whatever batches arrive, every message the reconstructor broadcasts to subscribers carries bytes
that deserialize into entries.\<close>

theorem broadcast_entries_deserialize:
  assumes "ledger_ok L" "reconstructor_thread L polls grpc = Some r" "m \<in> set (sent r)"
  shows "\<exists>es. deserialize_entries L (pb_entries m) = Inr es"
proof -
  have "sent (initial_reconstructor grpc) = []" by (simp add: initial_reconstructor_def)
  then show ?thesis
    using loop_sent_deserialize[OF assms(1) thread_inv_initial assms(2)[unfolded reconstructor_thread_def]] assms(3)
    by simp
qed

theorem broadcast_entries_deserialize_witness:
  "\<exists>r m. reconstructor_thread ex_ledger [Event (PktBatch (map ex_packet [[0,9,0,0,1,11,12]]))] True = Some r \<and>
     sent r = [m] \<and> (\<exists>es. deserialize_entries ex_ledger (pb_entries m) = Inr es)"
proof -
  have "map_option sent (reconstructor_thread ex_ledger [Event (PktBatch (map ex_packet [[0,9,0,0,1,11,12]]))] True)
      = Some [\<lparr>pb_slot = 9, pb_entries = [11, 12]\<rparr>]"
    by code_simp
  then obtain r where r: "reconstructor_thread ex_ledger [Event (PktBatch (map ex_packet [[0,9,0,0,1,11,12]]))] True = Some r"
    "sent r = [\<lparr>pb_slot = 9, pb_entries = [11, 12]\<rparr>]" by auto
  then show ?thesis using broadcast_entries_deserialize[OF ex_ledger_ok r(1)] by simp
qed

end
