(* ===== verification/Token_Auth.thy ===== *)
theory Token_Auth
  imports Proxy_Error
begin

text \<open>
  \<^verbatim>\<open>proxy/src/token_authenticator.rs\<close>: the authentication exchange, the task that refreshes
  the access token, the interceptor that adds it to requests, and opening a channel. The
  authentication service and the clock are parameters.
\<close>

section \<open>The exchange\<close>

type_synonym timestamp = "int \<times> int"

record token =
  tk_value :: string
  tk_expires_at_utc :: "timestamp option"

record auth_tokens =
  access_token :: "token option"
  refresh_token :: "token option"

record keypair =
  kp_pubkey :: bytes
  kp_pubkey_text :: string
  kp_sign :: "string \<Rightarrow> bytes"

text \<open>The calls of the client, as they answer at one moment.\<close>

record auth_service =
  generate_auth_challenge :: "int \<Rightarrow> bytes \<Rightarrow> err + string"
  generate_auth_tokens :: "string \<Rightarrow> bytes \<Rightarrow> bytes \<Rightarrow> err + auth_tokens"
  refresh_access_token :: "string \<Rightarrow> err + token option"

definition auth ::
  "auth_service \<Rightarrow> keypair \<Rightarrow> int \<Rightarrow> BlockEngineConnectionError + token \<times> token" where
  "auth svc kp role = (case generate_auth_challenge svc role (kp_pubkey kp) of
     Inl e \<Rightarrow> Inl (Client e)
   | Inr ch \<Rightarrow>
       (let challenge = kp_pubkey_text kp @ ''-'' @ ch in
        case generate_auth_tokens svc challenge (kp_pubkey kp) (kp_sign kp challenge) of
          Inl e \<Rightarrow> Inl (Client e)
        | Inr tokens \<Rightarrow> (case access_token tokens of
            None \<Rightarrow> Inl Deserialization
          | Some a \<Rightarrow> (case refresh_token tokens of
              None \<Rightarrow> Inl Deserialization
            | Some r \<Rightarrow> Inr (a, r)))))"

section \<open>The refresh task\<close>

text \<open>
  The task's locals, the shared bearer token, the data points it has reported (whether for the full
  exchange, whether it failed) and how often it slept.
\<close>

record token_task =
  bearer_token :: string
  tt_refresh_token :: token
  access_token_expiration :: timestamp
  tt_points :: "(bool \<times> bool) list"
  tt_sleeps :: nat

definition FIVE_MINUTES :: nat where
  "FIVE_MINUTES = 5 * 60 * 1000000000"

text \<open>
  One iteration at time \<open>now\<close>, in nanoseconds. \<open>to_time\<close> is the conversion of a timestamp to
  a \<^verbatim>\<open>SystemTime\<close>; every unwrap that fails panics the task.
\<close>

definition ttl :: "int \<Rightarrow> int \<Rightarrow> nat" where
  "ttl t now = nat (t - now)"

definition full_auth ::
  "auth_service \<Rightarrow> keypair \<Rightarrow> int \<Rightarrow> token_task \<Rightarrow> token_task option" where
  "full_auth svc kp role s = (case auth svc kp role of
      Inl e \<Rightarrow> Some (s\<lparr>tt_points := tt_points s @ [(True, True)]\<rparr>)
    | Inr (a, r) \<Rightarrow> do {
        expiration \<leftarrow> tk_expires_at_utc a;
        Some (s\<lparr>bearer_token := tk_value a, access_token_expiration := expiration,
                tt_refresh_token := r, tt_points := tt_points s @ [(True, False)]\<rparr>) })"

definition renew_access ::
  "auth_service \<Rightarrow> token_task \<Rightarrow> token_task option" where
  "renew_access svc s = (case refresh_access_token svc (tk_value (tt_refresh_token s)) of
      Inl e \<Rightarrow> Some (s\<lparr>tt_points := tt_points s @ [(False, True)]\<rparr>)
    | Inr resp \<Rightarrow> do {
        a \<leftarrow> resp;
        expiration \<leftarrow> tk_expires_at_utc a;
        Some (s\<lparr>bearer_token := tk_value a, access_token_expiration := expiration,
                tt_points := tt_points s @ [(False, False)]\<rparr>) })"

definition token_body ::
  "(timestamp \<Rightarrow> int option) \<Rightarrow> keypair \<Rightarrow> int \<Rightarrow> int \<times> auth_service \<Rightarrow> token_task \<Rightarrow>
   token_task verdict option" where
  "token_body to_time kp role = (\<lambda>(now, svc) s. do {
     refresh_expiration \<leftarrow> tk_expires_at_utc (tt_refresh_token s);
     refresh_at \<leftarrow> to_time refresh_expiration;
     if ttl refresh_at now < FIVE_MINUTES then map_option Continue (full_auth svc kp role s)
     else do {
       access_at \<leftarrow> to_time (access_token_expiration s);
       if ttl access_at now < FIVE_MINUTES then map_option Continue (renew_access svc s)
       else Some (Continue (s\<lparr>tt_sleeps := Suc (tt_sleeps s)\<rparr>)) } })"

definition spawn_token_refresh_thread ::
  "(timestamp \<Rightarrow> int option) \<Rightarrow> keypair \<Rightarrow> int \<Rightarrow> string \<Rightarrow> token \<Rightarrow> timestamp \<Rightarrow>
   (int \<times> auth_service) poll list \<Rightarrow> token_task option" where
  "spawn_token_refresh_thread to_time kp role bearer initial_refresh initial_expiration polls =
     event_loop (token_body to_time kp role) polls
       \<lparr>bearer_token = bearer, tt_refresh_token = initial_refresh,
        access_token_expiration = initial_expiration, tt_points = [], tt_sleeps = 0\<rparr>"

text \<open>
  \<^verbatim>\<open>ClientInterceptor::new\<close>: the first exchange; the result has what the interceptor and the
  task start with (bearer token, refresh token, expiration of the access token).
\<close>

definition ClientInterceptor_new ::
  "auth_service \<Rightarrow> keypair \<Rightarrow> int \<Rightarrow> BlockEngineConnectionError + string \<times> token \<times> timestamp" where
  "ClientInterceptor_new svc kp role = (case auth svc kp role of
      Inl e \<Rightarrow> Inl e
    | Inr (a, r) \<Rightarrow> (case tk_expires_at_utc a of
        None \<Rightarrow> Inl Deserialization
      | Some expiration \<Rightarrow> Inr (tk_value a, r, expiration)))"

section \<open>The interceptor\<close>

text \<open>
  \<open>parse_value\<close> is the parser of ASCII metadata values; the error is a status with the code
  \<^verbatim>\<open>InvalidArgument\<close> and the given message. Inserting replaces the values of the key.
\<close>

definition interceptor_call ::
  "(string \<Rightarrow> err + string) \<Rightarrow> string \<Rightarrow> (string \<times> string) list \<Rightarrow> err + (string \<times> string) list" where
  "interceptor_call parse_value bearer metadata =
     (if bearer = [] then Inl ''missing bearer token''
      else (case parse_value (''Bearer '' @ bearer) of
          Inl e \<Rightarrow> Inl e
        | Inr v \<Rightarrow> Inr (AList.update ''authorization'' v metadata)))"

section \<open>Opening a channel\<close>

record 'e transport =
  from_shared :: "string \<Rightarrow> err + 'e"
  tls_config :: "'e \<Rightarrow> err + 'e"
  connect :: "'e \<Rightarrow> err + unit"

definition starts_with :: "string \<Rightarrow> string \<Rightarrow> bool" where
  "starts_with s prefix = (take (length prefix) s = prefix)"

definition create_grpc_channel :: "'e transport \<Rightarrow> string \<Rightarrow> BlockEngineConnectionError + 'e" where
  "create_grpc_channel tr url =
     (let endpoint = (case from_shared tr url of
          Inl e \<Rightarrow> Inl (Transport e)
        | Inr ep \<Rightarrow> if starts_with url ''https''
            then (case tls_config tr ep of Inl e \<Rightarrow> Inl (Transport e) | Inr ep' \<Rightarrow> Inr ep')
            else Inr ep)
      in case endpoint of
          Inl e \<Rightarrow> Inl e
        | Inr ep \<Rightarrow> (case connect tr ep of Inl e \<Rightarrow> Inl (Transport e) | Inr _ \<Rightarrow> Inr ep))"

section \<open>What the task relies on\<close>

text \<open>Every token the service issues carries an expiration that is a time.\<close>

definition token_ok :: "(timestamp \<Rightarrow> int option) \<Rightarrow> token \<Rightarrow> bool" where
  "token_ok to_time t \<longleftrightarrow> (\<exists>e x. tk_expires_at_utc t = Some e \<and> to_time e = Some x)"

definition service_ok :: "(timestamp \<Rightarrow> int option) \<Rightarrow> auth_service \<Rightarrow> bool" where
  "service_ok to_time svc \<longleftrightarrow>
     (\<forall>c k s ts. generate_auth_tokens svc c k s = Inr ts \<longrightarrow>
        (\<forall>a. access_token ts = Some a \<longrightarrow> token_ok to_time a) \<and>
        (\<forall>r. refresh_token ts = Some r \<longrightarrow> token_ok to_time r)) \<and>
     (\<forall>r resp. refresh_access_token svc r = Inr resp \<longrightarrow> (\<exists>a. resp = Some a \<and> token_ok to_time a))"

text \<open>
  The bearer token and the expiration the task tracks belong to one issued token: the initial
  one, or one that a service among \<open>S\<close> returned.
\<close>

definition issued :: "auth_service set \<Rightarrow> keypair \<Rightarrow> int \<Rightarrow> token set" where
  "issued S kp role = {a. (\<exists>svc\<in>S. (\<exists>r. auth svc kp role = Inr (a, r)) \<or>
     (\<exists>v. refresh_access_token svc v = Inr (Some a)))}"

definition token_inv ::
  "(timestamp \<Rightarrow> int option) \<Rightarrow> token set \<Rightarrow> token_task \<Rightarrow> bool" where
  "token_inv to_time T s \<longleftrightarrow> token_ok to_time (tt_refresh_token s) \<and>
     (\<exists>x. to_time (access_token_expiration s) = Some x) \<and>
     (\<exists>a\<in>T. bearer_token s = tk_value a \<and> tk_expires_at_utc a = Some (access_token_expiration s))"

lemma auth_ok:
  assumes "service_ok to_time svc" "auth svc kp role = Inr (a, r)"
  shows "token_ok to_time a" "token_ok to_time r"
  using assms by (auto simp: auth_def service_ok_def Let_def split: sum.splits option.splits)

lemma full_auth_ok:
  assumes "service_ok to_time svc" "token_inv to_time T s" "\<forall>a r. auth svc kp role = Inr (a, r) \<longrightarrow> a \<in> T"
  shows "\<exists>s'. full_auth svc kp role s = Some s' \<and> token_inv to_time T s'"
proof (cases "auth svc kp role")
  case (Inl e)
  then show ?thesis using assms(2) by (simp add: full_auth_def token_inv_def)
next
  case (Inr p)
  obtain a r where p: "p = (a, r)" by force
  show ?thesis using auth_ok[OF assms(1) Inr[unfolded p]] assms(3) Inr
    by (auto simp: p full_auth_def token_inv_def token_ok_def)
qed

lemma renew_access_ok:
  assumes "service_ok to_time svc" "token_inv to_time T s"
    "\<forall>v a. refresh_access_token svc v = Inr (Some a) \<longrightarrow> a \<in> T"
  shows "\<exists>s'. renew_access svc s = Some s' \<and> token_inv to_time T s'"
proof (cases "refresh_access_token svc (tk_value (tt_refresh_token s))")
  case (Inl e)
  then show ?thesis using assms(2) by (simp add: renew_access_def token_inv_def)
next
  case (Inr resp)
  then obtain a e x where "resp = Some a" "tk_expires_at_utc a = Some e" "to_time e = Some x"
    using assms(1) unfolding service_ok_def token_ok_def by blast
  then show ?thesis using Inr assms(2,3) by (auto simp: renew_access_def token_inv_def)
qed

interpretation token_loop: thread_body "token_body to_time kp role"
  "token_inv to_time (insert a0 (issued S kp role))" "\<lambda>(now, svc). svc \<in> S \<and> service_ok to_time svc"
  for to_time kp role S a0
proof unfold_locales
  fix s and e :: "int \<times> auth_service"
  let ?T = "insert a0 (issued S kp role)"
  assume inv: "token_inv to_time ?T s" and ok: "case e of (now, svc) \<Rightarrow> svc \<in> S \<and> service_ok to_time svc"
  obtain now svc where e: "e = (now, svc)" by force
  have svc: "svc \<in> S" "service_ok to_time svc" using ok e by auto
  have "\<exists>s'. full_auth svc kp role s = Some s' \<and> token_inv to_time ?T s'"
    using svc by (intro full_auth_ok[OF svc(2) inv]) (auto simp: issued_def)
  moreover have "\<exists>s'. renew_access svc s = Some s' \<and> token_inv to_time ?T s'"
    using svc by (intro renew_access_ok[OF svc(2) inv]) (auto simp: issued_def)
  moreover have "token_inv to_time ?T (s\<lparr>tt_sleeps := n\<rparr>)" for n using inv by (simp add: token_inv_def)
  ultimately show "\<exists>r. token_body to_time kp role e s = Some r \<and> token_inv to_time ?T (after r)"
    using inv by (auto simp: e token_body_def token_inv_def[of _ _ s] token_ok_def)
qed

section \<open>Properties\<close>

text \<open>C25: The token refresh task never panics and never serves a made-up token: started from a
successful first exchange, with services whose tokens carry valid expirations, every run of the
task ends normally, and the shared bearer token is then the value of a token the service issued,
with exactly the expiration the task tracks.\<close>

theorem token_task_safe:
  assumes "ClientInterceptor_new svc0 kp role = Inr (bearer, refresh, expiration)"
    and "service_ok to_time svc0"
    and "\<forall>now svc. Event (now, svc) \<in> set polls \<longrightarrow> svc \<in> S \<and> service_ok to_time svc"
  shows "\<exists>s. spawn_token_refresh_thread to_time kp role bearer refresh expiration polls = Some s \<and>
     (\<exists>a\<in>issued (insert svc0 S) kp role.
        bearer_token s = tk_value a \<and> tk_expires_at_utc a = Some (access_token_expiration s))"
proof -
  obtain a where a: "auth svc0 kp role = Inr (a, refresh)" "bearer = tk_value a" "tk_expires_at_utc a = Some expiration"
    using assms(1) by (auto simp: ClientInterceptor_new_def split: sum.splits option.splits)
  let ?s0 = "\<lparr>bearer_token = bearer, tt_refresh_token = refresh,
        access_token_expiration = expiration, tt_points = [], tt_sleeps = 0\<rparr>"
  let ?S = "insert svc0 S"
  have "token_inv to_time (insert a (issued ?S kp role)) ?s0"
    using auth_ok[OF assms(2) a(1)] a by (auto simp: token_inv_def token_ok_def)
  moreover have "a \<in> issued ?S kp role" using a by (auto simp: issued_def)
  ultimately show ?thesis
    using token_loop.loop_ok[of to_time a ?S kp role ?s0 polls] assms(3)
    by (auto simp: spawn_token_refresh_thread_def token_inv_def insert_absorb)
qed

text \<open>A service that answers every exchange with fresh tokens for an hour.\<close>

definition ex_token :: "string \<Rightarrow> int \<Rightarrow> token" where
  "ex_token v s = \<lparr>tk_value = v, tk_expires_at_utc = Some (s, 0)\<rparr>"

definition ex_service :: "int \<Rightarrow> auth_service" where
  "ex_service t = \<lparr>generate_auth_challenge = (\<lambda>_ _. Inr ''ch''),
     generate_auth_tokens = (\<lambda>c _ _. Inr \<lparr>access_token = Some (ex_token c (t + 3600)),
        refresh_token = Some (ex_token ''r'' (t + 86400))\<rparr>),
     refresh_access_token = (\<lambda>r. Inr (Some (ex_token (''a'' @ r) (t + 3600))))\<rparr>"

definition ex_keypair :: keypair where
  "ex_keypair = \<lparr>kp_pubkey = [1], kp_pubkey_text = ''pk'', kp_sign = (\<lambda>_. [2])\<rparr>"

definition ex_time :: "timestamp \<Rightarrow> int option" where
  "ex_time = (\<lambda>(s, ns). Some (s * 1000000000 + ns))"

lemma ex_service_ok: "service_ok ex_time (ex_service t)"
  by (auto simp: service_ok_def ex_service_def token_ok_def ex_token_def ex_time_def)

theorem token_task_safe_witness:
  "\<exists>s. spawn_token_refresh_thread ex_time ex_keypair 3 ''pk-ch'' (ex_token ''r'' 86400) (3600, 0)
       [Event (0, ex_service 0), Event (3500000000000, ex_service 3500), ExitSet] = Some s \<and>
     (\<exists>a\<in>issued {ex_service 0, ex_service 3500} ex_keypair 3. bearer_token s = tk_value a)"
proof -
  have "ClientInterceptor_new (ex_service 0) ex_keypair 3 = Inr (''pk-ch'', ex_token ''r'' 86400, (3600, 0))"
    by (simp add: ClientInterceptor_new_def auth_def ex_service_def ex_keypair_def ex_token_def)
  from token_task_safe[OF this ex_service_ok, of
      "[Event (0, ex_service 0), Event (3500000000000, ex_service 3500), ExitSet]" "{ex_service 0, ex_service 3500}"]
  show ?thesis using ex_service_ok by auto
qed

text \<open>C39: The task sleeps only when both tokens are fresh: an iteration that sleeps leaves the tokens
alone and finds at least five minutes left on the refresh token and on the access token it serves;
an iteration that finds less on either contacts the service instead and reports it.\<close>

theorem sleeps_only_when_fresh:
  assumes "token_body to_time kp role (now, svc) s = Some (Continue s')"
  shows "if tt_sleeps s' = Suc (tt_sleeps s)
     then s' = s\<lparr>tt_sleeps := Suc (tt_sleeps s)\<rparr> \<and>
       (\<exists>e r a. tk_expires_at_utc (tt_refresh_token s) = Some e \<and> to_time e = Some r \<and>
          to_time (access_token_expiration s) = Some a \<and>
          now + int FIVE_MINUTES \<le> r \<and> now + int FIVE_MINUTES \<le> a)
     else length (tt_points s') = Suc (length (tt_points s)) \<and> tt_sleeps s' = tt_sleeps s"
proof -
  have ttl: "\<not> ttl x now < FIVE_MINUTES \<Longrightarrow> now + int FIVE_MINUTES \<le> x" for x
    by (simp add: ttl_def FIVE_MINUTES_def)
  have full: "full_auth svc kp role s = Some t \<Longrightarrow>
      length (tt_points t) = Suc (length (tt_points s)) \<and> tt_sleeps t = tt_sleeps s" for t
    by (auto simp: full_auth_def split: sum.splits Option.bind_splits)
  have renew: "renew_access svc s = Some t \<Longrightarrow>
      length (tt_points t) = Suc (length (tt_points s)) \<and> tt_sleeps t = tt_sleeps s" for t
    by (auto simp: renew_access_def split: sum.splits Option.bind_splits)
  show ?thesis using assms full renew ttl
    by (auto simp: token_body_def split: if_splits Option.bind_splits)
qed

theorem sleeps_only_when_fresh_witness:
  "\<exists>s'. token_body ex_time ex_keypair 3 (0, ex_service 0)
       \<lparr>bearer_token = ''t'', tt_refresh_token = ex_token ''r'' 86400, access_token_expiration = (3600, 0),
        tt_points = [], tt_sleeps = 0\<rparr> = Some (Continue s') \<and> tt_sleeps s' = 1 \<and> bearer_token s' = ''t''"
proof -
  let ?s = "\<lparr>bearer_token = ''t'', tt_refresh_token = ex_token ''r'' 86400, access_token_expiration = (3600, 0),
        tt_points = [], tt_sleeps = 0\<rparr>"
  have r: "token_body ex_time ex_keypair 3 (0, ex_service 0) ?s = Some (Continue (?s\<lparr>tt_sleeps := 1\<rparr>))"
    by (simp add: token_body_def ex_token_def ex_time_def ttl_def FIVE_MINUTES_def)
  show ?thesis using sleeps_only_when_fresh[OF r] r by auto
qed

text \<open>There is no pause between failing exchanges: while the refresh token is about to expire
and the service refuses, n iterations make n attempts without a single sleep.\<close>

theorem failing_auth_never_sleeps:
  assumes "\<forall>now svc. (now, svc) \<in> set es \<longrightarrow> (\<exists>e. auth svc kp role = Inl e) \<and> ttl refresh_at now < FIVE_MINUTES"
    and "tk_expires_at_utc refresh = Some e" "to_time e = Some refresh_at"
  shows "\<exists>s. spawn_token_refresh_thread to_time kp role bearer refresh expiration (map Event es) = Some s \<and>
     tt_points s = replicate (length es) (True, True) \<and> tt_sleeps s = 0 \<and> bearer_token s = bearer"
proof -
  have "event_loop (token_body to_time kp role) (map Event es) s =
      Some (s\<lparr>tt_points := tt_points s @ replicate (length es) (True, True)\<rparr>)"
    if "tt_refresh_token s = refresh" for s
    using assms(1) that
  proof (induction es arbitrary: s)
    case Nil
    then show ?case by simp
  next
    case (Cons x es)
    obtain now svc where x: "x = (now, svc)" by force
    have "token_body to_time kp role x s = Some (Continue (s\<lparr>tt_points := tt_points s @ [(True, True)]\<rparr>))"
    proof -
      obtain err where "auth svc kp role = Inl err" "ttl refresh_at now < FIVE_MINUTES"
        using Cons.prems(1) x by auto
      then show ?thesis using Cons.prems(2) assms(2,3) by (simp add: x token_body_def full_auth_def)
    qed
    then show ?case using Cons.IH[of "s\<lparr>tt_points := tt_points s @ [(True, True)]\<rparr>"] Cons.prems by simp
  qed
  then show ?thesis by (simp add: spawn_token_refresh_thread_def)
qed

theorem failing_auth_never_sleeps_witness:
  "\<exists>s. spawn_token_refresh_thread ex_time ex_keypair 3 ''old'' (ex_token ''r'' 60) (60, 0)
       (map Event [(0, (ex_service 0)\<lparr>generate_auth_challenge := (\<lambda>_ _. Inl ''unavailable'')\<rparr>),
                   (1, (ex_service 0)\<lparr>generate_auth_challenge := (\<lambda>_ _. Inl ''unavailable'')\<rparr>)]) = Some s \<and>
     tt_points s = [(True, True), (True, True)] \<and> tt_sleeps s = 0"
proof -
  let ?es = "[(0, (ex_service 0)\<lparr>generate_auth_challenge := (\<lambda>_ _. Inl ''unavailable'')\<rparr>),
              (1, (ex_service 0)\<lparr>generate_auth_challenge := (\<lambda>_ _. Inl ''unavailable'')\<rparr>)]"
  have "\<forall>now svc. (now, svc) \<in> set ?es \<longrightarrow>
      (\<exists>e. auth svc ex_keypair 3 = Inl e) \<and> ttl 60000000000 now < FIVE_MINUTES"
    by (auto simp: auth_def ttl_def FIVE_MINUTES_def)
  from failing_auth_never_sleeps[OF this, of "ex_token ''r'' 60" "(60, 0)" ex_time "''old''" "(60, 0)"]
  show ?thesis by (auto simp: ex_token_def ex_time_def)
qed

text \<open>A request leaves the interceptor only with a non-empty bearer token: the authorization entry is
the parsed text "Bearer " followed by the current token, every other entry is untouched, and an
empty token or an unparsable value is refused.\<close>

theorem interceptor_adds_bearer:
  "interceptor_call parse_value bearer md = Inr md' \<longleftrightarrow>
     bearer \<noteq> [] \<and> (\<exists>v. parse_value (''Bearer '' @ bearer) = Inr v \<and>
       md' = AList.update ''authorization'' v md \<and> map_of md' = (map_of md)(''authorization'' \<mapsto> v))"
  by (auto simp: interceptor_call_def split: sum.splits)

end
