(* ===== verification/Heartbeat.thy ===== *)
theory Heartbeat
  imports Token_Auth Shred_Metrics
begin

text \<open>
  \<^verbatim>\<open>proxy/src/heartbeat.rs\<close>: the heartbeat thread of the full proxy, the one of the
  subscribe-only mode, and the client they open. The nested loops are flattened: a connection is
  open or not, and one iteration of the outer loop without a connection tries to open one.
\<close>

section \<open>Opening the client\<close>

definition get_grpc_client ::
  "'e transport \<Rightarrow> auth_service \<Rightarrow> keypair \<Rightarrow> int \<Rightarrow> string \<Rightarrow> string \<Rightarrow>
   ShredstreamProxyError + 'e \<times> (string \<times> token \<times> timestamp)" where
  "get_grpc_client tr svc kp role block_engine_url auth_url =
     (case create_grpc_channel tr auth_url of
        Inl e \<Rightarrow> Inl (BlockEngineError e)
      | Inr auth_channel \<Rightarrow> (case create_grpc_channel tr block_engine_url of
          Inl e \<Rightarrow> Inl (BlockEngineError e)
        | Inr searcher_channel \<Rightarrow> (case ClientInterceptor_new svc kp role of
            Inl e \<Rightarrow> Inl (BlockEngineError e)
          | Inr client \<Rightarrow> Inr (searcher_channel, client))))"

section \<open>What an iteration observes\<close>

datatype status = InvalidArgument err | OtherStatus err

text \<open>
  The event the inner \<^verbatim>\<open>select!\<close> picks: a heartbeat with its answer, the time to live in
  milliseconds; the metrics tick with the cumulative count it loads; or the shutdown message.
\<close>

datatype hb_select = HbTick "status + u32" | HbMetrics u64 | HbShutdown

record hb_obs =
  ob_connect :: "err + unit"
  ob_select :: hb_select

text \<open>The socket a heartbeat advertises: the address and the port as \<^verbatim>\<open>i64\<close>.\<close>

type_synonym hb_message = "(IpAddr \<times> int) \<times> string list"

definition heartbeat_of :: "SocketAddr \<Rightarrow> string list \<Rightarrow> hb_message" where
  "heartbeat_of recv_socket regions = ((sock_ip recv_socket, uint (sock_port recv_socket)), regions)"

section \<open>Connections and their scope\<close>

text \<open>
  \<open>conns\<close> lists the \<^verbatim>\<open>ScopedAtomicBool\<close>s in the order of their creation: the exit flag that
  the token refresh task of that connection polls. Dropping one stores \<^verbatim>\<open>true\<close>.
\<close>

definition scope_new :: "bool list \<Rightarrow> bool list" where
  "scope_new flags = flags @ [False]"

definition scope_drop :: "bool list \<Rightarrow> bool list" where
  "scope_drop flags = (if flags = [] then [] else butlast flags @ [True])"

section \<open>The heartbeat thread\<close>

text \<open>
  \<open>hb_points\<close> has the statistics data points: successful, failed and restart count.
\<close>

record heartbeat =
  hb_connected :: bool
  conns :: "bool list"
  heartbeat_interval :: nat
  last_cumulative_received_shred_count :: u64
  client_restart_count :: u64
  successful_heartbeat_count :: u64
  failed_heartbeat_count :: u64
  client_restart_count_cumulative :: u64
  successful_heartbeat_count_cumulative :: u64
  failed_heartbeat_count_cumulative :: u64
  hb_sent :: "hb_message list"
  hb_points :: "(u64 \<times> u64 \<times> u64) list"

definition initial_heartbeat :: heartbeat where
  "initial_heartbeat = \<lparr>hb_connected = False, conns = [], heartbeat_interval = 1000,
     last_cumulative_received_shred_count = 0, client_restart_count = 0,
     successful_heartbeat_count = 0, failed_heartbeat_count = 0,
     client_restart_count_cumulative = 0, successful_heartbeat_count_cumulative = 0,
     failed_heartbeat_count_cumulative = 0, hb_sent = [], hb_points = []\<rparr>"

text \<open>Leaving the inner loop ends the scope of the connection.\<close>

definition close_connection :: "heartbeat \<Rightarrow> heartbeat" where
  "close_connection s = s\<lparr>hb_connected := False, conns := scope_drop (conns s)\<rparr>"

definition open_connection :: "err + unit \<Rightarrow> heartbeat \<Rightarrow> heartbeat" where
  "open_connection res s = (case res of
      Inl e \<Rightarrow> close_connection (s\<lparr>conns := scope_new (conns s),
                  client_restart_count := client_restart_count s + 1\<rparr>)
    | Inr _ \<Rightarrow> s\<lparr>conns := scope_new (conns s), hb_connected := True\<rparr>)"

text \<open>\<^verbatim>\<open>Duration::from_millis((ttl_ms / 3) as u64)\<close>\<close>

definition interval_of :: "u32 \<Rightarrow> nat" where
  "interval_of ttl_ms = unat (ttl_ms div 3)"

fun hb_select_step :: "hb_message \<Rightarrow> hb_select \<Rightarrow> heartbeat \<Rightarrow> heartbeat option" where
  "hb_select_step msg (HbTick (Inr ttl_ms)) s = Some (s\<lparr>
     hb_sent := hb_sent s @ [msg],
     heartbeat_interval := interval_of ttl_ms,
     successful_heartbeat_count := successful_heartbeat_count s + 1\<rparr>)"
| "hb_select_step msg (HbTick (Inl (InvalidArgument e))) s = None"
| "hb_select_step msg (HbTick (Inl (OtherStatus e))) s = Some (s\<lparr>
     hb_sent := hb_sent s @ [msg],
     failed_heartbeat_count := failed_heartbeat_count s + 1\<rparr>)"
| "hb_select_step msg (HbMetrics new_received_count) s =
     (let s = s\<lparr>hb_points := hb_points s @
        [(successful_heartbeat_count s, failed_heartbeat_count s, client_restart_count s)]\<rparr> in
      if new_received_count = last_cumulative_received_shred_count s then Some (close_connection s)
      else Some (s\<lparr>
        last_cumulative_received_shred_count := new_received_count,
        successful_heartbeat_count_cumulative :=
          successful_heartbeat_count_cumulative s + successful_heartbeat_count s,
        failed_heartbeat_count_cumulative :=
          failed_heartbeat_count_cumulative s + failed_heartbeat_count s,
        client_restart_count_cumulative := client_restart_count_cumulative s + client_restart_count s,
        successful_heartbeat_count := 0, failed_heartbeat_count := 0, client_restart_count := 0\<rparr>))"
| "hb_select_step msg HbShutdown s = Some (close_connection s)"

definition hb_body :: "hb_message \<Rightarrow> hb_obs \<Rightarrow> heartbeat \<Rightarrow> heartbeat verdict option" where
  "hb_body msg ob s = map_option Continue
     (if hb_connected s then hb_select_step msg (ob_select ob) s
      else Some (open_connection (ob_connect ob) s))"

text \<open>When the exit flag is seen inside the inner loop, the scope ends with the loops.\<close>

definition heartbeat_loop_thread ::
  "SocketAddr \<Rightarrow> string list \<Rightarrow> hb_obs poll list \<Rightarrow> heartbeat option" where
  "heartbeat_loop_thread recv_socket desired_regions polls =
     map_option (\<lambda>s. if hb_connected s then close_connection s else s)
       (event_loop (hb_body (heartbeat_of recv_socket desired_regions)) polls initial_heartbeat)"

section \<open>The subscribe-only heartbeat\<close>

datatype sub_select = SubTick "status + u32" | SubShutdown

record sub_obs =
  so_connect :: "err + unit"
  so_select :: sub_select

record sub_heartbeat =
  sh_connected :: bool
  sh_conns :: "bool list"
  sh_interval :: nat
  sh_restarts :: u64
  sh_successful :: u64
  sh_failed :: u64
  sh_successful_cumulative :: u64
  sh_failed_cumulative :: u64
  sh_sent :: "hb_message list"

definition initial_sub :: sub_heartbeat where
  "initial_sub = \<lparr>sh_connected = False, sh_conns = [], sh_interval = 1000, sh_restarts = 0,
     sh_successful = 0, sh_failed = 0, sh_successful_cumulative = 0, sh_failed_cumulative = 0, sh_sent = []\<rparr>"

text \<open>Leaving the inner loop adds the counts of the connection to the totals.\<close>

definition sub_leave :: "sub_heartbeat \<Rightarrow> sub_heartbeat" where
  "sub_leave s = s\<lparr>sh_connected := False, sh_conns := scope_drop (sh_conns s),
     sh_successful_cumulative := sh_successful_cumulative s + sh_successful s,
     sh_failed_cumulative := sh_failed_cumulative s + sh_failed s,
     sh_successful := 0, sh_failed := 0\<rparr>"

definition sub_open :: "err + unit \<Rightarrow> sub_heartbeat \<Rightarrow> sub_heartbeat" where
  "sub_open res s = (case res of
      Inl e \<Rightarrow> s\<lparr>sh_conns := scope_drop (scope_new (sh_conns s)), sh_restarts := sh_restarts s + 1\<rparr>
    | Inr _ \<Rightarrow> s\<lparr>sh_conns := scope_new (sh_conns s), sh_connected := True,
                 sh_successful := 0, sh_failed := 0\<rparr>)"

fun sub_select_step :: "hb_message \<Rightarrow> sub_select \<Rightarrow> sub_heartbeat \<Rightarrow> sub_heartbeat option" where
  "sub_select_step msg (SubTick (Inr ttl_ms)) s = Some (s\<lparr>
     sh_sent := sh_sent s @ [msg], sh_interval := interval_of ttl_ms, sh_successful := sh_successful s + 1\<rparr>)"
| "sub_select_step msg (SubTick (Inl (InvalidArgument e))) s = None"
| "sub_select_step msg (SubTick (Inl (OtherStatus e))) s =
     (let s = s\<lparr>sh_sent := sh_sent s @ [msg], sh_failed := sh_failed s + 1\<rparr> in
      Some (if 5 < sh_failed s then sub_leave s else s))"
| "sub_select_step msg SubShutdown s = Some (sub_leave s)"

definition sub_body :: "hb_message \<Rightarrow> sub_obs \<Rightarrow> sub_heartbeat \<Rightarrow> sub_heartbeat verdict option" where
  "sub_body msg ob s = map_option Continue
     (if sh_connected s then sub_select_step msg (so_select ob) s
      else Some (sub_open (so_connect ob) s))"

definition heartbeat_loop_subscribe_only ::
  "SocketAddr \<Rightarrow> string list \<Rightarrow> sub_obs poll list \<Rightarrow> sub_heartbeat option" where
  "heartbeat_loop_subscribe_only recv_socket desired_regions polls =
     map_option (\<lambda>s. if sh_connected s then sub_leave s else s)
       (event_loop (sub_body (heartbeat_of recv_socket desired_regions)) polls initial_sub)"

section \<open>Invariants\<close>

text \<open>Only the flag of an open connection is unset, and it is the last one.\<close>

definition scopes_ok :: "bool \<Rightarrow> bool list \<Rightarrow> bool" where
  "scopes_ok connected flags \<longleftrightarrow> (if connected then \<exists>closed. flags = closed @ [False] \<and> (\<forall>f\<in>set closed. f)
     else (\<forall>f\<in>set flags. f))"

lemma scopes_ok_simps [simp]:
  "scopes_ok False []"
  "scopes_ok False flags \<Longrightarrow> scopes_ok True (scope_new flags)"
  "scopes_ok True flags \<Longrightarrow> scopes_ok False (scope_drop flags)"
  by (auto simp: scopes_ok_def scope_new_def scope_drop_def)

definition hb_inv :: "hb_message \<Rightarrow> heartbeat \<Rightarrow> bool" where
  "hb_inv msg s \<longleftrightarrow> scopes_ok (hb_connected s) (conns s) \<and> (\<forall>h\<in>set (hb_sent s). h = msg) \<and>
     successful_heartbeat_count s + successful_heartbeat_count_cumulative s +
     (failed_heartbeat_count s + failed_heartbeat_count_cumulative s) = of_nat (length (hb_sent s))"

definition sub_inv :: "hb_message \<Rightarrow> sub_heartbeat \<Rightarrow> bool" where
  "sub_inv msg s \<longleftrightarrow> scopes_ok (sh_connected s) (sh_conns s) \<and> (\<forall>h\<in>set (sh_sent s). h = msg) \<and>
     sh_failed s \<le> 5 \<and> (\<not> sh_connected s \<longrightarrow> sh_successful s = 0 \<and> sh_failed s = 0) \<and>
     sh_successful s + sh_successful_cumulative s + (sh_failed s + sh_failed_cumulative s)
       = of_nat (length (sh_sent s))"

fun hb_select_ok :: "hb_select \<Rightarrow> bool" where
  "hb_select_ok (HbTick (Inl (InvalidArgument e))) = False"
| "hb_select_ok e = True"

fun sub_select_ok :: "sub_select \<Rightarrow> bool" where
  "sub_select_ok (SubTick (Inl (InvalidArgument e))) = False"
| "sub_select_ok e = True"

lemma close_connection_inv: "hb_inv msg s \<Longrightarrow> hb_connected s \<Longrightarrow> hb_inv msg (close_connection s)"
  by (simp add: hb_inv_def close_connection_def)

lemma open_connection_inv: "hb_inv msg s \<Longrightarrow> \<not> hb_connected s \<Longrightarrow> hb_inv msg (open_connection r s)"
  by (cases r) (auto simp: hb_inv_def open_connection_def close_connection_def)

lemma hb_select_step_inv:
  assumes "hb_inv msg s" "hb_connected s" "hb_select_ok e"
  shows "\<exists>s'. hb_select_step msg e s = Some s' \<and> hb_inv msg s'"
proof (cases e)
  case (HbTick r)
  show ?thesis
  proof (cases r)
    case (Inl st)
    then show ?thesis using assms HbTick by (cases st) (auto simp: hb_inv_def algebra_simps)
  next
    case (Inr t)
    then show ?thesis using assms HbTick by (auto simp: hb_inv_def algebra_simps)
  qed
next
  case (HbMetrics n)
  have "hb_inv msg (s\<lparr>hb_points := p\<rparr>)" for p using assms(1) by (simp add: hb_inv_def)
  then show ?thesis using assms HbMetrics
    by (auto simp: Let_def close_connection_inv) (auto simp: hb_inv_def algebra_simps)
next
  case HbShutdown
  then show ?thesis using assms close_connection_inv by simp
qed

lemma five_less: "(x :: u64) \<le> 5 \<Longrightarrow> \<not> 5 < x + 1 \<Longrightarrow> x + 1 \<le> 5"
  by simp

lemma sub_leave_inv: "sub_inv msg s \<Longrightarrow> sh_connected s \<Longrightarrow> sub_inv msg (sub_leave s)"
  by (simp add: sub_inv_def sub_leave_def algebra_simps)

lemma sub_open_inv: "sub_inv msg s \<Longrightarrow> \<not> sh_connected s \<Longrightarrow> sub_inv msg (sub_open r s)"
  by (cases r) (auto simp: sub_inv_def sub_open_def)

lemma sub_select_step_inv:
  assumes "sub_inv msg s" "sh_connected s" "sub_select_ok e"
  shows "\<exists>s'. sub_select_step msg e s = Some s' \<and> sub_inv msg s'"
proof (cases e)
  case (SubTick r)
  show ?thesis
  proof (cases r)
    case (Inl st)
    let ?s = "s\<lparr>sh_sent := sh_sent s @ [msg], sh_failed := sh_failed s + 1\<rparr>"
    have "sub_inv msg (if 5 < sh_failed ?s then sub_leave ?s else ?s)"
      using assms(1,2) by (auto simp: sub_inv_def sub_leave_def algebra_simps)
    then show ?thesis using assms(3) SubTick Inl by (cases st) (simp_all add: Let_def)
  next
    case (Inr t)
    then show ?thesis using assms SubTick by (auto simp: sub_inv_def algebra_simps)
  qed
next
  case SubShutdown
  then show ?thesis using assms sub_leave_inv by simp
qed

interpretation hb_thread: thread_body "hb_body msg" "hb_inv msg" "\<lambda>ob. hb_select_ok (ob_select ob)" for msg
proof unfold_locales
  fix s and ob :: hb_obs assume "hb_inv msg s" "hb_select_ok (ob_select ob)"
  then show "\<exists>r. hb_body msg ob s = Some r \<and> hb_inv msg (after r)"
    using hb_select_step_inv[of msg s "ob_select ob"] open_connection_inv[of msg s "ob_connect ob"]
    by (auto simp: hb_body_def)
qed

interpretation sub_thread: thread_body "sub_body msg" "sub_inv msg" "\<lambda>ob. sub_select_ok (so_select ob)" for msg
proof unfold_locales
  fix s and ob :: sub_obs assume "sub_inv msg s" "sub_select_ok (so_select ob)"
  then show "\<exists>r. sub_body msg ob s = Some r \<and> sub_inv msg (after r)"
    using sub_select_step_inv[of msg s "so_select ob"] sub_open_inv[of msg s "so_connect ob"]
    by (auto simp: sub_body_def)
qed

section \<open>Properties\<close>

text \<open>C26: The heartbeat thread panics only on a refused heartbeat (InvalidArgument). Otherwise every run
ends with the exit flag of every connection it ever opened set, so no token refresh task outlives
its connection; every heartbeat advertises the given socket and regions; and the successful and
failed counts, current and cumulative, add up to the number of heartbeats sent.\<close>

theorem heartbeat_loop_safe:
  assumes "\<forall>ob. Event ob \<in> set polls \<longrightarrow> hb_select_ok (ob_select ob)"
  shows "\<exists>s. heartbeat_loop_thread recv_socket regions polls = Some s \<and>
     (\<forall>f\<in>set (conns s). f) \<and> (\<forall>h\<in>set (hb_sent s). h = heartbeat_of recv_socket regions) \<and>
     successful_heartbeat_count s + successful_heartbeat_count_cumulative s +
     (failed_heartbeat_count s + failed_heartbeat_count_cumulative s) = of_nat (length (hb_sent s))"
proof -
  let ?msg = "heartbeat_of recv_socket regions"
  have "hb_inv ?msg initial_heartbeat" by (simp add: hb_inv_def initial_heartbeat_def)
  then obtain s where s: "event_loop (hb_body ?msg) polls initial_heartbeat = Some s" "hb_inv ?msg s"
    using hb_thread.loop_ok[of ?msg initial_heartbeat polls] assms by blast
  let ?s = "if hb_connected s then close_connection s else s"
  have "hb_inv ?msg ?s" "\<not> hb_connected ?s"
    using s(2) close_connection_inv by (auto simp: close_connection_def)
  then show ?thesis using s(1)
    by (intro exI[of _ ?s]) (auto simp: heartbeat_loop_thread_def hb_inv_def scopes_ok_def)
qed

theorem heartbeat_loop_safe_witness:
  "\<exists>s. heartbeat_loop_thread (SocketAddrV4 7 20000) [''ny''] (map Event
       [\<lparr>ob_connect = Inl ''refused'', ob_select = HbShutdown\<rparr>,
        \<lparr>ob_connect = Inr (), ob_select = HbShutdown\<rparr>,
        \<lparr>ob_connect = Inr (), ob_select = HbTick (Inr 30000)\<rparr>,
        \<lparr>ob_connect = Inr (), ob_select = HbMetrics 0\<rparr>,
        \<lparr>ob_connect = Inr (), ob_select = HbShutdown\<rparr>]) = Some s \<and> (\<forall>f\<in>set (conns s). f)"
  using heartbeat_loop_safe[of "map Event
       [\<lparr>ob_connect = Inl ''refused'', ob_select = HbShutdown\<rparr>,
        \<lparr>ob_connect = Inr (), ob_select = HbShutdown\<rparr>,
        \<lparr>ob_connect = Inr (), ob_select = HbTick (Inr 30000)\<rparr>,
        \<lparr>ob_connect = Inr (), ob_select = HbMetrics 0\<rparr>,
        \<lparr>ob_connect = Inr (), ob_select = HbShutdown\<rparr>]" "SocketAddrV4 7 20000" "[''ny'']"]
  by auto


text \<open>At a metrics tick the connection is torn down exactly when the cumulative count of received
shreds has not moved since the last tick that moved it, and that restart is not added to the
restart count, nor are the current counts moved into the cumulative ones.\<close>

theorem stale_connection_restarts:
  assumes "hb_connected s" "hb_body msg \<lparr>ob_connect = c, ob_select = HbMetrics n\<rparr> s = Some v"
  shows "(\<not> hb_connected (after v) \<longleftrightarrow> n = last_cumulative_received_shred_count s) \<and>
     (\<not> hb_connected (after v) \<longrightarrow> client_restart_count (after v) = client_restart_count s \<and>
        client_restart_count_cumulative (after v) = client_restart_count_cumulative s \<and>
        successful_heartbeat_count (after v) = successful_heartbeat_count s) \<and>
     (hb_connected (after v) \<longrightarrow> last_cumulative_received_shred_count (after v) = n \<and>
        client_restart_count (after v) = 0 \<and>
        client_restart_count_cumulative (after v) = client_restart_count_cumulative s + client_restart_count s)"
  using assms by (auto simp: hb_body_def Let_def close_connection_def split: if_splits)

theorem stale_connection_restarts_witness:
  "\<exists>v. hb_body ((V4 7, 20000), []) \<lparr>ob_connect = Inr (), ob_select = HbMetrics 0\<rparr> (initial_heartbeat\<lparr>hb_connected := True, conns := [False]\<rparr>)
       = Some v \<and> \<not> hb_connected (after v) \<and> client_restart_count (after v) = 0"
proof -
  let ?s = "initial_heartbeat\<lparr>hb_connected := True, conns := [False]\<rparr>"
  let ?ob = "\<lparr>ob_connect = Inr (), ob_select = HbMetrics 0\<rparr>"
  obtain v where v: "hb_body ((V4 7, 20000), []) ?ob ?s = Some v"
    by (simp add: hb_body_def initial_heartbeat_def Let_def)
  have "hb_connected ?s" "last_cumulative_received_shred_count ?s = 0" "client_restart_count ?s = 0"
    by (simp_all add: initial_heartbeat_def)
  then show ?thesis using stale_connection_restarts[OF _ v] v by auto
qed

text \<open>The subscribe-only heartbeat panics only on a refused heartbeat. Otherwise every run ends with
every connection's exit flag set and with cumulative totals that add up to the number of
heartbeats sent, whatever way its connections ended.\<close>

theorem subscribe_only_safe:
  assumes "\<forall>ob. Event ob \<in> set polls \<longrightarrow> sub_select_ok (so_select ob)"
  shows "\<exists>s. heartbeat_loop_subscribe_only recv_socket regions polls = Some s \<and>
     (\<forall>f\<in>set (sh_conns s). f) \<and> (\<forall>h\<in>set (sh_sent s). h = heartbeat_of recv_socket regions) \<and>
     sh_successful_cumulative s + sh_failed_cumulative s = of_nat (length (sh_sent s))"
proof -
  let ?msg = "heartbeat_of recv_socket regions"
  have "sub_inv ?msg initial_sub" by (simp add: sub_inv_def initial_sub_def)
  then obtain s where s: "event_loop (sub_body ?msg) polls initial_sub = Some s" "sub_inv ?msg s"
    using sub_thread.loop_ok[of ?msg initial_sub polls] assms by blast
  let ?s = "if sh_connected s then sub_leave s else s"
  have "sub_inv ?msg ?s" "\<not> sh_connected ?s"
    using s(2) sub_leave_inv by (auto simp: sub_leave_def)
  then show ?thesis using s(1)
    by (intro exI[of _ ?s]) (auto simp: heartbeat_loop_subscribe_only_def sub_inv_def scopes_ok_def)
qed

theorem subscribe_only_safe_witness:
  "\<exists>s. heartbeat_loop_subscribe_only (SocketAddrV4 7 20000) [''ny'']
       (map Event (\<lparr>so_connect = Inr (), so_select = SubShutdown\<rparr>
          # replicate 6 \<lparr>so_connect = Inr (), so_select = SubTick (Inl (OtherStatus ''down''))\<rparr>)) = Some s \<and>
     (\<forall>f\<in>set (sh_conns s). f)"
  using subscribe_only_safe[of "map Event (\<lparr>so_connect = Inr (), so_select = SubShutdown\<rparr>
          # replicate 6 \<lparr>so_connect = Inr (), so_select = SubTick (Inl (OtherStatus ''down''))\<rparr>)"
      "SocketAddrV4 7 20000" "[''ny'']"]
  by auto

end
