(* ===== verification/Ip_Text.thy ===== *)
theory Ip_Text
  imports Net_Addr
begin

text \<open>
  The text forms of \<^verbatim>\<open>std\<close> the source relies on: parsing of IP addresses and of \<^verbatim>\<open>u8\<close>,
  \<^verbatim>\<open>split_once\<close>, the printed form of an IPv4 address, and \<^verbatim>\<open>is_multicast\<close>. A parser takes
  the remaining text and returns a value and the text after it.
\<close>

section \<open>Numbers\<close>

definition to_digit :: "int \<Rightarrow> char \<Rightarrow> int option" where
  "to_digit radix c = (let n = of_char c :: int;
       d = (if 48 \<le> n \<and> n \<le> 57 then Some (n - 48)
            else if 97 \<le> n \<and> n \<le> 102 then Some (n - 87)
            else if 65 \<le> n \<and> n \<le> 70 then Some (n - 55) else None)
     in case d of None \<Rightarrow> None | Some k \<Rightarrow> if k < radix then Some k else None)"

fun read_digits :: "int \<Rightarrow> string \<Rightarrow> int list \<times> string" where
  "read_digits radix [] = ([], [])"
| "read_digits radix (c # s) = (case to_digit radix c of
      None \<Rightarrow> ([], c # s)
    | Some d \<Rightarrow> (case read_digits radix s of (ds, rest) \<Rightarrow> (d # ds, rest)))"

definition digits_value :: "int \<Rightarrow> int list \<Rightarrow> int" where
  "digits_value radix ds = foldl (\<lambda>v d. v * radix + d) 0 ds"

text \<open>Too many digits, a value out of range or a forbidden leading zero refuse the number.\<close>

definition read_number :: "int \<Rightarrow> nat \<Rightarrow> int \<Rightarrow> bool \<Rightarrow> string \<Rightarrow> (int \<times> string) option" where
  "read_number radix max_digits max_value allow_zero_prefix s =
     (case read_digits radix s of (ds, rest) \<Rightarrow>
        if ds = [] \<or> max_digits < length ds \<or> max_value < digits_value radix ds
           \<or> (\<not> allow_zero_prefix \<and> hd ds = 0 \<and> 1 < length ds)
        then None else Some (digits_value radix ds, rest))"

text \<open>\<^verbatim>\<open>str::parse::<u8>\<close>: an optional plus sign and decimal digits.\<close>

definition parse_u8 :: "string \<Rightarrow> u8 option" where
  "parse_u8 s =
     (let s' = (case s of c # r \<Rightarrow> if c = CHR ''+'' then r else s | [] \<Rightarrow> []);
          (ds, rest) = read_digits 10 s'
      in if ds = [] \<or> rest \<noteq> [] \<or> 255 < digits_value 10 ds then None
         else Some (word_of_int (digits_value 10 ds)))"

section \<open>Addresses\<close>

definition read_given_char :: "char \<Rightarrow> string \<Rightarrow> string option" where
  "read_given_char c s = (case s of x # r \<Rightarrow> if x = c then Some r else None | [] \<Rightarrow> None)"

definition read_octet :: "string \<Rightarrow> (int \<times> string) option" where
  "read_octet = read_number 10 3 255 False"

definition ipv4_of_octets :: "int \<Rightarrow> int \<Rightarrow> int \<Rightarrow> int \<Rightarrow> 32 word" where
  "ipv4_of_octets a b c d = word_of_int (((a * 256 + b) * 256 + c) * 256 + d)"

definition read_ipv4_addr :: "string \<Rightarrow> (32 word \<times> string) option" where
  "read_ipv4_addr s = do {
     (a, s) \<leftarrow> read_octet s; s \<leftarrow> read_given_char (CHR ''.'') s;
     (b, s) \<leftarrow> read_octet s; s \<leftarrow> read_given_char (CHR ''.'') s;
     (c, s) \<leftarrow> read_octet s; s \<leftarrow> read_given_char (CHR ''.'') s;
     (d, s) \<leftarrow> read_octet s;
     Some (ipv4_of_octets a b c d, s) }"

text \<open>A separator is read before every group but the first.\<close>

definition read_separator :: "bool \<Rightarrow> (string \<Rightarrow> ('a \<times> string) option) \<Rightarrow> string \<Rightarrow> ('a \<times> string) option" where
  "read_separator first p s = (if first then p s else Option.bind (read_given_char (CHR '':'') s) p)"

text \<open>
  Up to \<open>n\<close> groups of four hexadecimal digits; where two are left an embedded IPv4 address may
  end them.
\<close>

fun read_groups :: "nat \<Rightarrow> bool \<Rightarrow> string \<Rightarrow> int list \<times> bool \<times> string" where
  "read_groups 0 first s = ([], False, s)"
| "read_groups (Suc n) first s =
     (case (if 0 < n then read_separator first read_ipv4_addr s else None) of
        Some (v4, s') \<Rightarrow> ([uint v4 div 65536, uint v4 mod 65536], True, s')
      | None \<Rightarrow> (case read_separator first (read_number 16 4 65535 True) s of
          Some (g, s') \<Rightarrow> (case read_groups n False s' of (gs, v4, rest) \<Rightarrow> (g # gs, v4, rest))
        | None \<Rightarrow> ([], False, s)))"

definition ipv6_of_groups :: "int list \<Rightarrow> 128 word" where
  "ipv6_of_groups gs = word_of_int (foldl (\<lambda>v g. v * 65536 + g) 0 gs)"

definition read_ipv6_addr :: "string \<Rightarrow> (128 word \<times> string) option" where
  "read_ipv6_addr s = (case read_groups 8 True s of (head, head_ipv4, s1) \<Rightarrow>
     if length head = 8 then Some (ipv6_of_groups head, s1)
     else if head_ipv4 then None
     else do {
       s2 \<leftarrow> read_given_char (CHR '':'') s1;
       s3 \<leftarrow> read_given_char (CHR '':'') s2;
       (case read_groups (7 - length head) True s3 of (tail, _, s4) \<Rightarrow>
          Some (ipv6_of_groups (head @ replicate (8 - length head - length tail) 0 @ tail), s4)) })"

text \<open>\<^verbatim>\<open>str::parse::<IpAddr>\<close> and \<^verbatim>\<open>str::parse::<Ipv4Addr>\<close>: the whole text must be consumed.\<close>

definition parse_ip :: "string \<Rightarrow> IpAddr option" where
  "parse_ip s = (case read_ipv4_addr s of
      Some (a, rest) \<Rightarrow> if rest = [] then Some (V4 a) else None
    | None \<Rightarrow> (case read_ipv6_addr s of
        Some (a, rest) \<Rightarrow> if rest = [] then Some (V6 a) else None
      | None \<Rightarrow> None))"

definition parse_ipv4 :: "string \<Rightarrow> 32 word option" where
  "parse_ipv4 s = (if 15 < length s then None else (case read_ipv4_addr s of
      Some (a, []) \<Rightarrow> Some a | _ \<Rightarrow> None))"

text \<open>\<^verbatim>\<open>s.split_once(c)\<close>: the text before and after the first occurrence.\<close>

fun split_once :: "char \<Rightarrow> string \<Rightarrow> (string \<times> string) option" where
  "split_once c [] = None"
| "split_once c (x # s) = (if x = c then Some ([], s)
     else map_option (\<lambda>(a, b). (x # a, b)) (split_once c s))"

fun is_multicast :: "IpAddr \<Rightarrow> bool" where
  "is_multicast (V4 a) = (drop_bit 28 a = 14)"
| "is_multicast (V6 a) = (drop_bit 120 a = 255)"

section \<open>Printing IPv4 addresses\<close>

definition digit_char :: "int \<Rightarrow> char" where
  "digit_char n = char_of (48 + n)"

definition show_octet :: "int \<Rightarrow> string" where
  "show_octet n = (if n < 10 then [digit_char n]
     else if n < 100 then [digit_char (n div 10), digit_char (n mod 10)]
     else [digit_char (n div 100), digit_char (n div 10 mod 10), digit_char (n mod 10)])"

definition show_ipv4 :: "32 word \<Rightarrow> string" where
  "show_ipv4 w = (let n = uint w in
     show_octet (n div 16777216) @ ''.'' @ show_octet (n div 65536 mod 256) @ ''.'' @
     show_octet (n div 256 mod 256) @ ''.'' @ show_octet (n mod 256))"

section \<open>Round trip\<close>

lemma to_digit_digit_char [simp]: "0 \<le> n \<Longrightarrow> n < 10 \<Longrightarrow> to_digit 10 (digit_char n) = Some n"
  by (simp add: to_digit_def digit_char_def)

lemma to_digit_dot [simp]: "to_digit 10 (CHR ''.'') = None"
  by (simp add: to_digit_def)

definition no_digit :: "string \<Rightarrow> bool" where
  "no_digit s \<longleftrightarrow> (case s of [] \<Rightarrow> True | c # _ \<Rightarrow> to_digit 10 c = None)"

lemma read_digits_stop [simp]: "no_digit s \<Longrightarrow> read_digits 10 s = ([], s)"
  by (cases s) (simp_all add: no_digit_def)

lemma read_octet_show:
  assumes "0 \<le> n" "n < 256" "no_digit rest"
  shows "read_octet (show_octet n @ rest) = Some (n, rest)"
proof -
  consider "n < 10" | "10 \<le> n" "n < 100" | "100 \<le> n" by linarith
  then show ?thesis
  proof cases
    case 1
    then show ?thesis using assms
      by (simp add: read_octet_def read_number_def show_octet_def digits_value_def)
  next
    case 2
    then have d: "n div 10 < 10" "n mod 10 < 10" "0 < n div 10" "0 \<le> n mod 10" "n div 10 * 10 + n mod 10 = n"
      by auto
    have v: "digits_value 10 [n div 10, n mod 10] = n" using d by (simp add: digits_value_def)
    have "show_octet n = [digit_char (n div 10), digit_char (n mod 10)]" using 2 by (simp add: show_octet_def)
    then show ?thesis using d v assms by (simp add: read_octet_def read_number_def)
  next
    case 3
    then have d: "n div 100 < 10" "n div 10 mod 10 < 10" "n mod 10 < 10" "0 < n div 100"
      "0 \<le> n div 10 mod 10" "0 \<le> n mod 10"
      using assms(1,2) by auto
    have "(n div 100 * 10 + n div 10 mod 10) * 10 + n mod 10 = n"
      using zdiv_zmult2_eq[of 10 n 10] by simp
    then have v: "digits_value 10 [n div 100, n div 10 mod 10, n mod 10] = n" by (simp add: digits_value_def)
    have "show_octet n = [digit_char (n div 100), digit_char (n div 10 mod 10), digit_char (n mod 10)]"
      using 3 by (simp add: show_octet_def)
    then show ?thesis using d v assms by (simp add: read_octet_def read_number_def)
  qed
qed

lemma show_octet_length: "length (show_octet n) \<le> 3"
  by (simp add: show_octet_def)

lemma octets_join:
  fixes n :: int
  shows "((n div 16777216 * 256 + n div 65536 mod 256) * 256 + n div 256 mod 256) * 256 + n mod 256 = n"
proof -
  have "n div 65536 = n div 256 div 256" "n div 16777216 = n div 65536 div 256"
    using zdiv_zmult2_eq[of 256 n 256] zdiv_zmult2_eq[of 256 n 65536] by simp_all
  then show ?thesis by simp
qed

lemma read_ipv4_show: "read_ipv4_addr (show_ipv4 w) = Some (w, [])"
proof -
  have "uint w < 2 ^ 32" using unsigned_less[of w, where ?'a = int] by simp
  then have a: "uint w div 16777216 < 256" "0 \<le> uint w div 16777216" by (simp_all add: pos_imp_zdiv_nonneg_iff)
  have nd: "no_digit (CHR ''.'' # s)" "no_digit []" for s by (simp_all add: no_digit_def)
  note r = read_octet_show[OF _ _ nd(1)] read_octet_show[OF _ _ nd(2), simplified]
  have "ipv4_of_octets (uint w div 16777216) (uint w div 65536 mod 256) (uint w div 256 mod 256) (uint w mod 256) = w"
    by (simp only: ipv4_of_octets_def octets_join) simp
  then show ?thesis using a
    by (simp add: read_ipv4_addr_def show_ipv4_def Let_def r read_given_char_def)
qed

section \<open>Properties\<close>


end
