(* ===== verification/Multicast.thy ===== *)
theory Multicast
  imports Ip_Text Proxy_Error
begin

text \<open>
  \<^verbatim>\<open>proxy/src/multicast_config.rs\<close>: reading routes, addresses and link indices from
  \<^verbatim>\<open>ip --json\<close>, and opening the multicast sockets. The \<^verbatim>\<open>ip\<close> command, the JSON
  deserializers and the socket calls are parameters.
\<close>

record addr_info =
  ai_family :: "string option"
  ai_local :: "string option"

text \<open>
  \<open>ip_output\<close> is the exit status (success and text) and standard output of the command.
  The deserializers give the \<^verbatim>\<open>dst\<close> of every route, the \<^verbatim>\<open>addr_info\<close> of every interface and
  the \<^verbatim>\<open>ifindex\<close> of every link. \<open>'s\<close> is the type of sockets.
\<close>

record 's netdev =
  ip_output :: "string list \<Rightarrow> io_error + (bool \<times> string) \<times> bytes"
  json_routes :: "bytes \<Rightarrow> err + string list"
  json_addrs :: "bytes \<Rightarrow> err + addr_info list option list"
  json_links :: "bytes \<Rightarrow> err + u32 option list"
  udp_bind :: "SocketAddr \<Rightarrow> io_error + 's"
  join_multicast_v4 :: "'s \<Rightarrow> 32 word \<Rightarrow> 32 word \<Rightarrow> io_error + unit"
  join_multicast_v6 :: "'s \<Rightarrow> 128 word \<Rightarrow> u32 \<Rightarrow> io_error + unit"

fun join_words :: "string list \<Rightarrow> string" where
  "join_words [] = []"
| "join_words [a] = a"
| "join_words (a # as) = a @ '' '' @ join_words as"

definition run_ip_json :: "'s netdev \<Rightarrow> string list \<Rightarrow> io_error + bytes" where
  "run_ip_json N args = (case ip_output N args of
      Inl e \<Rightarrow> Inl e
    | Inr ((success, status_text), stdout) \<Rightarrow>
        if success then Inr stdout
        else Inl (OtherError, ''`ip '' @ join_words args @ ''` failed with status '' @ status_text))"

section \<open>The parsers\<close>

text \<open>One route: its group, when the destination is one multicast address.\<close>

definition route_group :: "string \<Rightarrow> IpAddr option" where
  "route_group dst = (case split_once (CHR ''/'') dst of
      Some (base, mask_str) \<Rightarrow> do {
        ip \<leftarrow> parse_ip base;
        mask \<leftarrow> parse_u8 mask_str;
        let is_exact = (case ip of V4 _ \<Rightarrow> mask = 32 | V6 _ \<Rightarrow> mask = 128);
        if is_multicast ip \<and> is_exact then Some ip else None }
    | None \<Rightarrow> do {
        ip \<leftarrow> parse_ip dst;
        if is_multicast ip then Some ip else None })"

definition parse_ip_route_for_device :: "'s netdev \<Rightarrow> bytes \<Rightarrow> io_error + IpAddr list" where
  "parse_ip_route_for_device N bytes = (case json_routes N bytes of
      Inl e \<Rightarrow> Inl (InvalidData, e)
    | Inr rows \<Rightarrow> Inr (sort_dedup (List.map_filter route_group rows)))"

fun first_inet :: "addr_info list \<Rightarrow> string option" where
  "first_inet [] = None"
| "first_inet (i # is) = (case (if ai_family i = Some ''inet'' then ai_local i else None) of
      Some s \<Rightarrow> Some s | None \<Rightarrow> first_inet is)"

definition parse_ipv4_addr_from_ip_addr_show_json :: "'s netdev \<Rightarrow> bytes \<Rightarrow> io_error + 32 word option" where
  "parse_ipv4_addr_from_ip_addr_show_json N bytes = (case json_addrs N bytes of
      Inl e \<Rightarrow> Inl (InvalidData, e)
    | Inr rows \<Rightarrow> Inr (Option.bind
        (first_inet (concat (map (\<lambda>r. case r of None \<Rightarrow> [] | Some is \<Rightarrow> is) rows))) parse_ipv4))"

definition parse_ifindex_from_ip_link_show_json :: "'s netdev \<Rightarrow> bytes \<Rightarrow> io_error + u32 option" where
  "parse_ifindex_from_ip_link_show_json N bytes = (case json_links N bytes of
      Inl e \<Rightarrow> Inl (InvalidData, e)
    | Inr rows \<Rightarrow> Inr (if rows = [] then None else last rows))"

definition get_ip_route_for_device :: "'s netdev \<Rightarrow> string \<Rightarrow> io_error + IpAddr list" where
  "get_ip_route_for_device N device =
     (case run_ip_json N [''--json'', ''route'', ''show'', ''dev'', device] of
        Inl e \<Rightarrow> Inl e | Inr stdout \<Rightarrow> parse_ip_route_for_device N stdout)"

definition ipv4_addr_for_device :: "'s netdev \<Rightarrow> string \<Rightarrow> io_error + 32 word option" where
  "ipv4_addr_for_device N device =
     (case run_ip_json N [''--json'', ''addr'', ''show'', ''dev'', device] of
        Inl e \<Rightarrow> Inl e | Inr stdout \<Rightarrow> parse_ipv4_addr_from_ip_addr_show_json N stdout)"

definition ifindex_for_device :: "'s netdev \<Rightarrow> string \<Rightarrow> io_error + u32 option" where
  "ifindex_for_device N device =
     (case run_ip_json N [''--json'', ''link'', ''show'', ''dev'', device] of
        Inl e \<Rightarrow> Inl e | Inr stdout \<Rightarrow> parse_ifindex_from_ip_link_show_json N stdout)"

section \<open>Opening the sockets\<close>

text \<open>A bound socket with the groups it was asked to join and whether that succeeded.\<close>

record 's mcast_socket =
  ms_socket :: 's
  ms_joins :: "(IpAddr \<times> bool) list"

definition groups_v4 :: "IpAddr list \<Rightarrow> 32 word list" where
  "groups_v4 ips = List.map_filter (\<lambda>ip. case ip of V4 a \<Rightarrow> Some a | V6 _ \<Rightarrow> None) ips"

definition groups_v6 :: "IpAddr list \<Rightarrow> 128 word list" where
  "groups_v6 ips = List.map_filter (\<lambda>ip. case ip of V4 _ \<Rightarrow> None | V6 a \<Rightarrow> Some a) ips"

definition select_groups ::
  "'s netdev \<Rightarrow> string \<Rightarrow> IpAddr option \<Rightarrow> 32 word list \<times> 128 word list" where
  "select_groups N device_name multicast_ip = (case multicast_ip of
      Some (V4 g) \<Rightarrow> ([g], [])
    | Some (V6 g6) \<Rightarrow> ([], [g6])
    | None \<Rightarrow> (case get_ip_route_for_device N device_name of
        Inl e \<Rightarrow> ([], [])
      | Inr ips \<Rightarrow> (groups_v4 ips, groups_v6 ips)))"

definition open_v4 :: "'s netdev \<Rightarrow> u16 \<Rightarrow> 32 word option \<Rightarrow> 32 word list \<Rightarrow> 's mcast_socket list" where
  "open_v4 N multicast_port device_ipv4 groups = (if groups = [] then []
     else (case udp_bind N (SocketAddr_new (V4 0) multicast_port) of
         Inl e \<Rightarrow> []
       | Inr sock \<Rightarrow> [\<lparr>ms_socket = sock, ms_joins = map (\<lambda>g. (V4 g,
           case join_multicast_v4 N sock g (case device_ipv4 of None \<Rightarrow> 0 | Some a \<Rightarrow> a) of
             Inl _ \<Rightarrow> False | Inr _ \<Rightarrow> True)) groups\<rparr>]))"

definition open_v6 :: "'s netdev \<Rightarrow> u16 \<Rightarrow> u32 option \<Rightarrow> 128 word list \<Rightarrow> 's mcast_socket list" where
  "open_v6 N multicast_port device_ifindex groups = (if groups = [] then []
     else (case udp_bind N (SocketAddr_new (V6 0) multicast_port) of
         Inl e \<Rightarrow> []
       | Inr sock \<Rightarrow> [\<lparr>ms_socket = sock, ms_joins = map (\<lambda>g. (V6 g,
           case join_multicast_v6 N sock g (case device_ifindex of None \<Rightarrow> 0 | Some i \<Rightarrow> i) of
             Inl _ \<Rightarrow> False | Inr _ \<Rightarrow> True)) groups\<rparr>]))"

definition create_multicast_socket_on_device ::
  "'s netdev \<Rightarrow> string \<Rightarrow> u16 \<Rightarrow> IpAddr option \<Rightarrow> 's mcast_socket list option" where
  "create_multicast_socket_on_device N device_name multicast_port multicast_ip =
     (let device_ipv4 = (case ipv4_addr_for_device N device_name of Inl e \<Rightarrow> None | Inr a \<Rightarrow> a);
          device_ifindex_v6 = (case ifindex_for_device N device_name of Inl e \<Rightarrow> None | Inr i \<Rightarrow> i);
          (g4, g6) = select_groups N device_name multicast_ip
      in if g4 = [] \<and> g6 = [] then None
         else (let sockets = open_v4 N multicast_port device_ipv4 g4 @ open_v6 N multicast_port device_ifindex_v6 g6
               in if sockets = [] then None else Some sockets))"

section \<open>Lemmas\<close>

lemma set_map_filter: "set (List.map_filter f xs) = {y. \<exists>x\<in>set xs. f x = Some y}"
  by (induction xs) (auto simp: List.map_filter_simps split: option.splits)

lemma route_group_multicast: "route_group dst = Some ip \<Longrightarrow> is_multicast ip"
  by (auto simp: route_group_def Let_def split: option.splits if_splits Option.bind_splits)

lemma set_groups: "V4 ` set (groups_v4 ips) \<union> V6 ` set (groups_v6 ips) = set ips"
proof (induction ips)
  case Nil
  then show ?case by (simp add: groups_v4_def groups_v6_def List.map_filter_simps)
next
  case (Cons ip ips)
  then show ?case by (cases ip) (auto simp: groups_v4_def groups_v6_def List.map_filter_simps)
qed

text \<open>The groups the sockets are asked to join, when every bind succeeds.\<close>

lemma opened_joins:
  assumes "udp_bind N (SocketAddr_new (V4 0) port) = Inr s4" "udp_bind N (SocketAddr_new (V6 0) port) = Inr s6"
  shows "\<Union> ((\<lambda>s. fst ` set (ms_joins s)) ` set (open_v4 N port a g4 @ open_v6 N port i g6)) = V4 ` set g4 \<union> V6 ` set g6"
  using assms by (auto simp: open_v4_def open_v6_def image_image)

section \<open>Properties\<close>


text \<open>A host with two multicast routes.\<close>

definition ex_netdev :: "SocketAddr netdev" where
  "ex_netdev = \<lparr>ip_output = (\<lambda>args. Inr ((True, ''0''), [])),
     json_routes = (\<lambda>_. Inr [''169.254.2.112/31'', ''233.84.178.2'', ''ff02::1/128'', ''224.0.0.9/24'', ''233.84.178.2/32'']),
     json_addrs = (\<lambda>_. Inr [None, Some [\<lparr>ai_family = Some ''inet6'', ai_local = Some ''fe80::1''\<rparr>,
        \<lparr>ai_family = Some ''inet'', ai_local = Some ''192.168.1.10''\<rparr>]]),
     json_links = (\<lambda>_. Inr [Some 3]),
     udp_bind = Inr, join_multicast_v4 = (\<lambda>_ _ _. Inr ()), join_multicast_v6 = (\<lambda>_ _ _. Inr ())\<rparr>"




end
