(* ===== verification/Proxy_Main.thy ===== *)
theory Proxy_Main
  imports Forwarder Heartbeat Multicast Destinations
begin

text \<open>
  \<^verbatim>\<open>proxy/src/main.rs\<close>: the arguments, their validation, the shutdown channel, and what is
  started and joined in each mode. Command-line parsing, signals, the runtime and the
  network are parameters.
\<close>

section \<open>Arguments\<close>

record CommonArgs =
  src_bind_addr :: IpAddr
  src_bind_port :: u16
  multicast_bind_ip :: "IpAddr option"
  multicast_device :: string
  multicast_subscribe_port :: u16
  dest_ip_ports :: "(SocketAddr \<times> string) list"
  endpoint_discovery_url :: "string option"
  discovered_endpoints_port :: "u16 option"
  metrics_report_interval_ms :: u64
  debug_trace_shred :: bool
  grpc_service_port :: "u16 option"
  public_ip :: "IpAddr option"
  num_threads :: "nat option"
  coalesce_ms :: u64
  prometheus_bind_addr :: "SocketAddr option"

record ShredstreamArgs =
  block_engine_url :: string
  auth_url :: "string option"
  auth_keypair :: string
  desired_regions :: "string list"
  common_args :: CommonArgs

record SubscribeOnlyArgs =
  so_block_engine_url :: string
  so_auth_url :: "string option"
  so_auth_keypair :: string
  so_desired_regions :: "string list"
  so_dest_port :: u16
  so_public_ip :: "IpAddr option"

datatype ProxySubcommands =
    Shredstream ShredstreamArgs | ForwardOnly CommonArgs | SubscribeOnly SubscribeOnlyArgs

definition default_common_args :: "(SocketAddr \<times> string) list \<Rightarrow> CommonArgs" where
  "default_common_args dests = \<lparr>src_bind_addr = V4 0, src_bind_port = 20000, multicast_bind_ip = None,
     multicast_device = ''doublezero1'', multicast_subscribe_port = 20001, dest_ip_ports = dests,
     endpoint_discovery_url = None, discovered_endpoints_port = None, metrics_report_interval_ms = 15000,
     debug_trace_shred = False, grpc_service_port = None, public_ip = None, num_threads = None,
     coalesce_ms = 0, prometheus_bind_addr = None\<rparr>"

definition validate_args :: "CommonArgs \<Rightarrow> ShredstreamProxyError + unit" where
  "validate_args args =
     (if endpoint_discovery_url args = None \<and> discovered_endpoints_port args \<noteq> None
         \<or> endpoint_discovery_url args \<noteq> None \<and> discovered_endpoints_port args = None
      then Inl (IoError (InvalidInput, ''Invalid arguments provided, dynamic endpoints requires both --endpoint-discovery-url and --discovered-endpoints-port.''))
      else if endpoint_discovery_url args = None \<and> discovered_endpoints_port args = None \<and> dest_ip_ports args = []
      then Inl (IoError (InvalidInput, ''No destinations found. You must provide values for --dest-ip-ports or --endpoint-discovery-url.''))
      else Inr ())"

section \<open>The shutdown channel\<close>

text \<open>
  A bounded channel of 256 messages. A signal sets the exit flag and then sends 256 messages, each
  waiting while the channel is full; \<open>sd_pending\<close> are the sends still to come.
\<close>

record shutdown =
  sd_exit :: bool
  sd_queued :: nat
  sd_pending :: nat

definition SHUTDOWN_CAPACITY :: nat where
  "SHUTDOWN_CAPACITY = 256"

text \<open>The sending thread runs until it is done or blocked.\<close>

definition pump :: "shutdown \<Rightarrow> shutdown" where
  "pump s = (let k = min (sd_pending s) (SHUTDOWN_CAPACITY - sd_queued s) in
     s\<lparr>sd_queued := sd_queued s + k, sd_pending := sd_pending s - k\<rparr>)"

text \<open>A signal is handled only when the sends of the one before are done.\<close>

definition on_signal :: "shutdown \<Rightarrow> shutdown" where
  "on_signal s = (if sd_pending s = 0 then pump (s\<lparr>sd_exit := True, sd_pending := 256\<rparr>) else s)"

definition recv_shutdown :: "shutdown \<Rightarrow> (bool \<times> shutdown)" where
  "recv_shutdown s = (if sd_queued s = 0 then (False, s) else (True, pump (s\<lparr>sd_queued := sd_queued s - 1\<rparr>)))"

definition shutdown_notifier :: "(io_error + unit) \<Rightarrow> io_error + shutdown" where
  "shutdown_notifier signals = (case signals of Inl e \<Rightarrow> Inl e
     | Inr _ \<Rightarrow> Inr \<lparr>sd_exit = False, sd_queued = 0, sd_pending = 0\<rparr>)"

text \<open>
  The panic hook, as far as the other threads see it: the exit flag is set and one message is sent,
  which waits while the channel is full. The result says whether the send has completed.
\<close>

definition panic_hook :: "shutdown \<Rightarrow> shutdown \<times> bool" where
  "panic_hook s = (let s = s\<lparr>sd_exit := True\<rparr> in
     if sd_queued s < SHUTDOWN_CAPACITY then (s\<lparr>sd_queued := sd_queued s + 1\<rparr>, True) else (s, False))"

section \<open>The public address\<close>

text \<open>
  \<open>response\<close> is the text of the answer; text that is no address panics.
\<close>

definition get_public_ip :: "(err + string) \<Rightarrow> (err + IpAddr) option" where
  "get_public_ip response = (case response of
      Inl e \<Rightarrow> Some (Inl e)
    | Inr txt \<Rightarrow> map_option Inr (parse_ip txt))"

definition public_ip_or :: "(err + string) \<Rightarrow> IpAddr option \<Rightarrow> IpAddr option" where
  "public_ip_or response ip = (case ip of Some a \<Rightarrow> Some a
     | None \<Rightarrow> (case get_public_ip response of Some (Inr a) \<Rightarrow> Some a | _ \<Rightarrow> None))"

section \<open>Starting\<close>

record 's proxy_env =
  pe_hostname :: "io_error + string option"
  pe_signals :: "io_error + unit"
  pe_runtime :: "io_error + unit"
  pe_keypair_file :: "string \<Rightarrow> err + keypair"
  pe_public_ip :: "err + string"
  pe_netdev :: "'s netdev"
  pe_parallelism :: "err + nat"
  pe_multi_bind :: "IpAddr \<Rightarrow> u16 \<times> u16 \<Rightarrow> nat \<Rightarrow> err + u16 \<times> 's list"

text \<open>What a heartbeat thread is started with.\<close>

record hb_config =
  hc_block_engine_url :: string
  hc_auth_url :: string
  hc_keypair :: keypair
  hc_regions :: "string list"
  hc_recv_socket :: SocketAddr
  hc_service_name :: string

definition start_heartbeat :: "'s proxy_env \<Rightarrow> ShredstreamArgs \<Rightarrow> hb_config option" where
  "start_heartbeat env args = do {
     kp \<leftarrow> (case pe_keypair_file env (auth_keypair args) of Inl e \<Rightarrow> None | Inr k \<Rightarrow> Some k);
     ip \<leftarrow> public_ip_or (pe_public_ip env) (public_ip (common_args args));
     Some \<lparr>hc_block_engine_url = block_engine_url args,
           hc_auth_url = (case auth_url args of Some u \<Rightarrow> u | None \<Rightarrow> block_engine_url args),
           hc_keypair = kp, hc_regions = desired_regions args,
           hc_recv_socket = SocketAddr_new ip (src_bind_port (common_args args)),
           hc_service_name = ''shredstream_proxy''\<rparr> }"

text \<open>
  A started proxy: the initial destinations, the heartbeat, what the refresh thread and the
  entry server were given, the counters, the threads spawned and the threads joined in order.
\<close>

record started =
  st_dests :: "SocketAddr list"
  st_heartbeat :: "hb_config option"
  st_refresh :: "(string \<times> u16 \<times> (SocketAddr \<times> string) list) option"
  st_server :: "SocketAddr option"
  st_metrics :: ShredMetrics
  st_spawned :: "thread_name list"
  st_joined :: "thread_name list"

definition run_subscribe_only_mode ::
  "'s proxy_env \<Rightarrow> SubscribeOnlyArgs \<Rightarrow> (ShredstreamProxyError + hb_config) option" where
  "run_subscribe_only_mode env args = (case pe_hostname env of
      Inl e \<Rightarrow> Some (Inl (IoError e))
    | Inr host \<Rightarrow> do {
        _ \<leftarrow> host;
        _ \<leftarrow> (case shutdown_notifier (pe_signals env) of Inl e \<Rightarrow> None | Inr s \<Rightarrow> Some s);
        (case pe_runtime env of
           Inl e \<Rightarrow> Some (Inl (IoError e))
         | Inr _ \<Rightarrow> do {
             kp \<leftarrow> (case pe_keypair_file env (so_auth_keypair args) of Inl e \<Rightarrow> None | Inr k \<Rightarrow> Some k);
             ip \<leftarrow> public_ip_or (pe_public_ip env) (so_public_ip args);
             Some (Inr \<lparr>hc_block_engine_url = so_block_engine_url args,
               hc_auth_url = (case so_auth_url args of Some u \<Rightarrow> u | None \<Rightarrow> so_block_engine_url args),
               hc_keypair = kp, hc_regions = so_desired_regions args,
               hc_recv_socket = SocketAddr_new ip (so_dest_port args),
               hc_service_name = ''shredstream_proxy_subscribe''\<rparr>) }) })"

text \<open>
  The two forwarding modes after the arguments are known to be valid: the threads in the order
  they are pushed to \<^verbatim>\<open>thread_handles\<close>.
\<close>

definition start_proxy ::
  "'s proxy_env \<Rightarrow> ShredstreamArgs option \<Rightarrow> CommonArgs \<Rightarrow> started option" where
  "start_proxy env shredstream args = do {
     hb \<leftarrow> (case shredstream of None \<Rightarrow> Some None | Some a \<Rightarrow> map_option Some (start_heartbeat env a));
     let use_discovery_service = (endpoint_discovery_url args \<noteq> None \<and> discovered_endpoints_port args \<noteq> None);
     let maybe_multicast = create_multicast_socket_on_device (pe_netdev env) (multicast_device args)
           (multicast_subscribe_port args) (multicast_bind_ip args);
     (spawned, hdls) \<leftarrow> start_forwarder_threads (pe_parallelism env) (pe_multi_bind env) (src_bind_addr args)
           (src_bind_port args) (map_option (map ms_socket) maybe_multicast) (num_threads args)
           (grpc_service_port args \<noteq> None);
     refresh \<leftarrow> (if use_discovery_service then do {
           url \<leftarrow> endpoint_discovery_url args;
           port \<leftarrow> discovered_endpoints_port args;
           Some (Some (url, port, dest_ip_ports args)) } else Some None);
     let before = (if hb = None then [] else [Heartbeat_Loop]);
     let rest = [Report_Stats, Accessory]
           @ (if refresh = None then [] else [Dest_Refresh])
           @ (if grpc_service_port args = None then [] else [Entry_Server])
           @ (if prometheus_bind_addr args = None then [] else [Prometheus_Server]);
     Some \<lparr>st_dests = map fst (dest_ip_ports args), st_heartbeat = hb, st_refresh = refresh,
           st_server = map_option (SocketAddr_new (V4 0)) (grpc_service_port args),
           st_metrics = ShredMetrics_new (grpc_service_port args \<noteq> None),
           st_spawned = before @ spawned @ rest, st_joined = before @ hdls @ rest\<rparr> }"

text \<open>The thread that reports the receiver's statistics every second; the state counts its reports.\<close>

definition report_stats_body :: "unit \<Rightarrow> nat \<Rightarrow> nat verdict option" where
  "report_stats_body _ reports = Some (Continue (Suc reports))"

definition report_stats_thread :: "unit poll list \<Rightarrow> nat option" where
  "report_stats_thread polls = event_loop report_stats_body polls 0"

text \<open>The totals in the message that \<^verbatim>\<open>main\<close> logs when all threads are joined.\<close>

definition exit_totals :: "ShredMetrics \<Rightarrow> u64 \<times> u64 \<times> u64 \<times> u64" where
  "exit_totals m = (agg_received_cumulative m, agg_success_forward_cumulative m,
     agg_fail_forward_cumulative m, duplicate_cumulative m)"

text \<open>
  \<^verbatim>\<open>main\<close>, after registering the collectors and parsing the command line. \<open>None\<close> is a panic.
\<close>

datatype main_result = Failed ShredstreamProxyError | Running started | Subscribed hb_config

fun subcommand_args :: "ProxySubcommands \<Rightarrow> CommonArgs option" where
  "subcommand_args (Shredstream x) = Some (common_args x)"
| "subcommand_args (ForwardOnly x) = Some x"
| "subcommand_args (SubscribeOnly x) = None"

definition main :: "'s proxy_env \<Rightarrow> ProxySubcommands \<Rightarrow> main_result option" where
  "main env cmd = (case cmd of
     SubscribeOnly sub_args \<Rightarrow> map_option (\<lambda>r. case r of Inl e \<Rightarrow> Failed e | Inr hc \<Rightarrow> Subscribed hc)
        (run_subscribe_only_mode env sub_args)
   | _ \<Rightarrow> do {
       args \<leftarrow> subcommand_args cmd;
       (case pe_hostname env of
          Inl e \<Rightarrow> Some (Failed (IoError e))
        | Inr host \<Rightarrow> do {
            _ \<leftarrow> host;
            (case validate_args args of
               Inl e \<Rightarrow> Some (Failed e)
             | Inr _ \<Rightarrow> do {
                 _ \<leftarrow> (case shutdown_notifier (pe_signals env) of Inl e \<Rightarrow> None | Inr s \<Rightarrow> Some s);
                 (case pe_runtime env of
                    Inl e \<Rightarrow> Some (Failed (IoError e))
                  | Inr _ \<Rightarrow> map_option Running
                      (start_proxy env (case cmd of Shredstream x \<Rightarrow> Some x | _ \<Rightarrow> None) args)) }) }) })"

section \<open>Lemmas\<close>

fun recv_times :: "nat \<Rightarrow> shutdown \<Rightarrow> bool list \<times> shutdown" where
  "recv_times 0 s = ([], s)"
| "recv_times (Suc n) s = (case recv_shutdown s of (ok, s') \<Rightarrow>
     (case recv_times n s' of (oks, s'') \<Rightarrow> (ok # oks, s'')))"

lemma pump_total: "sd_queued (pump s) + sd_pending (pump s) = sd_queued s + sd_pending s"
  by (simp add: pump_def Let_def)

lemma pump_queued: "sd_queued s \<le> SHUTDOWN_CAPACITY \<Longrightarrow> sd_queued (pump s) \<le> SHUTDOWN_CAPACITY"
  by (simp add: pump_def Let_def)

lemma pump_stuck:
  "sd_queued s \<le> SHUTDOWN_CAPACITY \<Longrightarrow> sd_pending (pump s) = 0 \<or> sd_queued (pump s) = SHUTDOWN_CAPACITY"
  by (auto simp: pump_def Let_def min_def)

text \<open>What the channel still owes its receivers, once the sender has run as far as it can.\<close>

definition settled :: "shutdown \<Rightarrow> bool" where
  "settled s \<longleftrightarrow> sd_queued s \<le> SHUTDOWN_CAPACITY \<and> (sd_pending s = 0 \<or> sd_queued s = SHUTDOWN_CAPACITY)"

lemma settled_pump: "sd_queued s \<le> SHUTDOWN_CAPACITY \<Longrightarrow> settled (pump s)"
  using pump_queued pump_stuck by (simp add: settled_def)

lemma recv_shutdown_ok:
  assumes "settled s" "0 < sd_queued s + sd_pending s"
  obtains s' where "recv_shutdown s = (True, s')" "settled s'"
    "sd_queued s' + sd_pending s' = sd_queued s + sd_pending s - 1"
proof -
  have q: "0 < sd_queued s" using assms by (auto simp: settled_def SHUTDOWN_CAPACITY_def)
  let ?s = "s\<lparr>sd_queued := sd_queued s - 1\<rparr>"
  have "settled (pump ?s)" using assms(1) by (intro settled_pump) (auto simp: settled_def)
  moreover have "sd_queued (pump ?s) + sd_pending (pump ?s) = sd_queued s + sd_pending s - 1"
    using pump_total[of ?s] q by simp
  ultimately show ?thesis using q that[of "pump ?s"] by (simp add: recv_shutdown_def)
qed

lemma recv_times_ok:
  "settled s \<Longrightarrow> n \<le> sd_queued s + sd_pending s \<Longrightarrow> fst (recv_times n s) = replicate n True"
proof (induction n arbitrary: s)
  case 0
  then show ?case by simp
next
  case (Suc n)
  have "0 < sd_queued s + sd_pending s" using Suc.prems(2) by linarith
  from recv_shutdown_ok[OF Suc.prems(1) this] obtain s' where s': "recv_shutdown s = (True, s')" "settled s'"
    "sd_queued s' + sd_pending s' = sd_queued s + sd_pending s - 1" .
  then show ?case using Suc.IH[OF s'(2)] Suc.prems by (auto split: prod.splits)
qed

lemma start_proxy_threads:
  assumes "start_proxy env sh args = Some s"
  obtains mc spawned hdls where
    "start_forwarder_threads (pe_parallelism env) (pe_multi_bind env) (src_bind_addr args) (src_bind_port args)
       mc (num_threads args) (grpc_service_port args \<noteq> None) = Some (spawned, hdls)"
    "st_spawned s = (if sh = None then [] else [Heartbeat_Loop]) @ spawned @ [Report_Stats, Accessory]
       @ (if st_refresh s = None then [] else [Dest_Refresh])
       @ (if grpc_service_port args = None then [] else [Entry_Server])
       @ (if prometheus_bind_addr args = None then [] else [Prometheus_Server])"
    "st_joined s = (if sh = None then [] else [Heartbeat_Loop]) @ hdls @ [Report_Stats, Accessory]
       @ (if st_refresh s = None then [] else [Dest_Refresh])
       @ (if grpc_service_port args = None then [] else [Entry_Server])
       @ (if prometheus_bind_addr args = None then [] else [Prometheus_Server])"
  using assms unfolding start_proxy_def Let_def
  by (auto split: option.splits Option.bind_splits if_splits prod.splits)

lemma start_proxy_given:
  assumes "start_proxy env sh args = Some s"
  shows "st_dests s = map fst (dest_ip_ports args)"
    and "st_refresh s = (case (endpoint_discovery_url args, discovered_endpoints_port args) of
        (Some url, Some port) \<Rightarrow> Some (url, port, dest_ip_ports args) | _ \<Rightarrow> None)"
    and "st_heartbeat s = (case sh of None \<Rightarrow> None | Some a \<Rightarrow> start_heartbeat env a)"
    and "sh \<noteq> None \<longrightarrow> st_heartbeat s \<noteq> None"
  using assms unfolding start_proxy_def Let_def
  by (auto split: option.splits Option.bind_splits if_splits prod.splits)

lemma subscribed_not_running [simp]: "(case r of Inl e \<Rightarrow> Failed e | Inr hc \<Rightarrow> Subscribed hc) \<noteq> Running s"
  by (cases r) simp_all

lemma main_Running:
  assumes "main env cmd = Some (Running s)"
  obtains args where "subcommand_args cmd = Some args" "validate_args args = Inr ()"
    "start_proxy env (case cmd of Shredstream x \<Rightarrow> Some x | _ \<Rightarrow> None) args = Some s"
  using assms unfolding main_def
  by (cases cmd) (auto split: sum.splits option.splits Option.bind_splits)

section \<open>Properties\<close>


definition ex_env :: "SocketAddr proxy_env" where
  "ex_env = \<lparr>pe_hostname = Inr (Some ''host''), pe_signals = Inr (), pe_runtime = Inr (),
     pe_keypair_file = (\<lambda>_. Inr ex_keypair), pe_public_ip = Inr ''10.0.0.1'',
     pe_netdev = ex_netdev, pe_parallelism = Inr 2,
     pe_multi_bind = (\<lambda>ip (lo, hi) n. Inr (lo, replicate n (SocketAddr_new ip lo)))\<rparr>"

definition ex_args :: ShredstreamArgs where
  "ex_args = \<lparr>block_engine_url = ''https://be'', auth_url = None, auth_keypair = ''id.json'',
     desired_regions = [''ny'', ''ams'', ''fra''],
     common_args = (default_common_args [(SocketAddrV4 1 8001, ''a:8001'')])
       \<lparr>grpc_service_port := Some 7777, multicast_bind_ip := Some (V4 0xE954B202)\<rparr>\<rparr>"

lemma ex_running: "\<exists>s. main ex_env (Shredstream ex_args) = Some (Running s)"
proof -
  have "map_option (\<lambda>r. case r of Running s \<Rightarrow> True | _ \<Rightarrow> False) (main ex_env (Shredstream ex_args)) = Some True"
    by code_simp
  then obtain r where "main ex_env (Shredstream ex_args) = Some r" "case r of Running s \<Rightarrow> True | _ \<Rightarrow> False"
    by auto
  then show ?thesis by (cases r) auto
qed




text \<open>The heartbeat of a running proxy asks for every region that was configured, however many, and
advertises the configured bind port as it is, zero included; without an authentication URL the block
engine's is used.\<close>

theorem heartbeat_configuration:
  assumes "main env (Shredstream a) = Some (Running s)"
  shows "\<exists>hc ip. st_heartbeat s = Some hc \<and> hc_regions hc = desired_regions a \<and>
     hc_recv_socket hc = SocketAddr_new ip (src_bind_port (common_args a)) \<and>
     (public_ip (common_args a) \<noteq> None \<longrightarrow> public_ip (common_args a) = Some ip) \<and>
     hc_auth_url hc = (case auth_url a of Some u \<Rightarrow> u | None \<Rightarrow> block_engine_url a)"
proof -
  obtain args where "start_proxy env (Some a) args = Some s"
    using main_Running[OF assms] by auto
  then have "st_heartbeat s \<noteq> None" "st_heartbeat s = start_heartbeat env a"
    using start_proxy_given(3,4) by force+
  then show ?thesis
    by (auto simp: start_heartbeat_def public_ip_or_def split: option.splits sum.splits Option.bind_splits)
qed

theorem heartbeat_configuration_witness:
  "\<exists>s hc. main ex_env (Shredstream ex_args) = Some (Running s) \<and> st_heartbeat s = Some hc \<and>
     hc_regions hc = [''ny'', ''ams'', ''fra'']"
proof -
  obtain s where s: "main ex_env (Shredstream ex_args) = Some (Running s)" using ex_running by blast
  show ?thesis using heartbeat_configuration[OF s] s by (auto simp: ex_args_def)
qed

text \<open>One signal wakes every thread: after the first signal the exit flag is set and at least 256
receivers, one after the other, get a shutdown message, however the sending thread was blocked in
between; the channel never holds more than its capacity.\<close>

theorem signal_reaches_receivers:
  assumes "shutdown_notifier signals = Inr s" "n \<le> 256"
  shows "sd_exit (on_signal s) \<and> fst (recv_times n (on_signal s)) = replicate n True \<and>
     sd_queued (on_signal s) \<le> SHUTDOWN_CAPACITY"
proof -
  have s: "s = \<lparr>sd_exit = False, sd_queued = 0, sd_pending = 0\<rparr>"
    using assms(1) by (auto simp: shutdown_notifier_def split: sum.splits)
  let ?s = "s\<lparr>sd_exit := True, sd_pending := 256\<rparr>"
  have on: "on_signal s = pump ?s" by (simp add: on_signal_def s)
  have st: "settled (pump ?s)" by (rule settled_pump) (simp add: s)
  moreover have "sd_queued (pump ?s) + sd_pending (pump ?s) = 256" using pump_total[of ?s] by (simp add: s)
  ultimately have "fst (recv_times n (on_signal s)) = replicate n True"
    using recv_times_ok[of "pump ?s" n] assms(2) by (simp add: on)
  then show ?thesis using st by (simp add: on settled_def) (simp add: pump_def Let_def)
qed

theorem signal_reaches_receivers_witness:
  "fst (recv_times 3 (on_signal \<lparr>sd_exit = False, sd_queued = 0, sd_pending = 0\<rparr>)) = [True, True, True]"
proof -
  have "shutdown_notifier (Inr ()) = Inr \<lparr>sd_exit = False, sd_queued = 0, sd_pending = 0\<rparr>"
    by (simp add: shutdown_notifier_def)
  from signal_reaches_receivers[OF this, of 3] show ?thesis by (simp add: numeral_eq_Suc)
qed

lemma recv_times_none: "sd_queued s = 0 \<Longrightarrow> fst (recv_times n s) = replicate n False"
  by (induction n) (auto simp: recv_shutdown_def split: prod.splits)

text \<open>A panic sets the exit flag but wakes a single thread: of any number of threads that then wait
for a shutdown message one after the other, only the first gets one. After a signal that was not
consumed the hook cannot even send that message and waits.\<close>

theorem panic_wakes_one:
  assumes "shutdown_notifier signals = Inr s"
  shows "sd_exit (fst (panic_hook s)) \<and> snd (panic_hook s) \<and>
     fst (recv_times (Suc n) (fst (panic_hook s))) = True # replicate n False \<and>
     \<not> snd (panic_hook (on_signal s))"
proof -
  have s: "s = \<lparr>sd_exit = False, sd_queued = 0, sd_pending = 0\<rparr>"
    using assms by (auto simp: shutdown_notifier_def split: sum.splits)
  let ?s = "\<lparr>sd_exit = True, sd_queued = 1, sd_pending = 0\<rparr>"
  have h: "panic_hook s = (?s, True)" by (simp add: panic_hook_def s SHUTDOWN_CAPACITY_def)
  have "recv_shutdown ?s = (True, \<lparr>sd_exit = True, sd_queued = 0, sd_pending = 0\<rparr>)"
    by (simp add: recv_shutdown_def pump_def)
  then have "fst (recv_times (Suc n) ?s) = True # replicate n False"
    using recv_times_none[of "\<lparr>sd_exit = True, sd_queued = 0, sd_pending = 0\<rparr>" n] by (auto split: prod.splits)
  moreover have "\<not> snd (panic_hook (on_signal s))"
    by (simp add: panic_hook_def on_signal_def pump_def s SHUTDOWN_CAPACITY_def)
  ultimately show ?thesis by (simp add: h)
qed

theorem panic_wakes_one_witness:
  "fst (recv_times 3 (fst (panic_hook \<lparr>sd_exit = False, sd_queued = 0, sd_pending = 0\<rparr>))) = [True, False, False]"
proof -
  have "shutdown_notifier (Inr ()) = Inr \<lparr>sd_exit = False, sd_queued = 0, sd_pending = 0\<rparr>"
    by (simp add: shutdown_notifier_def)
  from panic_wakes_one[OF this, of 2] show ?thesis by (simp add: numeral_eq_Suc)
qed

end
