(* ===== verification/Proxy_System.thy ===== *)
theory Proxy_System
  imports Deshred_Props Forwarder_Props Destinations Server Proxy_Main "HOL-Library.Sublist"
begin

text \<open>
  The running proxy: the send threads, the reconstructor, the refresh thread and the accessory
  thread on the state they share. One step is one iteration of one thread, as its own theory
  models it, on the shared state of that moment; every interleaving of such steps is a run. (The
  interleavings inside \<^verbatim>\<open>reset\<close> are in \<open>Shred_Metrics\<close>.)
\<close>

section \<open>Shared state and steps\<close>

text \<open>
  \<open>px_local i\<close> is the destination list that send thread \<open>i\<close> has loaded. \<open>px_taken\<close> are the
  batches the send threads have taken from their channels, in order, and \<open>px_fed\<close> those the
  reconstructor has taken from its channel; no thread reads these two.
\<close>

record 'd proxy =
  px_fw :: "'d forwarder"
  px_local :: "nat \<Rightarrow> SocketAddr list"
  px_refresh :: refresher
  px_recon :: reconstructor
  px_points :: "datapoint list"
  px_taken :: "packet list list"
  px_fed :: "packet list list"

record px_config =
  cf_url :: string
  cf_port :: u16
  cf_static :: "(SocketAddr \<times> string) list"
  cf_reconstruct :: bool
  cf_trace :: bool

abbreviation px_metrics :: "'d proxy \<Rightarrow> ShredMetrics" where
  "px_metrics p \<equiv> fw_metrics (px_fw p)"

abbreviation px_queue :: "'d proxy \<Rightarrow> packet list list" where
  "px_queue p \<equiv> ch_items (fw_reconstruct (px_fw p))"

definition sender_view :: "nat \<Rightarrow> 'd proxy \<Rightarrow> 'd sender" where
  "sender_view i p = \<lparr>sd_fw = px_fw p, sd_dests = px_local p i\<rparr>"

definition accessory_view :: "'d proxy \<Rightarrow> 'd accessory" where
  "accessory_view p = \<lparr>ac_deduper = fw_deduper (px_fw p), ac_poisoned = fw_poisoned (px_fw p),
     ac_metrics = px_metrics p, ac_points = px_points p\<rparr>"

text \<open>The reconstructor counts on the shared counters.\<close>

definition recon_view :: "'d proxy \<Rightarrow> reconstructor" where
  "recon_view p = (px_recon p)\<lparr>recon := (recon (px_recon p))\<lparr>rc_metrics := px_metrics p\<rparr>\<rparr>"

inductive px_step :: "ledger \<Rightarrow> px_config \<Rightarrow> 'd proxy \<Rightarrow> 'd proxy \<Rightarrow> bool" for L cf where
  send: "sender_body L (cf_reconstruct cf) (cf_trace cf) (RecvPackets usecs net (Inr batch)) (sender_view i p)
      = Some (Continue s') \<Longrightarrow>
    px_step L cf p (p\<lparr>px_fw := sd_fw s', px_taken := px_taken p @ [batch]\<rparr>)"
| load: "sender_body L (cf_reconstruct cf) (cf_trace cf) (RefreshTick (rf_dests (px_refresh p))) (sender_view i p)
      = Some (Continue s') \<Longrightarrow>
    px_step L cf p (p\<lparr>px_local := (px_local p)(i := sd_dests s')\<rparr>)"
| refresh: "refresh_body (cf_url cf) (cf_port cf) (cf_static cf) e (px_refresh p) = Some (Continue r') \<Longrightarrow>
    px_step L cf p (p\<lparr>px_refresh := r'\<rparr>)"
| accessory: "accessory_body e (accessory_view p) = Some (Continue a') \<Longrightarrow>
    px_step L cf p (p\<lparr>px_points := ac_points a',
      px_fw := (px_fw p)\<lparr>fw_deduper := ac_deduper a', fw_poisoned := ac_poisoned a', fw_metrics := ac_metrics a'\<rparr>\<rparr>)"
| reconstruct: "px_queue p = batch # rest \<Longrightarrow>
    reconstructor_body L (PktBatch batch) (recon_view p) = Some (Continue r') \<Longrightarrow>
    px_step L cf p (p\<lparr>px_recon := r', px_fed := px_fed p @ [batch],
      px_fw := (px_fw p)\<lparr>fw_reconstruct := (fw_reconstruct (px_fw p))\<lparr>ch_items := rest\<rparr>,
        fw_metrics := rc_metrics (recon r')\<rparr>\<rparr>)"

text \<open>The state right after start-up; the channel to the reconstructor holds 1024 batches.\<close>

definition px_init :: "px_config \<Rightarrow> 'd \<Rightarrow> 'd proxy" where
  "px_init cf d =
     (let dests = map fst (cf_static cf) in
      \<lparr>px_fw = \<lparr>fw_deduper = d, fw_poisoned = False, fw_metrics = ShredMetrics_new (cf_reconstruct cf),
          fw_prom = [], fw_reconstruct = \<lparr>ch_capacity = 1024, ch_connected = True, ch_items = []\<rparr>,
          fw_out = [], fw_traces = []\<rparr>,
        px_local = (\<lambda>_. dests),
        px_refresh = \<lparr>rf_dests = dests, rf_count = length (cf_static cf), rf_reported = [], rf_errors = []\<rparr>,
        px_recon = initial_reconstructor (cf_reconstruct cf),
        px_points = [], px_taken = [], px_fed = []\<rparr>)"

definition px_reachable :: "ledger \<Rightarrow> px_config \<Rightarrow> 'd \<Rightarrow> 'd proxy \<Rightarrow> bool" where
  "px_reachable L cf d p \<longleftrightarrow> (px_step L cf)\<^sup>*\<^sup>* (px_init cf d) p"

section \<open>What each step changes\<close>

lemma traces_reported:
  "foldM (report_trace net) ts acc = Some acc' \<Longrightarrow>
   \<forall>t\<in>set ts. \<forall>c. tr_created_at t = Some c \<longrightarrow> system_time_of net c \<noteq> None"
  by (induction ts arbitrary: acc) (auto simp: report_trace_def split: option.splits Option.bind_splits)

lemma forward_returned:
  assumes "recv_from_channel_and_send_multiple_dest L net (Inr batch) dests sr dbg fw = Some (res, fw')"
    and "dedup_and_count net (fw_deduper fw) batch = (d', batch', n)"
  shows "\<not> fw_poisoned fw \<and> (dbg \<longrightarrow> traces_representable L net batch')"
proof -
  have "\<exists>acc acc'. \<not> fw_poisoned fw \<and> (dbg \<longrightarrow> foldM (report_trace net) (traces_of L net batch') acc = Some acc')"
    using assms by (auto simp: recv_from_channel_and_send_multiple_dest_def dedup_batch_def Let_def
        split: Option.bind_splits if_splits) blast+
  then show ?thesis unfolding traces_representable_def using traces_reported by blast
qed

lemma send_step:
  assumes "sender_body L sr dbg (RecvPackets usecs net (Inr batch)) (sender_view i p) = Some (Continue s')"
  obtains batch' where
    "fw_out (sd_fw s') = fw_out (px_fw p) @ map (packets_with_dest L batch') (px_local p i)"
    "\<not> fw_poisoned (sd_fw s')"
    "fw_reconstruct (sd_fw s') =
       (if sr then try_send batch (fw_reconstruct (px_fw p)) else fw_reconstruct (px_fw p))"
    "received (fw_metrics (sd_fw s')) = received (px_metrics p) + of_nat (length batch)"
    "\<forall>c. cumulative c (fw_metrics (sd_fw s')) = cumulative c (px_metrics p)"
proof -
  let ?fw = "(px_fw p)\<lparr>fw_prom := observe_recv_interval usecs (fw_prom (px_fw p))\<rparr>"
  obtain d' batch' n where dd: "dedup_and_count net (fw_deduper ?fw) batch = (d', batch', n)"
    by (cases "dedup_and_count net (fw_deduper ?fw) batch") auto
  obtain res fw' where r: "recv_from_channel_and_send_multiple_dest L net (Inr batch) (px_local p i) sr dbg ?fw
      = Some (res, fw')" and s': "sd_fw s' = fw'"
    using assms by (auto simp: sender_view_def split: Option.bind_splits sum.splits)
  note ok = forward_returned[OF r dd]
  obtain fw'' where
    "recv_from_channel_and_send_multiple_dest L net (Inr batch) (px_local p i) sr dbg ?fw = Some (Inr (), fw'')"
    and acc: "sent_account L net batch' n (px_local p i) ?fw fw''"
    and f: "fw_poisoned fw'' = fw_poisoned ?fw"
    "fw_reconstruct fw'' = (if sr then try_send batch (fw_reconstruct ?fw) else fw_reconstruct ?fw)"
    "received (fw_metrics fw'') = received (fw_metrics ?fw) + of_nat (length batch)"
    "\<forall>c. cumulative c (fw_metrics fw'') = cumulative c (fw_metrics ?fw)"
    by (rule forward_batch[OF dd conjunct1[OF ok] conjunct2[OF ok]])
  then have "fw'' = fw'" using r by simp
  then show ?thesis using that[of batch'] acc f ok by (simp add: s' sent_account_def Let_def)
qed

lemma load_step:
  "sender_body L sr dbg (RefreshTick ds) (sender_view i p) = Some (Continue s') \<Longrightarrow> sd_dests s' = ds"
  by (auto simp: sender_view_def)

lemma accessory_step:
  assumes "accessory_body e (accessory_view p) = Some (Continue a')"
  shows "ac_poisoned a' = fw_poisoned (px_fw p)" "tallies (ac_metrics a') = tallies (px_metrics p)"
    "e \<noteq> MetricsTick \<longrightarrow> ac_metrics a' = px_metrics p"
  using assms report_tallies[of "px_metrics p"] reset_tallies
  by (cases e; auto simp: accessory_view_def split: if_splits prod.splits)+

text \<open>The reconstructor leaves the counters of the forwarders alone.\<close>

definition same_tallies :: "recon_state \<Rightarrow> recon_state \<Rightarrow> bool" where
  "same_tallies st st' \<longleftrightarrow> (\<forall>c. current c (rc_metrics st') = current c (rc_metrics st) \<and>
     cumulative c (rc_metrics st') = cumulative c (rc_metrics st))"

lemma deshred_fec_tallies:
  assumes inv: "recon_inv L st" and step: "deshred_fec L (slot, fec) st = Some st'"
  shows "same_tallies st st'"
proof -
  obtain fecs t where v: "slot_entry L slot st = (fecs, t)" by force
  have all: "same_tallies st x \<longleftrightarrow> (received (rc_metrics x) = received (rc_metrics st)
      \<and> success_forward (rc_metrics x) = success_forward (rc_metrics st)
      \<and> fail_forward (rc_metrics x) = fail_forward (rc_metrics st) \<and> duplicate (rc_metrics x) = duplicate (rc_metrics st)
      \<and> agg_received_cumulative (rc_metrics x) = agg_received_cumulative (rc_metrics st)
      \<and> agg_success_forward_cumulative (rc_metrics x) = agg_success_forward_cumulative (rc_metrics st)
      \<and> agg_fail_forward_cumulative (rc_metrics x) = agg_fail_forward_cumulative (rc_metrics st)
      \<and> duplicate_cumulative (rc_metrics x) = duplicate_cumulative (rc_metrics st))" for x
    unfolding same_tallies_def by (metis (full_types) current.simps cumulative.simps tally.exhaust)
  show ?thesis
  proof (cases "\<exists>s e u. is_segment t (unat fec) s e u")
    case False
    then show ?thesis using step deshred_fec_none[OF inv v] by (auto simp: same_tallies_def put_slot_def)
  next
    case True
    then obtain s e u where seg: "is_segment t (unat fec) s e u" by blast
    show ?thesis using step unfolding all deshred_fec_segment[OF inv v seg]
      by (auto simp: put_slot_def deshred_metrics_err_def count_unknown_start_def Let_def
          count_unknown_start_error_def count_entries_def
          split: sum.splits if_splits Option.bind_splits simp del: upt_Suc)
  qed
qed

interpretation deshredding_tallies: monotone_step "deshred_fec L" "deshred_inv L st0" "\<lambda>_. True"
  same_tallies for L st0
proof unfold_locales
  fix st st' and x :: "u64 \<times> u32"
  assume "deshred_inv L st0 st" "deshred_fec L x st = Some st'"
  then show "same_tallies st st'"
    using deshred_fec_tallies[of L st "fst x" "snd x" st'] by (simp add: deshred_inv_def)
qed (auto simp: same_tallies_def)

lemma tally_recovered [simp]:
  "current c (m\<lparr>recovered_count := n\<rparr>) = current c m" "cumulative c (m\<lparr>recovered_count := n\<rparr>) = cumulative c m"
  by (cases c; simp)+

lemma reconstruct_tallies:
  assumes L: "ledger_ok L" and inv: "recon_inv L st"
    and r: "reconstruct_shreds L pkts st = Some (st', n, rep)"
  shows "current c (rc_metrics st') = current c (rc_metrics st)" "cumulative c (rc_metrics st') = cumulative c (rc_metrics st)"
proof -
  obtain st1 st2 st3 k rep' where s: "stages L pkts st st1 st2 st3 k rep'" using stages_exist[OF L inv] by blast
  then have d2: "deshred_inv L st2 st2" and run: "foldM (deshred_fec L) (slot_fec_indexes_to_iterate st2) st2 = Some st3"
    and m2: "rc_metrics st2 = rc_metrics st" and res: "st' = count_recovered n (evicted L st3)"
    using r by (simp_all add: stages_def)
  have "same_tallies st st3" using deshredding_tallies.run_le[OF d2 _ run] m2 by (simp add: same_tallies_def)
  then show "current c (rc_metrics st') = current c (rc_metrics st)" "cumulative c (rc_metrics st') = cumulative c (rc_metrics st)"
    by (simp_all add: res same_tallies_def count_recovered_def)
qed

lemma recon_view_inv [simp]: "thread_inv L (recon_view p) = thread_inv L (px_recon p)"
  by (simp add: thread_inv_def recon_view_def recon_inv_def slots_seen_def)

lemma reconstruct_step:
  assumes "ledger_ok L" "thread_inv L (px_recon p)"
    "reconstructor_body L (PktBatch batch) (recon_view p) = Some (Continue r')"
  shows "thread_inv L r'" "tallies (rc_metrics (recon r')) = tallies (px_metrics p)"
    "\<forall>c. cumulative c (rc_metrics (recon r')) = cumulative c (px_metrics p)"
    "\<forall>m\<in>set (sent r') - set (sent (px_recon p)). \<exists>es. deserialize_entries L (pb_entries m) = Inr es"
proof -
  have inv: "thread_inv L (recon_view p)" using assms(2) by simp
  obtain v where "reconstructor_body L (PktBatch batch) (recon_view p) = Some v" "thread_inv L (after v)"
    using recon_thread.body_ok[OF inv] assms(1) by blast
  then show "thread_inv L r'" using assms(3) by simp
  obtain st n rep where st: "reconstruct_shreds L batch (recon (recon_view p)) = Some (st, n, rep)"
    and r': "recon r' = st\<lparr>deshredded_entries := []\<rparr>" "sent r' = sent (recon_view p) @ drain_entries st"
    using assms(3) by (auto split: Option.bind_splits)
  have ri: "recon_inv L (recon (recon_view p))" using inv by (simp add: thread_inv_def)
  have m: "rc_metrics (recon (recon_view p)) = px_metrics p" by (simp add: recon_view_def)
  show "tallies (rc_metrics (recon r')) = tallies (px_metrics p)"
    using reconstruct_tallies[OF assms(1) ri st] by (simp add: tallies_def fun_eq_iff r' m)
  show "\<forall>c. cumulative c (rc_metrics (recon r')) = cumulative c (px_metrics p)"
    using reconstruct_tallies[OF assms(1) ri st] by (simp add: r' m)
  have "\<exists>es. deserialize_entries L pl = Inr es" if "(slot, es, pl) \<in> set (deshredded_entries st)" for slot es pl
  proof -
    from delivered_account[OF assms(1) ri st] obtain tr ds where
      "deshredded_entries st = map fst ds" "\<forall>(d, run)\<in>set ds. delivers L tr d run" by blast
    then show ?thesis using that by force
  qed
  then show "\<forall>m\<in>set (sent r') - set (sent (px_recon p)). \<exists>es. deserialize_entries L (pb_entries m) = Inr es"
    by (auto simp: r' drain_entries_def recon_view_def)
qed

section \<open>Invariants\<close>

definition px_ok :: "ledger \<Rightarrow> 'd proxy \<Rightarrow> bool" where
  "px_ok L p \<longleftrightarrow> \<not> fw_poisoned (px_fw p) \<and> thread_inv L (px_recon p) \<and>
     length (px_queue p) \<le> ch_capacity (fw_reconstruct (px_fw p)) \<and>
     (\<forall>m\<in>set (sent (px_recon p)). \<exists>es. deserialize_entries L (pb_entries m) = Inr es)"

lemma px_ok_init: "px_ok L (px_init cf d)"
  using thread_inv_initial[of L "cf_reconstruct cf"]
  by (simp add: px_ok_def px_init_def Let_def) (simp add: initial_reconstructor_def)

lemma px_ok_step:
  assumes "ledger_ok L" "px_ok L p" "px_step L cf p p'"
  shows "px_ok L p'"
  using assms(3)
proof (cases rule: px_step.cases)
  case (send usecs net batch i s')
  from send_step[OF send(2)] show ?thesis
    using assms(2) by (rule, auto simp: send(1) px_ok_def try_send_def split: if_splits)
next
  case (load i s')
  then show ?thesis using assms(2) by (simp add: px_ok_def)
next
  case (refresh e r')
  then show ?thesis using assms(2) by (simp add: px_ok_def)
next
  case (accessory e a')
  then show ?thesis using assms(2) accessory_step(1)[OF accessory(2)] by (simp add: px_ok_def)
next
  case (reconstruct batch rest r')
  have "thread_inv L (px_recon p)" using assms(2) by (simp add: px_ok_def)
  from reconstruct_step(1,4)[OF assms(1) this reconstruct(3)] show ?thesis
    using assms(2) reconstruct(2) by (auto simp: reconstruct(1) px_ok_def)
qed

interpretation px_safe: step_invariant "px_step L cf" "px_init cf d" "\<lambda>p. ledger_ok L \<longrightarrow> px_ok L p" for L cf d
  by unfold_locales (blast intro: px_ok_init px_ok_step)+

lemma px_reachable_ok: "ledger_ok L \<Longrightarrow> px_reachable L cf d p \<Longrightarrow> px_ok L p"
  unfolding px_reachable_def by (rule px_safe.reachable_inv[THEN mp])

text \<open>The shared counter and its cumulative counterpart hold what was taken from the sockets.\<close>

definition px_counted :: "ledger \<Rightarrow> 'd proxy \<Rightarrow> bool" where
  "px_counted L p \<longleftrightarrow> px_ok L p \<and> tallies (px_metrics p) Received = of_nat (length (concat (px_taken p)))"

lemma px_counted_step:
  assumes "ledger_ok L" "px_counted L p" "px_step L cf p p'"
  shows "px_counted L p'"
proof -
  have ok: "px_ok L p" "thread_inv L (px_recon p)" using assms(2) by (simp_all add: px_counted_def px_ok_def)
  have "px_ok L p'" using px_ok_step[OF assms(1) ok(1) assms(3)] .
  moreover from assms(3) have "tallies (px_metrics p') Received = of_nat (length (concat (px_taken p')))"
  proof (cases rule: px_step.cases)
    case (send usecs net batch i s')
    from send_step[OF send(2)] show ?thesis
      using assms(2) by (rule, simp add: send(1) px_counted_def tallies_def)
  next
    case (accessory e a')
    then show ?thesis using assms(2) accessory_step(2)[OF accessory(2)] by (simp add: px_counted_def)
  next
    case (reconstruct batch rest r')
    then show ?thesis using assms(2) reconstruct_step(2)[OF assms(1) ok(2) reconstruct(3)]
      by (simp add: px_counted_def)
  qed (use assms(2) in \<open>simp_all add: px_counted_def\<close>)
  ultimately show ?thesis by (simp add: px_counted_def)
qed

lemma px_counted_init: "px_counted L (px_init cf d)"
  using px_ok_init by (simp add: px_counted_def px_init_def Let_def tallies_def ShredMetrics_new_def)

interpretation px_account: step_invariant "px_step L cf" "px_init cf d" "\<lambda>p. ledger_ok L \<longrightarrow> px_counted L p"
  for L cf d
  by unfold_locales (blast intro: px_counted_init px_counted_step)+

text \<open>The channel to the reconstructor keeps the order and drops only when it is full.\<close>

definition px_ordered :: "px_config \<Rightarrow> 'd proxy \<Rightarrow> bool" where
  "px_ordered cf p \<longleftrightarrow> ch_capacity (fw_reconstruct (px_fw p)) = 1024 \<and> ch_connected (fw_reconstruct (px_fw p)) \<and>
     subseq (px_fed p @ px_queue p) (px_taken p) \<and>
     (cf_reconstruct cf \<and> length (px_taken p) \<le> 1024 \<longrightarrow> px_fed p @ px_queue p = px_taken p)"

lemma px_ordered_step:
  assumes "px_ordered cf p" "px_step L cf p p'"
  shows "px_ordered cf p'"
  using assms(2)
proof (cases rule: px_step.cases)
  case (send usecs net batch i s')
  let ?q = "px_fed p @ px_queue p"
  have "subseq ?q (px_taken p)" using assms(1) by (simp add: px_ordered_def)
  then have sub: "subseq ?q (px_taken p @ [batch])" "subseq (?q @ [batch]) (px_taken p @ [batch])"
    by (auto simp del: append_assoc intro: subseq_rev_drop_many)
  have short: "length (px_queue p) < 1024" if "cf_reconstruct cf" "length (px_taken p) < 1024"
  proof -
    have "px_taken p = ?q" using assms(1) that by (simp add: px_ordered_def)
    then have "length (px_taken p) = length ?q" by (rule arg_cong)
    then show ?thesis using that(2) by simp
  qed
  have "fw_reconstruct (sd_fw s') = (if cf_reconstruct cf then try_send batch (fw_reconstruct (px_fw p))
      else fw_reconstruct (px_fw p))"
    by (rule send_step[OF send(2)])
  then show ?thesis using assms(1) sub short by (auto simp: send(1) px_ordered_def try_send_def)
next
  case (reconstruct batch rest r')
  then show ?thesis using assms(1) by (simp add: px_ordered_def)
qed (use assms(1) in \<open>simp_all add: px_ordered_def\<close>)

lemma px_ordered_init: "px_ordered cf (px_init cf d)"
  by (simp add: px_ordered_def px_init_def Let_def)

interpretation px_order: step_invariant "px_step L cf" "px_init cf d" "px_ordered cf" for L cf d
  by unfold_locales (blast intro: px_ordered_init px_ordered_step)+

lemma px_reachable_ordered: "px_reachable L cf d p \<Longrightarrow> px_ordered cf p"
  unfolding px_reachable_def by (rule px_order.reachable_inv)

text \<open>Addresses that may be sent to: the configured ones and those of a successful fetch.\<close>

definition allowed_dest :: "px_config \<Rightarrow> SocketAddr \<Rightarrow> bool" where
  "allowed_dest cf a \<longleftrightarrow> a \<in> fst ` set (cf_static cf) \<or>
     (\<exists>D ds. fetch_unioned_destinations D (cf_url cf) (cf_port cf) (cf_static cf) = Inr ds \<and> a \<in> set ds)"

definition px_addressed :: "px_config \<Rightarrow> 'd proxy \<Rightarrow> bool" where
  "px_addressed cf p \<longleftrightarrow> (\<forall>a\<in>set (rf_dests (px_refresh p)). allowed_dest cf a) \<and>
     (\<forall>i. \<forall>a\<in>set (px_local p i). allowed_dest cf a) \<and>
     (\<forall>out\<in>set (fw_out (px_fw p)). \<forall>x\<in>set out. allowed_dest cf (snd x))"

lemma px_addressed_step:
  assumes "px_addressed cf p" "px_step L cf p p'"
  shows "px_addressed cf p'"
  using assms(2)
proof (cases rule: px_step.cases)
  case (send usecs net batch i s')
  from send_step[OF send(2)] show ?thesis
    using assms(1) by (rule, auto simp: send(1) px_addressed_def packets_with_dest_eq)
next
  case (load i s')
  then show ?thesis using assms(1) load_step[OF load(2)] by (simp add: px_addressed_def)
next
  case (refresh e r')
  have "\<forall>a\<in>set (rf_dests r'). allowed_dest cf a"
    using assms(1) refresh(2) by (cases e) (auto simp: px_addressed_def allowed_dest_def split: sum.splits)
  then show ?thesis using assms(1) by (simp add: refresh(1) px_addressed_def)
qed (use assms(1) in \<open>simp_all add: px_addressed_def\<close>)

lemma px_addressed_init: "px_addressed cf (px_init cf d)"
  by (auto simp: px_addressed_def px_init_def Let_def allowed_dest_def)

interpretation px_dests: step_invariant "px_step L cf" "px_init cf d" "px_addressed cf" for L cf d
  by unfold_locales (blast intro: px_addressed_init px_addressed_step)+

section \<open>A run\<close>

definition ex_config :: px_config where
  "ex_config = \<lparr>cf_url = ''up'', cf_port = 8001, cf_static = [(SocketAddrV4 1 8001, ''a:8001'')],
     cf_reconstruct = True, cf_trace = False\<rparr>"

definition ex_batch :: "packet list" where
  "ex_batch = map ex_packet [[0,9,0,0,0,11,12],[1,9,1,0,2,13,14]]"

text \<open>The batch is forwarded and counted, and then reconstructed; no metrics tick happens.\<close>

definition ex_p0 :: "bytes list proxy" where
  "ex_p0 = px_init ex_config []"

definition ex_send :: "bytes list sender verdict option" where
  "ex_send = sender_body ex_ledger True False (RecvPackets 0 ex_net (Inr ex_batch)) (sender_view 0 ex_p0)"

definition ex_p1 :: "bytes list proxy" where
  "ex_p1 = ex_p0\<lparr>px_fw := sd_fw (after (the ex_send)), px_taken := px_taken ex_p0 @ [ex_batch]\<rparr>"

definition ex_rebuild :: "reconstructor verdict option" where
  "ex_rebuild = reconstructor_body ex_ledger (PktBatch ex_batch) (recon_view ex_p1)"

definition ex_p2 :: "bytes list proxy" where
  "ex_p2 = ex_p1\<lparr>px_recon := after (the ex_rebuild), px_fed := px_fed ex_p1 @ [ex_batch],
      px_fw := (px_fw ex_p1)\<lparr>fw_reconstruct := (fw_reconstruct (px_fw ex_p1))\<lparr>ch_items := []\<rparr>,
        fw_metrics := rc_metrics (recon (after (the ex_rebuild)))\<rparr>\<rparr>"

fun continues :: "'s verdict option \<Rightarrow> bool" where
  "continues (Some (Continue s)) = True"
| "continues _ = False"

lemma continuesD: "continues v \<Longrightarrow> v = Some (Continue (after (the v)))"
  by (cases v rule: continues.cases) auto

lemma ex_send_continues: "continues ex_send"
  by code_simp

lemma ex_p1_state: "px_queue ex_p1 = [ex_batch] \<and> fw_out (px_fw ex_p1) =
     [[([0,9,0,0,0,11,12], SocketAddrV4 1 8001), ([1,9,1,0,2,13,14], SocketAddrV4 1 8001)]]"
  by code_simp

lemma ex_rebuild_continues: "continues ex_rebuild"
  by code_simp

lemma ex_p2_state:
  "px_taken ex_p2 = [ex_batch] \<and> px_fed ex_p2 = [ex_batch] \<and> px_queue ex_p2 = [] \<and>
   sent (px_recon ex_p2) = [\<lparr>pb_slot = 9, pb_entries = [11,12,13,14]\<rparr>] \<and>
   agg_received_cumulative (px_metrics ex_p2) = 0"
  by code_simp

lemma ex_system_run: "px_reachable ex_ledger ex_config [] ex_p1" "px_reachable ex_ledger ex_config [] ex_p2"
proof -
  have cf: "cf_reconstruct ex_config" "\<not> cf_trace ex_config" by (simp_all add: ex_config_def)
  have "px_step ex_ledger ex_config ex_p0 ex_p1"
    unfolding ex_p1_def using continuesD[OF ex_send_continues] cf
    by (intro px_step.send[where usecs = 0 and net = ex_net and i = 0]) (simp add: ex_send_def)
  then show p1: "px_reachable ex_ledger ex_config [] ex_p1"
    unfolding px_reachable_def ex_p0_def by (rule r_into_rtranclp)
  have "px_step ex_ledger ex_config ex_p1 ex_p2"
    unfolding ex_p2_def using continuesD[OF ex_rebuild_continues] ex_p1_state
    by (intro px_step.reconstruct) (auto simp: ex_rebuild_def)
  then show "px_reachable ex_ledger ex_config [] ex_p2"
    using p1 unfolding px_reachable_def by (rule rtranclp.rtrancl_into_rtrancl[rotated])
qed

text \<open>
  The run shows two effects of counters that only a metrics tick moves: the totals of the exit message
  leave out everything since the last tick, and a heartbeat whose own tick comes first takes the
  connection for stale although packets have arrived.
\<close>

lemma exit_totals_incomplete:
  "px_reachable ex_ledger ex_config [] ex_p2 \<and> length (concat (px_taken ex_p2)) = 2 \<and>
   exit_totals (px_metrics ex_p2) = (0, 0, 0, 0)"
proof -
  have "exit_totals (px_metrics ex_p2) = (0, 0, 0, 0)" by code_simp
  then show ?thesis using ex_system_run(2) ex_p2_state by (simp add: ex_batch_def)
qed

lemma restart_despite_traffic:
  assumes "hb_connected s" "last_cumulative_received_shred_count s = 0"
    "hb_body msg \<lparr>ob_connect = c, ob_select = HbMetrics (agg_received_cumulative (px_metrics ex_p2))\<rparr> s = Some v"
  shows "\<not> hb_connected (after v)"
  using assms ex_p2_state by (auto simp: hb_body_def Let_def close_connection_def split: if_splits)

section \<open>Properties\<close>

text \<open>C9: No thread of a running proxy panics, in whatever order their iterations interleave: in every
state that can be reached, every event of the refresh and of the accessory thread, every batch that
waits for the reconstructor and every batch a send thread receives whose trace timestamps are
representable is handled to the end; the deduper lock is never poisoned, the channel to the
reconstructor stays within its bound, and what has been broadcast deserializes into entries.\<close>

theorem running_proxy_safe:
  assumes L: "ledger_ok L" and p: "px_reachable L cf d p"
  shows "refresh_body (cf_url cf) (cf_port cf) (cf_static cf) re (px_refresh p) \<noteq> None \<and>
     accessory_body ae (accessory_view p) \<noteq> None \<and>
     reconstructor_body L (PktBatch batch) (recon_view p) \<noteq> None \<and>
     (sender_event_ok L (cf_trace cf) se \<longrightarrow>
        sender_body L (cf_reconstruct cf) (cf_trace cf) se (sender_view i p) \<noteq> None) \<and>
     \<not> fw_poisoned (px_fw p) \<and> length (px_queue p) \<le> 1024 \<and>
     (\<forall>m\<in>set (sent (px_recon p)). \<exists>es. deserialize_entries L (pb_entries m) = Inr es)"
proof -
  have ok: "px_ok L p" using px_reachable_ok[OF L p] .
  have cap: "ch_capacity (fw_reconstruct (px_fw p)) = 1024"
    using px_reachable_ordered[OF p] by (simp add: px_ordered_def)
  have "sender_inv (sender_view i p)" using ok by (simp add: sender_inv_def sender_view_def px_ok_def)
  then have "sender_event_ok L (cf_trace cf) se \<longrightarrow>
      sender_body L (cf_reconstruct cf) (cf_trace cf) se (sender_view i p) \<noteq> None"
    using send_thread.body_ok by blast
  moreover have "thread_inv L (recon_view p)" using ok by (simp add: px_ok_def)
  then have "reconstructor_body L (PktBatch batch) (recon_view p) \<noteq> None"
    using recon_thread.body_ok[of L] L by blast
  moreover have "accessory_body ae (accessory_view p) \<noteq> None"
    using ok accessory_loop.body_ok[of "accessory_view p"] by (simp add: accessory_view_def px_ok_def) blast
  moreover have "refresh_body (cf_url cf) (cf_port cf) (cf_static cf) re (px_refresh p) \<noteq> None"
    by (cases re) auto
  ultimately show ?thesis using ok cap by (simp add: px_ok_def)
qed

theorem running_proxy_safe_witness:
  "accessory_body MetricsTick (accessory_view ex_p2) \<noteq> None \<and>
   sender_body ex_ledger True False (RefreshTick []) (sender_view 0 ex_p2) \<noteq> None \<and>
   (\<exists>m. sent (px_recon ex_p2) = [m] \<and> (\<exists>es. deserialize_entries ex_ledger (pb_entries m) = Inr es))"
  using running_proxy_safe[OF ex_ledger_ok ex_system_run(2), where ae = MetricsTick and se = "RefreshTick []" and i = 0]
    ex_p2_state by (simp add: ex_config_def)


text \<open>C12: However the threads interleave, every received packet is counted exactly once: the received
counter plus its cumulative counterpart is, modulo 2^64, the number of packets in the batches the
send threads have taken.\<close>

theorem packets_counted_once:
  assumes L: "ledger_ok L" and p: "px_reachable L cf d p"
  shows "received (px_metrics p) + agg_received_cumulative (px_metrics p) = of_nat (length (concat (px_taken p)))"
  using px_account.reachable_inv[OF p[unfolded px_reachable_def]] L by (simp add: px_counted_def tallies_def)

theorem packets_counted_once_witness:
  "px_reachable ex_ledger ex_config [] ex_p2 \<and> received (px_metrics ex_p2) = 2"
  using packets_counted_once[OF ex_ledger_ok ex_system_run(2)] ex_p2_state ex_system_run(2)
  by (simp add: ex_batch_def)







end
