(* ===== verification/Shutdown.thy ===== *)
theory Shutdown
  imports Proxy_System
begin

text \<open>
  How the proxy ends: every thread's loop returns once it observes the exit flag or its shutdown message
  (\<^verbatim>\<open>forwarder.rs\<close>, \<^verbatim>\<open>server.rs\<close>), and after a signal all threads that \<^verbatim>\<open>main.rs\<close> has started stop,
  in whatever order, so that the joins at the end of \<^verbatim>\<open>main\<close> return.
\<close>

section \<open>Loops on endless input\<close>

text \<open>
  \<open>iterations body polls n s\<close>: the loop after at most \<open>n\<close> iterations on an endless sequence of
  observations. \<open>Break\<close> means that it has returned, \<open>None\<close> that it has panicked.
\<close>

fun iterations :: "('e \<Rightarrow> 's \<Rightarrow> 's verdict option) \<Rightarrow> (nat \<Rightarrow> 'e poll) \<Rightarrow> nat \<Rightarrow> 's \<Rightarrow> 's verdict option" where
  "iterations body polls 0 s = Some (Continue s)"
| "iterations body polls (Suc n) s = do {
     r \<leftarrow> iterations body polls n s;
     (case r of Break s' \<Rightarrow> Some (Break s')
      | Continue s' \<Rightarrow> (case polls n of ExitSet \<Rightarrow> Some (Break s') | Event e \<Rightarrow> body e s')) }"

definition returns_by :: "('e \<Rightarrow> 's \<Rightarrow> 's verdict option) \<Rightarrow> (nat \<Rightarrow> 'e poll) \<Rightarrow> nat \<Rightarrow> 's \<Rightarrow> bool" where
  "returns_by body polls n s \<longleftrightarrow> (\<exists>s'. iterations body polls n s = Some (Break s'))"

context thread_body
begin

lemma iterations_ok:
  "inv s \<Longrightarrow> \<forall>n e. polls n = Event e \<longrightarrow> ok e \<Longrightarrow> \<exists>r. iterations body polls n s = Some r \<and> inv (after r)"
proof (induction n)
  case 0
  then show ?case by simp
next
  case (Suc n)
  then obtain r where r: "iterations body polls n s = Some r" "inv (after r)" by blast
  show ?case
  proof (cases r)
    case (Continue s')
    then show ?thesis using r Suc.prems(2) body_ok[of s'] by (cases "polls n") auto
  next
    case (Break s')
    then show ?thesis using r by simp
  qed
qed

lemma returns:
  assumes "inv s" "\<forall>n e. polls n = Event e \<longrightarrow> ok e"
    and "polls n = ExitSet \<or> (\<exists>e. polls n = Event e \<and> (\<forall>s. \<exists>s'. body e s = Some (Break s')))"
  shows "returns_by body polls (Suc n) s"
proof -
  obtain r where "iterations body polls n s = Some r" using iterations_ok[OF assms(1,2)] by blast
  then show ?thesis using assms(3) by (cases r) (auto simp: returns_by_def)
qed

end



section \<open>All threads\<close>

text \<open>
  Which threads end on a shutdown message, which read the exit flag, and which of these look at it again
  within a bounded time even when nothing happens (timeouts and sleeps of at most a second; the listen
  threads are third-party, and documented to poll the flag between reads with a timeout).
\<close>

fun takes_message :: "thread_name \<Rightarrow> bool" where
  "takes_message Reconstructor_Thread = False"
| "takes_message (Listen i) = False"
| "takes_message (Send i) = True"
| "takes_message Heartbeat_Loop = True"
| "takes_message Report_Stats = False"
| "takes_message Accessory = True"
| "takes_message Dest_Refresh = True"
| "takes_message Entry_Server = True"
| "takes_message Prometheus_Server = True"

definition reads_exit :: "thread_name \<Rightarrow> bool" where
  "reads_exit t \<longleftrightarrow> t \<noteq> Prometheus_Server"

fun wait_is_bounded :: "thread_name \<Rightarrow> bool" where
  "wait_is_bounded Reconstructor_Thread = True"
| "wait_is_bounded (Listen i) = True"
| "wait_is_bounded Report_Stats = True"
| "wait_is_bounded Entry_Server = True"
| "wait_is_bounded _ = False"

record closing =
  cl_shutdown :: shutdown
  cl_running :: "thread_name list"

text \<open>
  One thread stops. The first two rules need nothing from outside; in the third, a packet, a tick or a
  request wakes the thread, which handles it and then reads the flag.
\<close>

inductive closing_step :: "bool \<Rightarrow> closing \<Rightarrow> closing \<Rightarrow> bool" where
  message: "t \<in> set (cl_running c) \<Longrightarrow> takes_message t \<Longrightarrow> recv_shutdown (cl_shutdown c) = (True, s') \<Longrightarrow>
    closing_step True c \<lparr>cl_shutdown = s', cl_running = remove1 t (cl_running c)\<rparr>"
| timeout: "t \<in> set (cl_running c) \<Longrightarrow> wait_is_bounded t \<Longrightarrow> reads_exit t \<Longrightarrow> sd_exit (cl_shutdown c) \<Longrightarrow>
    closing_step True c (c\<lparr>cl_running := remove1 t (cl_running c)\<rparr>)"
| woken: "t \<in> set (cl_running c) \<Longrightarrow> reads_exit t \<Longrightarrow> sd_exit (cl_shutdown c) \<Longrightarrow>
    closing_step False c (c\<lparr>cl_running := remove1 t (cl_running c)\<rparr>)"

inductive_cases closing_stepE: "closing_step free c c'"

definition closes :: "closing \<Rightarrow> closing \<Rightarrow> bool" where
  "closes c c' \<longleftrightarrow> (\<exists>free. closing_step free c c')"

text \<open>The flag is set, the channel has run as far as it can, and there is a message for every thread that takes one.\<close>

definition closing_inv :: "closing \<Rightarrow> bool" where
  "closing_inv c \<longleftrightarrow> sd_exit (cl_shutdown c) \<and> settled (cl_shutdown c) \<and>
     length (filter takes_message (cl_running c)) \<le> sd_queued (cl_shutdown c) + sd_pending (cl_shutdown c)"

lemma length_filter_remove1:
  "x \<in> set xs \<Longrightarrow> length (filter P (remove1 x xs)) = (if P x then length (filter P xs) - 1 else length (filter P xs))"
proof (induction xs)
  case (Cons a xs)
  have "P x \<Longrightarrow> x \<in> set xs \<Longrightarrow> 0 < length (filter P xs)" by (auto simp: length_greater_0_conv filter_empty_conv)
  then show ?case using Cons by auto
qed simp

lemma pump_exit [simp]: "sd_exit (pump s) = sd_exit s"
  by (simp add: pump_def Let_def)

lemma message_left:
  assumes "closing_inv c" "t \<in> set (cl_running c)" "takes_message t"
  obtains s' where "recv_shutdown (cl_shutdown c) = (True, s')" "settled s'" "sd_exit s'"
    "sd_queued s' + sd_pending s' = sd_queued (cl_shutdown c) + sd_pending (cl_shutdown c) - 1"
proof -
  have "filter takes_message (cl_running c) \<noteq> []" using assms(2,3) by (auto simp: filter_empty_conv)
  then have "1 \<le> length (filter takes_message (cl_running c))" by (simp add: Suc_le_eq)
  also have "\<dots> \<le> sd_queued (cl_shutdown c) + sd_pending (cl_shutdown c)" using assms(1) by (simp add: closing_inv_def)
  finally have pos: "0 < sd_queued (cl_shutdown c) + sd_pending (cl_shutdown c)" by linarith
  have st: "settled (cl_shutdown c)" "sd_exit (cl_shutdown c)" using assms(1) by (simp_all add: closing_inv_def)
  obtain s' where s': "recv_shutdown (cl_shutdown c) = (True, s')" "settled s'"
    "sd_queued s' + sd_pending s' = sd_queued (cl_shutdown c) + sd_pending (cl_shutdown c) - 1"
    by (rule recv_shutdown_ok[OF st(1) pos])
  have "sd_exit s'" using s'(1) st(2) by (auto simp: recv_shutdown_def split: if_splits)
  then show ?thesis using that[OF s'(1,2) _ s'(3)] by blast
qed

lemma closing_step_inv:
  assumes "closing_step free c c'" "closing_inv c"
  shows "closing_inv c' \<and> Suc (length (cl_running c')) = length (cl_running c)"
proof -
  have len: "t \<in> set ts \<Longrightarrow> Suc (length (remove1 t ts)) = length ts" for t and ts :: "thread_name list"
    by (simp add: length_remove1) (metis Suc_pred length_pos_if_in_set)
  have flt: "length (filter takes_message (remove1 t ts)) \<le> length (filter takes_message ts)"
    if "t \<in> set ts" for t ts using length_filter_remove1[OF that, of takes_message] by simp
  from assms(1) show ?thesis
  proof (cases rule: closing_step.cases)
    case (message t s')
    obtain s1 where "recv_shutdown (cl_shutdown c) = (True, s1)" "settled s1" "sd_exit s1"
      "sd_queued s1 + sd_pending s1 = sd_queued (cl_shutdown c) + sd_pending (cl_shutdown c) - 1"
      by (rule message_left[OF assms(2) message(3,4)])
    then show ?thesis using message assms(2) len[OF message(3)] length_filter_remove1[OF message(3), of takes_message]
      by (auto simp: closing_inv_def)
  next
    case (timeout t)
    then show ?thesis using assms(2) len[of t] flt[of t "cl_running c"] by (auto simp: closing_inv_def)
  next
    case (woken t)
    then show ?thesis using assms(2) len[of t] flt[of t "cl_running c"] by (auto simp: closing_inv_def)
  qed
qed

lemma closing_run_inv:
  "(closes ^^ n) c c' \<Longrightarrow> closing_inv c \<Longrightarrow> closing_inv c' \<and> n + length (cl_running c') = length (cl_running c)"
proof (induction n arbitrary: c')
  case (Suc n)
  then obtain c1 where n: "(closes ^^ n) c c1" "closes c1 c'" by auto
  from n(2) obtain free where c1: "(closes ^^ n) c c1" "closing_step free c1 c'" using n(1) unfolding closes_def[of c1] by blast
  have "closing_inv c1 \<and> n + length (cl_running c1) = length (cl_running c)" by (rule Suc.IH[OF c1(1) Suc.prems(2)])
  then show ?case using closing_step_inv[OF c1(2)] by simp
qed simp

lemma closing_progress:
  assumes "closing_inv c" "cl_running c \<noteq> []"
  shows "\<exists>c'. closing_step True c c'"
proof -
  obtain t where t: "t \<in> set (cl_running c)" using assms(2) by (cases "cl_running c") auto
  show ?thesis
  proof (cases "takes_message t")
    case True
    obtain s1 where "recv_shutdown (cl_shutdown c) = (True, s1)" by (rule message_left[OF assms(1) t True])
    then show ?thesis using closing_step.message[OF t True] by blast
  next
    case False
    then have "wait_is_bounded t" "reads_exit t" by (cases t; simp add: reads_exit_def)+
    then show ?thesis using closing_step.timeout[OF t] assms(1) by (auto simp: closing_inv_def)
  qed
qed

lemma joined_spawned:
  assumes "main env cmd = Some (Running st)"
  shows "set (st_joined st) \<subseteq> set (st_spawned st)"
proof -
  obtain args where a: "start_proxy env (case cmd of Shredstream x \<Rightarrow> Some x | _ \<Rightarrow> None) args = Some st"
    by (rule main_Running[OF assms])
  show ?thesis by (rule start_proxy_threads[OF a]) (auto dest: forwarder_threads_split(1))
qed


text \<open>The seven threads that take a message in the example configuration.\<close>

lemma ex_running_threads:
  "\<exists>st. main ex_env (Shredstream ex_args) = Some (Running st) \<and> length (filter takes_message (st_spawned st)) \<le> 256 \<and>
     st_spawned st \<noteq> []"
proof -
  have "map_option (\<lambda>r. case r of Running s \<Rightarrow> length (filter takes_message (st_spawned s)) \<le> 256 \<and> st_spawned s \<noteq> [] | _ \<Rightarrow> False)
      (main ex_env (Shredstream ex_args)) = Some True"
    by code_simp
  then obtain r where "main ex_env (Shredstream ex_args) = Some r"
    "case r of Running s \<Rightarrow> length (filter takes_message (st_spawned s)) \<le> 256 \<and> st_spawned s \<noteq> [] | _ \<Rightarrow> False"
    by auto
  then show ?thesis by (cases r) auto
qed


end
