(* ===== verification/Recovery_Order.thy ===== *)
theory Recovery_Order
  imports Deshred_Props
begin

text \<open>
  The tracker as a data type that its operations keep well-formed, and the order in which the standard
  library iterates over a hash set of shreds (\<^verbatim>\<open>proxy/src/deshred.rs\<close>): it does not matter for the
  recovery of a FEC set that announces one size.
\<close>

section \<open>The tracker type\<close>

text \<open>C22: Every operation on a tracker keeps it well-formed and stays within its vectors, so the type needs no
further check: a new tracker is well-formed; recording a sanitized shred returns a well-formed
tracker; the segment search returns, and a segment it returns lies within the slot, contains the
index and has all its shreds; and marking that segment as delivered returns a well-formed tracker.\<close>

theorem tracker_well_typed:
  assumes L: "ledger_ok L" and t: "wf_tracker L t" and x: "shred_ok L x"
  shows "wf_tracker L (default_tracker L) \<and>
     (\<exists>t' r. update_state_tracker L x t = Some (t', r) \<and> wf_tracker L t') \<and>
     (\<exists>r. get_indexes t i = Some r \<and> (\<forall>s e u. r = Some (s, e, u) \<longrightarrow>
        s \<le> i \<and> i \<le> e \<and> e < MAX_DATA_SHREDS_PER_SLOT L \<and> (\<forall>j\<in>{s..e}. data_shreds t ! j \<noteq> None) \<and>
        (\<exists>t'. foldM mark_deshredded (map (\<lambda>j. data_shreds t ! j) [s..<Suc e]) t = Some t' \<and> wf_tracker L t')))"
proof (intro conjI)
  show "wf_tracker L (default_tracker L)" by simp
  show "\<exists>t' r. update_state_tracker L x t = Some (t', r) \<and> wf_tracker L t'"
    using update_state_tracker_eq[OF L t x] wf_store_shred[OF t x] t by auto
  obtain r where r: "get_indexes t i = Some r" using get_indexes_total[OF wf_same_lengths[OF t]] by blast
  have "s \<le> i \<and> i \<le> e \<and> e < MAX_DATA_SHREDS_PER_SLOT L \<and> (\<forall>j\<in>{s..e}. data_shreds t ! j \<noteq> None) \<and>
      (\<exists>t'. foldM mark_deshredded (map (\<lambda>j. data_shreds t ! j) [s..<Suc e]) t = Some t' \<and> wf_tracker L t')"
    if "r = Some (s, e, u)" for s e u
  proof -
    have seg: "is_segment t i s e u" using r that get_indexes_iff[OF wf_same_lengths[OF t]] by simp
    have stored: "\<forall>j\<in>{s..e}. data_shreds t ! j \<noteq> None" using segment_shreds[OF t seg] by fastforce
    obtain t' where t': "foldM mark_deshredded (map (\<lambda>j. data_shreds t ! j) [s..<Suc e]) t = Some t'" "marked t s e t'"
      using mark_segment[OF t seg] by blast
    have "wf_tracker L t'" using t t'(2) stored by (auto simp: wf_tracker_def marked_def)
    then show ?thesis using seg stored t'(1) wf_tracker_lengths(1)[OF t] by (simp add: is_segment_def)
  qed
  then show "\<exists>r. get_indexes t i = Some r \<and> (\<forall>s e u. r = Some (s, e, u) \<longrightarrow>
        s \<le> i \<and> i \<le> e \<and> e < MAX_DATA_SHREDS_PER_SLOT L \<and> (\<forall>j\<in>{s..e}. data_shreds t ! j \<noteq> None) \<and>
        (\<exists>t'. foldM mark_deshredded (map (\<lambda>j. data_shreds t ! j) [s..<Suc e]) t = Some t' \<and> wf_tracker L t'))"
    using r by blast
qed

text \<open>An empty slot that gets the last shred of an FEC set, and the search there.\<close>

theorem tracker_well_typed_witness:
  "\<exists>t' r. update_state_tracker ex_ledger (ex_data [0,9,0,0,1,11,12]) (default_tracker ex_ledger) = Some (t', r) \<and>
     wf_tracker ex_ledger t'"
proof -
  have "shred_ok ex_ledger (ex_data [0,9,0,0,1,11,12])"
    by (simp add: ex_data_def ex_header_def ex_ledger_def)
  from tracker_well_typed[OF ex_ledger_ok wf_default_tracker this] show ?thesis by blast
qed

section \<open>The iteration order of a hash set\<close>

text \<open>The key by which the shreds of a set are sorted for recovery.\<close>

abbreviation recovery_key :: "ledger \<Rightarrow> shred \<Rightarrow> u8 \<times> u32" where
  "recovery_key L s \<equiv> (255 - shred_type_u8 L (shred_type L s), shred_index s)"

text \<open>
  A set of shreds that announces one size: all its coding shreds agree, or there is none and all data
  shreds that end a batch agree; and no two shreds have the same type and index.
\<close>

definition unambiguous :: "ledger \<Rightarrow> shred list \<Rightarrow> bool" where
  "unambiguous L xs \<longleftrightarrow> inj_on (recovery_key L) (set xs) \<and>
     ((\<exists>k m. k \<noteq> 0 \<and> codes_announce k m xs) \<and> (\<exists>s\<in>set xs. \<not> is_data s) \<or>
      (\<forall>s\<in>set xs. is_data s) \<and> (\<exists>k. k \<noteq> 0 \<and> completes_announce k xs))"

abbreviation with_order :: "(shred list \<Rightarrow> shred list) \<Rightarrow> ledger \<Rightarrow> ledger" where
  "with_order order L \<equiv> L\<lparr>set_order := order\<rparr>"

lemma with_order_ok: "ledger_ok L \<Longrightarrow> \<forall>xs. mset (order xs) = mset xs \<Longrightarrow> ledger_ok (with_order order L)"
proof -
  have s: "shred_ok (with_order order L) = shred_ok L" by (rule ext, rename_tac s, case_tac s) auto
  show "ledger_ok L \<Longrightarrow> \<forall>xs. mset (order xs) = mset xs \<Longrightarrow> ledger_ok (with_order order L)"
    by (simp add: ledger_ok_def decode_ok_def type_ok_def recover_ok_def order_ok_def s)
qed

lemma info_with_order:
  assumes "ledger_ok L" "ledger_ok L'" "unambiguous L xs"
  shows "get_data_shred_info L' xs = get_data_shred_info L xs"
  using assms(3) unfolding unambiguous_def
proof (elim conjE disjE exE)
  fix k m assume k: "k \<noteq> 0" "codes_announce k m xs" "\<exists>s\<in>set xs. \<not> is_data s"
  show ?thesis unfolding get_data_shred_info_coded[OF assms(1) k(2,1,3)] get_data_shred_info_coded[OF assms(2) k(2,1,3)] ..
next
  fix k assume k: "k \<noteq> 0" "completes_announce k xs" "\<forall>s\<in>set xs. is_data s"
  show ?thesis unfolding get_data_shred_info_uncoded[OF assms(1) k(3,2,1)] get_data_shred_info_uncoded[OF assms(2) k(3,2,1)] ..
qed

lemma merkle_with_order:
  assumes L: "ledger_ok L" and o: "\<forall>xs. mset (order xs) = mset xs" and u: "unambiguous L xs"
  shows "merkle_shreds (with_order order L) xs = merkle_shreds L xs"
proof -
  have "sort_key (recovery_key L) (order xs) = sort_key (recovery_key L) (set_order L xs)"
  proof (rule sort_key_inj_key_eq)
    show "mset (order xs) = mset (sort_key (recovery_key L) (set_order L xs))" using o mset_set_order[OF L] by simp
    have "set (order xs) = set xs" using o by (metis mset_eq_setD)
    then show "inj_on (recovery_key L) (set (order xs))" using u by (simp add: unambiguous_def)
  qed simp
  then show ?thesis by (simp add: merkle_shreds_def)
qed

lemma update_with_order: "update_state_tracker (with_order order L) = update_state_tracker L"
  by (rule ext)+ (simp add: update_state_tracker_def Let_def)

lemma apply_with_order: "apply_recovered (with_order order L) = apply_recovered L"
proof (intro ext)
  fix r p show "apply_recovered (with_order order L) r p = apply_recovered L r p"
    by (cases r; cases p) (simp_all add: update_with_order)
qed


text \<open>Two shreds of one set, iterated forwards and backwards.\<close>

definition ex_held :: recon_state where
  "ex_held = (initial_recon True)\<lparr>all_shreds := [(9, ([(0, [ex_data [0,9,0,0,0,11,12], ex_code [1,9,1,0,2,13,14]])],
     default_tracker ex_ledger))]\<rparr>"


text \<open>With coding shreds that disagree about the size of the set, the order decides whether it is recovered.\<close>

lemma ambiguous_order_matters:
  "skip_recovery ex_ledger [ex_code [1,9,1,0,1,13,14], ex_code [1,9,2,0,3,13,14]] \<noteq>
   skip_recovery (with_order id ex_ledger) [ex_code [1,9,1,0,1,13,14], ex_code [1,9,2,0,3,13,14]]"
  by code_simp

end
