(* ===== verification/Slot_Stream.thy ===== *)
theory Slot_Stream
  imports Recovered_Fec_Set
begin

text \<open>
  The reconstructor thread (\<^verbatim>\<open>proxy/src/forwarder.rs\<close>, \<^verbatim>\<open>proxy/src/deshred.rs\<close>) over a whole stream of
  batches, as one slot sees it: however the shreds of the slot are cut into batches, ordered, repeated
  and mixed with other traffic, the messages of the slot are those of an abstract specification that
  only counts what arrived.
\<close>

section \<open>The specification\<close>

text \<open>
  A set has enough shreds when as many different shreds of it arrived as it has data shreds. An entry batch is
  announced with the packet batch after which all its sets have enough; several are announced in order.
\<close>

definition enough :: "fec_layout \<Rightarrow> shred set \<Rightarrow> u32 \<Rightarrow> bool" where
  "enough Y X f \<longleftrightarrow> Suc (fl_end Y f) - unat f \<le> card (of_fec X f)"

definition all_enough :: "fec_layout \<Rightarrow> shred set \<Rightarrow> u32 \<Rightarrow> bool" where
  "all_enough Y X b \<longleftrightarrow> (\<forall>f\<in>batch_sets Y b. enough Y X f)"

fun announced :: "fec_layout \<Rightarrow> shred set \<Rightarrow> shred set list \<Rightarrow> u32 list" where
  "announced Y X [] = []"
| "announced Y X (B # Bs) =
     sorted_list_of_set {b \<in> entry_batches Y. all_enough Y (X \<union> B) b \<and> \<not> all_enough Y X b} @ announced Y (X \<union> B) Bs"

lemma enough_mono: "enough Y X f \<Longrightarrow> finite X' \<Longrightarrow> X \<subseteq> X' \<Longrightarrow> enough Y X' f"
  unfolding enough_def using card_mono[of "of_fec X' f" "of_fec X f"] by (fastforce simp: of_fec_def)

lemma all_enough_mono: "all_enough Y X b \<Longrightarrow> finite X' \<Longrightarrow> X \<subseteq> X' \<Longrightarrow> all_enough Y X' b"
  using enough_mono by (fastforce simp: all_enough_def)

text \<open>Every entry batch that got enough shreds is announced, once.\<close>

lemma announced_sets:
  assumes "finite (fl_sets Y)" "finite X" "\<forall>B\<in>set Bs. finite B"
  shows "set (announced Y X Bs) = {b \<in> entry_batches Y. all_enough Y (X \<union> \<Union> (set Bs)) b \<and> \<not> all_enough Y X b}"
    "distinct (announced Y X Bs)"
proof -
  have "set (announced Y X Bs) = {b \<in> entry_batches Y. all_enough Y (X \<union> \<Union> (set Bs)) b \<and> \<not> all_enough Y X b} \<and>
    distinct (announced Y X Bs)"
    using assms(2,3)
  proof (induction Bs arbitrary: X)
    case Nil
    then show ?case by auto
  next
    case (Cons B Bs)
    have fin: "finite (X \<union> B)" "finite (X \<union> \<Union> (set (B # Bs)))" using Cons.prems by auto
    have U: "X \<union> B \<union> \<Union> (set Bs) = X \<union> \<Union> (set (B # Bs))" by auto
    have IH: "set (announced Y (X \<union> B) Bs) = {b \<in> entry_batches Y. all_enough Y (X \<union> \<Union> (set (B # Bs))) b \<and> \<not> all_enough Y (X \<union> B) b}"
      "distinct (announced Y (X \<union> B) Bs)" using Cons.IH[OF fin(1)] Cons.prems(2) unfolding U by auto
    have "all_enough Y (X \<union> \<Union> (set (B # Bs))) b" if "all_enough Y (X \<union> B) b" for b
      using all_enough_mono[OF that fin(2)] by auto
    moreover have "all_enough Y (X \<union> B) b" if "all_enough Y X b" for b using all_enough_mono[OF that fin(1)] by auto
    moreover have "finite (entry_batches Y)" using assms(1) by (simp add: entry_batches_def)
    ultimately show ?case using IH by auto
  qed
  then show "set (announced Y X Bs) = {b \<in> entry_batches Y. all_enough Y (X \<union> \<Union> (set Bs)) b \<and> \<not> all_enough Y X b}"
    "distinct (announced Y X Bs)" by blast+
qed

section \<open>The stream\<close>

text \<open>A layout that can be received batch by batch.\<close>

definition streamable :: "ledger \<Rightarrow> (nat \<Rightarrow> shred) \<Rightarrow> fec_layout \<Rightarrow> bool" where
  "streamable L sh Y \<longleftrightarrow> suffixes_fail L sh Y \<and> (\<forall>f\<in>fl_sets Y. erasure_ok L sh (fl_codes Y f) f (fl_end Y f) \<and>
     (\<forall>g\<in>fl_sets Y - {f}. \<forall>x\<in>fl_codes Y f. unat (shred_index x) \<notin> indices Y g))"

lemma streamable_apart: "streamable L sh Y \<Longrightarrow> D \<subseteq> fl_sets Y \<Longrightarrow> codes_apart Y D"
  by (fastforce simp: streamable_def codes_apart_def covered_def)

lemma ready_enough:
  assumes ok: "layout_ok L sh slot Y" and Y: "streamable L sh Y" and f: "f \<in> fl_sets Y"
    and X: "X \<subseteq> layout_shreds sh Y" "finite X"
  shows "ready L sh Y X f \<longleftrightarrow> enough Y X f" "waiting Y X f \<longleftrightarrow> \<not> enough Y X f"
proof -
  show w: "waiting Y X f \<longleftrightarrow> \<not> enough Y X f" by (auto simp: waiting_def enough_def)
  show "ready L sh Y X f \<longleftrightarrow> enough Y X f"
    using full_not_waiting[OF ok f X] Y f w by (auto simp: ready_def recoverable_def enough_def streamable_def)
qed

text \<open>
  Between two calls the batches with enough shreds are delivered, and the sets with enough shreds are complete,
  either because their data arrived or because they are among the flagged ones \<open>E\<close>.
\<close>

definition stream_inv :: "ledger \<Rightarrow> (nat \<Rightarrow> shred) \<Rightarrow> u64 \<Rightarrow> fec_layout \<Rightarrow> shred set \<Rightarrow> recon_state \<Rightarrow> bool" where
  "stream_inv L sh slot Y X st \<longleftrightarrow> recon_inv L st \<and> slot_threshold (highest_slot_seen st) \<le> slot \<and>
     X \<subseteq> layout_shreds sh Y \<and> finite X \<and>
     (\<exists>E. sets_of Y {b \<in> entry_batches Y. all_enough Y X b} \<subseteq> E \<and> E \<subseteq> fl_sets Y \<and>
        (\<forall>f\<in>fl_sets Y. complete sh Y X E f \<longleftrightarrow> enough Y X f) \<and>
        stage L sh Y X (sets_of Y {b \<in> entry_batches Y. all_enough Y X b}) E (slot_entry L slot st))"

lemma slot_entry_kept:
  assumes "recon_inv L st" "slot_threshold (highest_slot_seen st) \<le> slot"
  shows "slot_entry L slot (evicted L st) = slot_entry L slot st"
  using assms evicted_lookup[OF assms(1), of slot] by (simp add: slot_entry_def or_default_def not_less[symmetric])

lemma stream_call:
  assumes L: "ledger_ok L" and ok: "layout_ok L sh slot Y" and Y: "streamable L sh Y" and dl: "decodable L sh Y pl es"
    and inv: "stream_inv L sh slot Y X st" and fit: "fits sh slot Y (shreds_of L pkts)"
    and X': "X' = X \<union> of_slot slot (shreds_of L pkts)"
  shows "\<exists>st' k rep. reconstruct_shreds L pkts st = Some (st', k, rep) \<and> stream_inv L sh slot Y X' st' \<and>
     filter (\<lambda>d. fst d = slot) (deshredded_entries st') = map (\<lambda>b. (slot, es b, pl b))
       (sorted_list_of_set {b \<in> entry_batches Y. all_enough Y X' b \<and> \<not> all_enough Y X b})"
proof -
  let ?K = "{b \<in> entry_batches Y. all_enough Y X b}" and ?K' = "{b \<in> entry_batches Y. all_enough Y X' b}"
  have X: "X \<subseteq> layout_shreds sh Y" "finite X" and h: "slot_threshold (highest_slot_seen st) \<le> slot"
    and ri: "recon_inv L st" using inv by (simp_all add: stream_inv_def)
  obtain E where E: "sets_of Y ?K \<subseteq> E" "E \<subseteq> fl_sets Y" "\<forall>f\<in>fl_sets Y. complete sh Y X E f \<longleftrightarrow> enough Y X f"
    and st: "stage L sh Y X (sets_of Y ?K) E (slot_entry L slot st)" using inv unfolding stream_inv_def by blast
  have X'l: "X' \<subseteq> layout_shreds sh Y" "finite X'" "X \<subseteq> X'" using X fit by (auto simp: X' fits_def of_slot_def)
  note re = ready_enough[OF ok Y _ X] and re' = ready_enough[OF ok Y _ X'l(1,2)]
  let ?E' = "E \<union> {f \<in> fl_sets Y. lost L sh Y X' f}"
  let ?R = "{b \<in> entry_batches Y - ?K. \<forall>g\<in>batch_sets Y b. complete sh Y X' ?E' g}"
  have old: "\<forall>f\<in>fl_sets Y. complete sh Y X E f \<or> waiting Y X f"
    "\<forall>b\<in>entry_batches Y - ?K. \<exists>g\<in>batch_sets Y b. \<not> complete sh Y X E g"
    using E(3) re(2) by (auto simp: all_enough_def batch_sets_def)
  have dec: "\<forall>f\<in>fl_sets Y - E. ready L sh Y X' f \<or> waiting Y X' f"
    "suffixes_fail L sh Y \<or> (\<forall>f\<in>fl_sets Y. ready L sh Y X' f)" using re' Y by (simp_all add: streamable_def)
  have K: "sets_of Y ?K \<subseteq> fl_sets Y" by (auto simp: sets_of_def)
  obtain st1 st2 st3 k rep where run: "stages L pkts st st1 st2 st3 k rep" using stages_exist[OF L ri] by blast
  note c = slot_call[OF L ok ri E(1,2) streamable_apart[OF Y K] st X(1) h fit X' old dec dl run refl refl]
  have comp: "complete sh Y X' ?E' f \<longleftrightarrow> enough Y X' f" if f: "f \<in> fl_sets Y" for f
  proof -
    have "enough Y X' f" if "f \<in> E"
      using E(3) f that enough_mono[OF _ X'l(2,3)] by (auto simp: complete_def)
    then show ?thesis using re'(1)[OF f] f by (auto simp: complete_def ready_def lost_def)
  qed
  have R: "?R = {b \<in> entry_batches Y. all_enough Y X' b \<and> \<not> all_enough Y X b}"
    using comp by (auto simp: all_enough_def batch_sets_def)
  have KR: "?K \<union> ?R = ?K'" unfolding R using all_enough_mono[OF _ X'l(2,3)] by blast
  have res: "reconstruct_shreds L pkts st = Some (count_recovered k (evicted L st3), k, rep)" and inv3: "recon_inv L st3"
    using run by (auto simp: stages_def deshred_inv_def)
  have "sets_of Y ?K' \<subseteq> ?E' \<union> sets_of Y ?R" using E(1) unfolding KR[symmetric] by (auto simp: sets_of_def)
  moreover have "?E' \<union> sets_of Y ?R \<subseteq> fl_sets Y" using E(2) by (auto simp: sets_of_def)
  moreover have "\<forall>f\<in>fl_sets Y. complete sh Y X' (?E' \<union> sets_of Y ?R) f \<longleftrightarrow> enough Y X' f"
  proof
    fix f assume f: "f \<in> fl_sets Y"
    have "enough Y X' f" if "f \<in> sets_of Y ?R"
      using that f layout_batch(3)[OF ok f] unfolding R by (simp add: all_enough_def)
    then show "complete sh Y X' (?E' \<union> sets_of Y ?R) f \<longleftrightarrow> enough Y X' f" using comp[OF f] by (auto simp: complete_def)
  qed
  ultimately have "stream_inv L sh slot Y X' (count_recovered k (evicted L st3))"
    unfolding stream_inv_def using c(1,2) X'l(1,2) recon_inv_evicted[OF inv3] slot_entry_kept[OF inv3 c(2)] unfolding KR
    by (intro conjI exI[of _ "?E' \<union> sets_of Y ?R"]) simp_all
  moreover have "filter (\<lambda>d. fst d = slot) (deshredded_entries (count_recovered k (evicted L st3))) =
      map (\<lambda>b. (slot, es b, pl b)) (sorted_list_of_set {b \<in> entry_batches Y. all_enough Y X' b \<and> \<not> all_enough Y X b})"
    using c(3) unfolding R by simp
  ultimately show ?thesis using res by blast
qed

text \<open>The messages of a slot that were sent.\<close>

definition sent_of :: "u64 \<Rightarrow> reconstructor \<Rightarrow> PbEntry list" where
  "sent_of slot r = filter (\<lambda>m. pb_slot m = slot) (sent r)"

lemma drained_of_slot:
  "filter (\<lambda>m. pb_slot m = slot) (drain_entries st) =
   map (\<lambda>(slot, _, bs). \<lparr>pb_slot = slot, pb_entries = bs\<rparr>) (filter (\<lambda>d. fst d = slot) (deshredded_entries st))"
  by (auto simp: drain_entries_def filter_map comp_def case_prod_beta intro!: arg_cong[where f = "map _"])

text \<open>One packet batch in the reconstructor thread.\<close>

lemma stream_body:
  assumes L: "ledger_ok L" and ok: "layout_ok L sh slot Y" and Y: "streamable L sh Y" and dl: "decodable L sh Y pl es"
    and inv: "stream_inv L sh slot Y X (recon r)" and fit: "fits sh slot Y (shreds_of L pkts)"
    and X': "X' = X \<union> of_slot slot (shreds_of L pkts)"
  shows "\<exists>r'. reconstructor_body L (PktBatch pkts) r = Some (Continue r') \<and> stream_inv L sh slot Y X' (recon r') \<and>
     sent_of slot r' = sent_of slot r @ map (\<lambda>b. \<lparr>pb_slot = slot, pb_entries = pl b\<rparr>)
       (sorted_list_of_set {b \<in> entry_batches Y. all_enough Y X' b \<and> \<not> all_enough Y X b})"
proof -
  obtain st' k rep where c: "reconstruct_shreds L pkts (recon r) = Some (st', k, rep)" "stream_inv L sh slot Y X' st'"
    "filter (\<lambda>d. fst d = slot) (deshredded_entries st') = map (\<lambda>b. (slot, es b, pl b))
       (sorted_list_of_set {b \<in> entry_batches Y. all_enough Y X' b \<and> \<not> all_enough Y X b})"
    using stream_call[OF L ok Y dl inv fit X'] by blast
  have "stream_inv L sh slot Y X' (st'\<lparr>deshredded_entries := []\<rparr>)" using c(2) by (simp add: stream_inv_def)
  then show ?thesis using c(1,3) by (simp add: sent_of_def drained_of_slot comp_def)
qed

lemma stream_run:
  assumes L: "ledger_ok L" and ok: "layout_ok L sh slot Y" and Y: "streamable L sh Y" and dl: "decodable L sh Y pl es"
    and "stream_inv L sh slot Y X (recon r)" "\<forall>pkts\<in>set batches. fits sh slot Y (shreds_of L pkts)"
  shows "\<exists>r'. event_loop (reconstructor_body L) (map (Event \<circ> PktBatch) batches) r = Some r' \<and>
     sent_of slot r' = sent_of slot r @ map (\<lambda>b. \<lparr>pb_slot = slot, pb_entries = pl b\<rparr>)
       (announced Y X (map (of_slot slot \<circ> shreds_of L) batches))"
  using assms(5,6)
proof (induction batches arbitrary: X r)
  case Nil
  then show ?case by simp
next
  case (Cons pkts batches)
  let ?X = "X \<union> of_slot slot (shreds_of L pkts)"
  obtain r1 where r1: "reconstructor_body L (PktBatch pkts) r = Some (Continue r1)" "stream_inv L sh slot Y ?X (recon r1)"
    "sent_of slot r1 = sent_of slot r @ map (\<lambda>b. \<lparr>pb_slot = slot, pb_entries = pl b\<rparr>)
       (sorted_list_of_set {b \<in> entry_batches Y. all_enough Y ?X b \<and> \<not> all_enough Y X b})"
    using stream_body[OF L ok Y dl Cons.prems(1) _ refl, of pkts] Cons.prems(2) by auto
  then show ?case using Cons.IH[OF r1(2)] Cons.prems(2) by (simp del: reconstructor_body.simps)
qed

lemma none_enough:
  assumes ok: "layout_ok L sh slot Y"
  shows "f \<in> fl_sets Y \<Longrightarrow> \<not> enough Y {} f" "b \<in> entry_batches Y \<Longrightarrow> \<not> all_enough Y {} b"
proof -
  show none: "f \<in> fl_sets Y \<Longrightarrow> \<not> enough Y {} f" for f
    using fresh_incomplete(1)[OF ok, of f] by (simp add: enough_def waiting_def)
  show "b \<in> entry_batches Y \<Longrightarrow> \<not> all_enough Y {} b"
    using none layout_batch(1)[OF ok] by (force simp: all_enough_def entry_batches_def batch_sets_def)
qed

lemma stream_start:
  assumes ok: "layout_ok L sh slot Y"
  shows "stream_inv L sh slot Y {} (recon (initial_reconstructor grpc))"
proof -
  have none: "{b \<in> entry_batches Y. all_enough Y {} b} = {}" using none_enough(2)[OF ok] by blast
  have "map_of (all_shreds (initial_recon grpc)) slot = None" "slot_threshold (highest_slot_seen (initial_recon grpc)) \<le> slot"
    by (simp_all add: initial_recon_def slot_threshold_def saturating_sub_def SLOT_LOOKBACK_def)
  then show ?thesis unfolding stream_inv_def none
    using stage_fresh[OF ok] fresh_incomplete(2)[OF ok] none_enough(1)[OF ok]
    by (simp add: initial_reconstructor_def) (intro exI[of _ "{}"], simp)
qed

text \<open>C3: However the shreds of a slot are cut into packet batches, ordered, repeated and mixed with packets that
are no shreds and with shreds of other slots, the reconstructor thread sends exactly one message per entry
batch of the slot (which may span several FEC sets) of whose every FEC set as many different shreds arrived
as it has data shreds, with the entries of the whole entry batch, with the packet batch that completes those
numbers, and in the order of the entry batches. The shreds are those of the layout of the slot, no slot more
than the look-back window ahead is seen, erasure coding recovers missing shreds, no coding shred has the
index of a data shred of another set, the payloads of an entry batch decode, and what follows a gap in one
does not.\<close>

theorem slot_stream_delivered:
  assumes "ledger_ok L" "layout_ok L sh slot Y" "streamable L sh Y" "decodable L sh Y pl es"
    and "\<forall>pkts\<in>set batches. fits sh slot Y (shreds_of L pkts)"
  shows "\<exists>r. reconstructor_thread L (map (Event \<circ> PktBatch) batches) grpc = Some r \<and>
     sent_of slot r = map (\<lambda>b. \<lparr>pb_slot = slot, pb_entries = pl b\<rparr>)
       (announced Y {} (map (of_slot slot \<circ> shreds_of L) batches)) \<and>
     distinct (announced Y {} (map (of_slot slot \<circ> shreds_of L) batches)) \<and>
     set (announced Y {} (map (of_slot slot \<circ> shreds_of L) batches)) =
       {b \<in> entry_batches Y. all_enough Y (\<Union>pkts\<in>set batches. of_slot slot (shreds_of L pkts)) b}"
proof -
  let ?Bs = "map (of_slot slot \<circ> shreds_of L) batches"
  obtain r where "reconstructor_thread L (map (Event \<circ> PktBatch) batches) grpc = Some r"
    "sent_of slot r = map (\<lambda>b. \<lparr>pb_slot = slot, pb_entries = pl b\<rparr>) (announced Y {} ?Bs)"
    using stream_run[OF assms(1-4) stream_start[OF assms(2)] assms(5), of grpc]
    by (auto simp: reconstructor_thread_def sent_of_def initial_reconstructor_def)
  moreover have "finite (fl_sets Y)" "\<forall>B\<in>set ?Bs. finite B" using assms(2) by (auto simp: layout_ok_def of_slot_def)
  note a = announced_sets[OF this(1) finite.emptyI this(2)]
  have "set (announced Y {} ?Bs) = {b \<in> entry_batches Y. all_enough Y (\<Union>pkts\<in>set batches. of_slot slot (shreds_of L pkts)) b}"
    using a(1) none_enough(2)[OF assms(2)] by auto
  ultimately show ?thesis using a(2) by blast
qed

text \<open>
  The two entry batches of \<open>ex_layout\<close> in four packet batches: the coding shred of the last set, a shred of
  slot 11 and a packet that is no shred; the first set and half of the middle one; the other half, with the coding
  shred again; and a shred again. After the first the code tries the last set alone.
\<close>

definition ex_batches :: "packet list list" where
  "ex_batches = map (map ex_packet)
     [[[0,11,0,0,1,7,7], ex_parity2, [5]], [ex_piece2 2, ex_piece2 0], [ex_piece2 1, ex_parity2], [ex_piece2 2]]"

lemma ex_shreds:
  "map (shreds_of ex_ledger) ex_batches =
    [[ex_data [0,11,0,0,1,7,7], ex_code ex_parity2], [ex_slot 2, ex_slot 0], [ex_slot 1, ex_code ex_parity2], [ex_slot 2]]"
  by code_simp

lemma ex_streamable: "streamable ex_ledger ex_slot ex_layout"
proof -
  have "erasure_ok ex_ledger ex_slot {} 0 0" "erasure_ok ex_ledger ex_slot {} 1 2" by (simp_all add: erasure_ok_def)
  moreover have "unat (shred_index (ex_code ex_parity2)) = 3" by code_simp
  moreover have suf: "case deshred ex_ledger (map (\<lambda>j. shred_payload (ex_slot j)) [s..<Suc 3]) of
      Inl _ \<Rightarrow> True | Inr p \<Rightarrow> (\<exists>e. deserialize_entries ex_ledger p = Inl e)" if "s = 2 \<or> s = 3" for s
  proof -
    have "deshred ex_ledger (map (\<lambda>j. shred_payload (ex_slot j)) [2..<Suc 3]) = Inr [0,23,0,24]"
      "deshred ex_ledger (map (\<lambda>j. shred_payload (ex_slot j)) [3..<Suc 3]) = Inr [0,24]"
      "deserialize_entries ex_ledger [0,23,0,24] = Inl ''bincode''" "deserialize_entries ex_ledger [0,24] = Inl ''bincode''"
      by code_simp+
    then show ?thesis using that by (auto simp del: upt_Suc)
  qed
  have "s = 2 \<or> s = 3" if "s \<in> {1<..3}" for s :: nat using that by auto
  then have "suffixes_fail ex_ledger ex_slot ex_layout"
    using suf unfolding suffixes_fail_def by (simp add: ex_layout_simps del: upt_Suc)
  ultimately show ?thesis using ex_erasure2
    by (simp add: streamable_def ex_layout_simps) (auto simp: ex_layout_def)
qed

lemma ex_slot_facts:
  "shred_slot (ex_slot 0) = 9" "shred_slot (ex_slot 1) = 9" "shred_slot (ex_slot 2) = 9" "shred_slot (ex_code ex_parity2) = 9"
  "shred_slot (ex_data [0,11,0,0,1,7,7]) = 11" "slot_threshold 9 \<le> 9" "slot_threshold 11 \<le> 9"
  "shred_fec_set_index (ex_slot 0) = 0" "shred_fec_set_index (ex_slot 1) = 1" "shred_fec_set_index (ex_slot 2) = 1"
  "shred_fec_set_index (ex_code ex_parity2) = 3" "ex_slot 1 \<noteq> ex_slot 2"
  by code_simp+

lemma ex_fits: "\<forall>pkts\<in>set ex_batches. fits ex_slot 9 ex_layout (shreds_of ex_ledger pkts)"
proof -
  have "\<forall>xs\<in>set (map (shreds_of ex_ledger) ex_batches). fits ex_slot 9 ex_layout xs" unfolding ex_shreds using ex_slot_facts
    by (auto simp: fits_def of_slot_def layout_shreds_def set_shreds_def ex_layout_def)
  then show ?thesis by simp
qed

lemma ex_enough:
  "all_enough ex_layout X 0 \<longleftrightarrow> 1 \<le> card (of_fec X 0)"
  "all_enough ex_layout X 1 \<longleftrightarrow> 2 \<le> card (of_fec X 1) \<and> 1 \<le> card (of_fec X 3)"
  by (simp_all add: all_enough_def enough_def ex_layout_sets ex_layout_simps)

lemma ex_of_fec:
  "of_fec {} f = {}" "of_fec (insert x X) f = (if shred_fec_set_index x = f then insert x (of_fec X f) else of_fec X f)"
  by (auto simp: of_fec_def)

lemma ex_announced: "announced ex_layout {} (map (of_slot 9 \<circ> shreds_of ex_ledger) ex_batches) = [0, 1]"
proof -
  have "map (of_slot 9 \<circ> shreds_of ex_ledger) ex_batches = map (of_slot 9) (map (shreds_of ex_ledger) ex_batches)" by simp
  also have "\<dots> = [{ex_code ex_parity2}, {ex_slot 2, ex_slot 0}, {ex_slot 1, ex_code ex_parity2}, {ex_slot 2}]"
    unfolding ex_shreds using ex_slot_facts by (auto simp: of_slot_def)
  finally have Bs: "map (of_slot 9 \<circ> shreds_of ex_ledger) ex_batches =
    [{ex_code ex_parity2}, {ex_slot 2, ex_slot 0}, {ex_slot 1, ex_code ex_parity2}, {ex_slot 2}]" .
  have F: "{b \<in> entry_batches ex_layout. P b} = (if P 0 then {0} else {}) \<union> (if P 1 then {1} else {})" for P
    by (auto simp: ex_layout_sets)
  show ?thesis unfolding Bs using ex_slot_facts by (simp add: F ex_enough ex_of_fec card_insert_if insert_commute)
qed

theorem slot_stream_delivered_witness:
  "\<exists>r. reconstructor_thread ex_ledger (map (Event \<circ> PktBatch) ex_batches) True = Some r \<and>
     sent_of 9 r = [\<lparr>pb_slot = 9, pb_entries = [11,12]\<rparr>, \<lparr>pb_slot = 9, pb_entries = [21,22,0,23,0,24]\<rparr>]"
  using slot_stream_delivered[OF ex_ledger_ok ex_layout_ok ex_streamable ex_decodable ex_fits, of True]
  unfolding ex_announced by auto

end
