(* ===== verification/Stream_System.thy ===== *)
theory Stream_System
  imports Proxy_System Slot_Stream
begin

text \<open>
  The stream of a slot through the running proxy: what the subscribers are sent for the batches that the
  send threads took from their sockets, however the threads interleave.
\<close>

section \<open>The messages of a slot in a running proxy\<close>

text \<open>The shreds of the slot in some batches, and the messages they give rise to.\<close>

definition received_of :: "ledger \<Rightarrow> u64 \<Rightarrow> packet list list \<Rightarrow> shred set" where
  "received_of L slot batches = (\<Union>pkts\<in>set batches. of_slot slot (shreds_of L pkts))"

lemma received_of_snoc: "received_of L slot (bs @ [b]) = received_of L slot bs \<union> of_slot slot (shreds_of L b)"
  by (auto simp: received_of_def)

lemma announced_append:
  "announced Y X (As @ Bs) = announced Y X As @ announced Y (X \<union> \<Union> (set As)) Bs"
  by (induction As arbitrary: X) (simp_all add: Un_assoc)

text \<open>
  As long as the batches taken from the sockets fit the layout, the reconstructor is in step with those it was
  fed, and it has sent what they announce.
\<close>

definition px_streams ::
  "ledger \<Rightarrow> px_config \<Rightarrow> (nat \<Rightarrow> shred) \<Rightarrow> u64 \<Rightarrow> fec_layout \<Rightarrow> (u32 \<Rightarrow> bytes) \<Rightarrow> 'd proxy \<Rightarrow> bool" where
  "px_streams L cf sh slot Y pl p \<longleftrightarrow> px_ordered cf p \<and>
     ((\<forall>pkts\<in>set (px_taken p). fits sh slot Y (shreds_of L pkts)) \<longrightarrow>
      stream_inv L sh slot Y (received_of L slot (px_fed p)) (recon (px_recon p)) \<and>
      sent_of slot (px_recon p) = map (\<lambda>b. \<lparr>pb_slot = slot, pb_entries = pl b\<rparr>)
        (announced Y {} (map (of_slot slot \<circ> shreds_of L) (px_fed p))))"

lemma recon_view_stream [simp]:
  "stream_inv L sh slot Y X (recon (recon_view p)) = stream_inv L sh slot Y X (recon (px_recon p))"
  "sent_of slot (recon_view p) = sent_of slot (px_recon p)"
  by (simp_all add: stream_inv_def recon_view_def sent_of_def recon_inv_def slot_entry_def)

lemma px_streams_init:
  assumes "layout_ok L sh slot Y"
  shows "px_streams L cf sh slot Y pl (px_init cf d)"
  using stream_start[OF assms] px_ordered_init[of cf d]
  by (simp add: px_streams_def px_init_def Let_def received_of_def sent_of_def)
    (simp add: initial_reconstructor_def)

lemma px_streams_step:
  assumes L: "ledger_ok L" and Y: "layout_ok L sh slot Y" "streamable L sh Y" "decodable L sh Y pl es"
    and inv: "px_streams L cf sh slot Y pl p" and step: "px_step L cf p p'"
  shows "px_streams L cf sh slot Y pl p'"
proof -
  have "px_ordered cf p" using inv by (simp add: px_streams_def)
  then have ord: "px_ordered cf p'" and "subseq (px_fed p @ px_queue p) (px_taken p)"
    using px_ordered_step[OF _ step] by (simp_all add: px_ordered_def)
  then have taken: "x \<in> set (px_taken p)" if "x \<in> set (px_queue p)" for x
    using list_emb_set[of "(=)" "px_fed p @ px_queue p" "px_taken p" x] that by auto
  from step show ?thesis
  proof (cases rule: px_step.cases)
    case (reconstruct batch rest r')
    show ?thesis unfolding px_streams_def
    proof (intro conjI[OF ord] impI)
      assume fit: "\<forall>pkts\<in>set (px_taken p'). fits sh slot Y (shreds_of L pkts)"
      let ?X = "received_of L slot (px_fed p)" and ?As = "map (of_slot slot \<circ> shreds_of L) (px_fed p)"
      have "fits sh slot Y (shreds_of L batch)" using fit taken reconstruct(1,2) by simp
      note body = stream_body[OF L Y _ this refl, of ?X "recon_view p"]
      have "\<Union> (set ?As) = ?X" by (simp add: received_of_def)
      then show "stream_inv L sh slot Y (received_of L slot (px_fed p')) (recon (px_recon p')) \<and>
          sent_of slot (px_recon p') = map (\<lambda>b. \<lparr>pb_slot = slot, pb_entries = pl b\<rparr>)
            (announced Y {} (map (of_slot slot \<circ> shreds_of L) (px_fed p')))"
        using body inv fit reconstruct(3)
        by (auto simp: px_streams_def reconstruct(1) received_of_snoc announced_append simp del: reconstructor_body.simps)
    qed
  qed (use inv ord in \<open>simp_all add: px_streams_def\<close>)
qed

interpretation px_stream: step_invariant "px_step L cf" "px_init cf d"
  "\<lambda>p. ledger_ok L \<and> layout_ok L sh slot Y \<and> streamable L sh Y \<and> decodable L sh Y pl es \<longrightarrow> px_streams L cf sh slot Y pl p"
  for L cf d sh slot Y pl es
  by unfold_locales (blast intro: px_streams_init px_streams_step)+

section \<open>A run that takes every batch\<close>

lemma send_continues:
  assumes "\<not> fw_poisoned (px_fw p)"
  shows "\<exists>s'. sender_body L sr False (RecvPackets usecs net (Inr batch)) (sender_view i p) = Some (Continue s')"
proof -
  let ?fw = "(px_fw p)\<lparr>fw_prom := observe_recv_interval usecs (fw_prom (px_fw p))\<rparr>"
  obtain d' batch' n where dd: "dedup_and_count net (fw_deduper ?fw) batch = (d', batch', n)"
    by (cases "dedup_and_count net (fw_deduper ?fw) batch") auto
  show ?thesis by (rule forward_batch[OF dd, of False L "px_local p i" sr]) (simp_all add: assms sender_view_def)
qed

lemma reconstructor_continues: "reconstructor_body L (PktBatch pkts) r = Some v \<Longrightarrow> \<exists>r'. v = Continue r'"
  by (auto split: Option.bind_splits)

lemma take_batch:
  assumes L: "ledger_ok L" and p: "px_reachable L cf d p" and cf: "cf_reconstruct cf" "\<not> cf_trace cf"
    and q: "px_queue p = []"
  shows "\<exists>p'. px_reachable L cf d p' \<and> px_queue p' = [] \<and> px_taken p' = px_taken p @ [batch] \<and> px_fed p' = px_fed p @ [batch]"
proof -
  have "px_ok L p" using px_reachable_ok[OF L p] .
  then obtain s' where s': "sender_body L (cf_reconstruct cf) (cf_trace cf) (RecvPackets 0 undefined (Inr batch)) (sender_view 0 p)
      = Some (Continue s')" using send_continues cf(2) by (force simp: px_ok_def)
  let ?p = "p\<lparr>px_fw := sd_fw s', px_taken := px_taken p @ [batch]\<rparr>"
  have step: "px_step L cf p ?p" using px_step.send[OF s'] .
  then have p1: "px_reachable L cf d ?p" using p unfolding px_reachable_def by (rule rtranclp.rtrancl_into_rtrancl[rotated])
  have "fw_reconstruct (sd_fw s') = try_send batch (fw_reconstruct (px_fw p))"
    using send_step[OF s'] cf(1) by (metis (full_types))
  then have q1: "px_queue ?p = [batch]" using q px_reachable_ordered[OF p] by (simp add: try_send_def px_ordered_def)
  have "thread_inv L (recon_view ?p)" using px_reachable_ok[OF L p1] by (simp add: px_ok_def)
  then obtain r' where r': "reconstructor_body L (PktBatch batch) (recon_view ?p) = Some (Continue r')"
    using recon_thread.body_ok[of L _ "PktBatch batch"] L reconstructor_continues by blast
  let ?p2 = "?p\<lparr>px_recon := r', px_fed := px_fed ?p @ [batch],
      px_fw := (px_fw ?p)\<lparr>fw_reconstruct := (fw_reconstruct (px_fw ?p))\<lparr>ch_items := []\<rparr>,
        fw_metrics := rc_metrics (recon r')\<rparr>\<rparr>"
  have "px_step L cf ?p ?p2" using px_step.reconstruct[OF q1 r'] .
  then have "px_reachable L cf d ?p2" using p1 unfolding px_reachable_def by (rule rtranclp.rtrancl_into_rtrancl[rotated])
  then show ?thesis by (intro exI[of _ ?p2]) simp
qed

lemma take_batches:
  assumes "ledger_ok L" "cf_reconstruct cf" "\<not> cf_trace cf"
  shows "\<exists>p. px_reachable L cf d p \<and> px_queue p = [] \<and> px_taken p = batches \<and> px_fed p = batches"
proof (induction batches rule: rev_induct)
  case Nil
  then show ?case by (intro exI[of _ "px_init cf d"]) (simp add: px_reachable_def px_init_def Let_def)
next
  case (snoc batch batches)
  then obtain p where p: "px_reachable L cf d p" "px_queue p = []" "px_taken p = batches" "px_fed p = batches" by blast
  show ?case using take_batch[OF assms(1) p(1) assms(2,3) p(2), of batch] unfolding p(3,4) .
qed

section \<open>Property\<close>

text \<open>C4: However the threads of the running proxy interleave, and however the shreds of a slot are spread over the
packets that the send threads take from their sockets, in every state that can be reached the subscribers have been
sent exactly one message per entry batch of the slot of whose every FEC set as many different shreds reached the
reconstructor as it has data shreds, with the entries of the whole batch, in the order in which the batches became
complete. When the service is enabled, at most 1024 packet batches have been taken and none waits, these are the
entry batches that can be rebuilt from everything the sockets received. As for the reconstructor alone, the
shreds are those of the layout of the slot, no slot more than the look-back window ahead is seen, erasure coding
recovers missing shreds, no coding shred has the index of a data shred of another set, the payloads of an entry
batch decode, and what follows a gap in one does not.\<close>

theorem proxy_stream_delivered:
  assumes "ledger_ok L" "layout_ok L sh slot Y" "streamable L sh Y" "decodable L sh Y pl es"
    and p: "px_reachable L cf d p" and fit: "\<forall>pkts\<in>set (px_taken p). fits sh slot Y (shreds_of L pkts)"
  shows "\<exists>bs. sent_of slot (px_recon p) = map (\<lambda>b. \<lparr>pb_slot = slot, pb_entries = pl b\<rparr>) bs \<and>
     bs = announced Y {} (map (of_slot slot \<circ> shreds_of L) (px_fed p)) \<and> distinct bs \<and>
     set bs = {b \<in> entry_batches Y. all_enough Y (received_of L slot (px_fed p)) b} \<and>
     (cf_reconstruct cf \<and> length (px_taken p) \<le> 1024 \<and> px_queue p = [] \<longrightarrow>
      set bs = {b \<in> entry_batches Y. all_enough Y (received_of L slot (px_taken p)) b})"
proof -
  let ?Bs = "map (of_slot slot \<circ> shreds_of L) (px_fed p)"
  have "px_streams L cf sh slot Y pl p"
    using px_stream.reachable_inv[OF p[unfolded px_reachable_def]] assms(1-4) by blast
  then have sent: "sent_of slot (px_recon p) = map (\<lambda>b. \<lparr>pb_slot = slot, pb_entries = pl b\<rparr>) (announced Y {} ?Bs)"
    using fit by (simp add: px_streams_def)
  have "finite (fl_sets Y)" "\<forall>B\<in>set ?Bs. finite B" using assms(2) by (auto simp: layout_ok_def of_slot_def)
  note a = announced_sets[OF this(1) finite.emptyI this(2)]
  have set: "set (announced Y {} ?Bs) = {b \<in> entry_batches Y. all_enough Y (received_of L slot (px_fed p)) b}"
    using a(1) none_enough(2)[OF assms(2)] by (auto simp: received_of_def)
  have "px_fed p = px_taken p" if "cf_reconstruct cf" "length (px_taken p) \<le> 1024" "px_queue p = []"
    using px_reachable_ordered[OF p] that by (simp add: px_ordered_def)
  then show ?thesis using sent set a(2) by auto
qed

text \<open>The four packet batches of \<open>ex_batches\<close> through the running proxy.\<close>

theorem proxy_stream_delivered_witness:
  "\<exists>p. px_reachable ex_ledger ex_config ([] :: bytes list) p \<and> px_taken p = ex_batches \<and>
     sent_of 9 (px_recon p) = [\<lparr>pb_slot = 9, pb_entries = [11,12]\<rparr>, \<lparr>pb_slot = 9, pb_entries = [21,22,0,23,0,24]\<rparr>]"
proof -
  obtain p where p: "px_reachable ex_ledger ex_config ([] :: bytes list) p" "px_taken p = ex_batches" "px_fed p = ex_batches"
    using take_batches[OF ex_ledger_ok, of ex_config] by (force simp: ex_config_def)
  then show ?thesis
    using proxy_stream_delivered[OF ex_ledger_ok ex_layout_ok ex_streamable ex_decodable p(1)] ex_fits
    by (auto simp: ex_announced)
qed

end
