(* ===== verification/Recover_Test.thy ===== *)
theory Recover_Test
  imports Recovered_Fec_Set
begin

text \<open>
  \<^verbatim>\<open>test_recover_shreds\<close> (\<^verbatim>\<open>proxy/src/deshred.rs\<close>) as a definition over the model, and the theorem that
  it passes for every shredder that behaves as documented: ten groups of entries, 32 data and 32
  coding shreds each, first all of them, then with every third shred lost.
\<close>

section \<open>The test\<close>

text \<open>
  \<open>shredder entries index index\<close> is \<^verbatim>\<open>Shredder::entries_to_shreds\<close> with the next data and code index;
  the result has all entries, data shreds and coding shreds.
\<close>

fun make_groups ::
  "(entry list \<Rightarrow> u32 \<Rightarrow> u32 \<Rightarrow> shred list \<times> shred list) \<Rightarrow> entry list list \<Rightarrow> nat \<Rightarrow>
   entry list \<times> shred list \<times> shred list" where
  "make_groups shredder [] index = ([], [], [])"
| "make_groups shredder (e # es) index =
     (let (data, code) = shredder e (of_nat index) (of_nat index);
          (entries, data_shreds, coding_shreds) = make_groups shredder es (index + length data)
      in (e @ entries, data @ data_shreds, code @ coding_shreds))"

text \<open>
  One of the two runs, from empty collections; the counters are shared. The result is what the
  assertions are about: the recovered count, the number of delivered entries and of tracked slots.
\<close>

definition recover_run :: "ledger \<Rightarrow> packet list \<Rightarrow> ShredMetrics \<Rightarrow> ((nat \<times> nat \<times> nat) \<times> ShredMetrics) option" where
  "recover_run L packets metrics = do {
     (st, recovered, _) \<leftarrow> reconstruct_shreds L packets ((initial_recon False)\<lparr>rc_metrics := metrics\<rparr>);
     Some ((recovered, sum_list (map (\<lambda>(slot, entries, entries_bytes). length entries) (deshredded_entries st)),
            length (all_shreds st)), rc_metrics st) }"

definition test_recover_shreds ::
  "ledger \<Rightarrow> (entry list \<Rightarrow> u32 \<Rightarrow> u32 \<Rightarrow> shred list \<times> shred list) \<Rightarrow> (shred \<Rightarrow> packet) \<Rightarrow> entry list list \<Rightarrow> bool" where
  "test_recover_shreds L shredder copy_to_packet groups \<longleftrightarrow>
     (let (entries, data_shreds, coding_shreds) = make_groups shredder groups 0;
          packets = map copy_to_packet (data_shreds @ coding_shreds)
      in length data_shreds = 320 \<and>
         length (remdups_adj (map shred_fec_set_index data_shreds)) = length groups \<and>
         (case recover_run L packets (ShredMetrics_new False) of None \<Rightarrow> False
          | Some ((recovered, delivered, tracked), metrics) \<Rightarrow>
              recovered = 0 \<and> delivered = length entries \<and> tracked = 1 \<and>
              (case recover_run L (nths packets {index. (index + 1) mod 3 \<noteq> 0}) metrics of None \<Rightarrow> False
               | Some ((recovered, delivered, tracked), _) \<Rightarrow>
                   recovered > 0 \<and> delivered = length entries \<and> tracked = 1)))"

section \<open>The shredder\<close>

definition group_start :: "nat \<Rightarrow> u32" where
  "group_start i = of_nat (32 * i)"

lemma unat_group_start [simp]: "i < 10 \<Longrightarrow> unat (group_start i) = 32 * i"
  unfolding group_start_def by (simp add: unsigned_of_nat take_bit_nat_eq_self del: of_nat_mult)

lemma group_start_inj: "i < 10 \<Longrightarrow> j < 10 \<Longrightarrow> group_start i = group_start j \<Longrightarrow> i = j"
  by (drule arg_cong[of _ _ unat]) simp

text \<open>
  Documented behaviour of the shredder on the groups of the test: each group of entries becomes one FEC
  set of 32 data shreds and 32 coding shreds, which erasure coding can recover and which deshred and
  deserialize back into the entries; and a packet a shred is copied to decodes back into the shred.
\<close>

definition group_ok ::
  "ledger \<Rightarrow> (entry list \<Rightarrow> u32 \<Rightarrow> u32 \<Rightarrow> shred list \<times> shred list) \<Rightarrow> u64 \<Rightarrow> (nat \<Rightarrow> shred) \<Rightarrow> (nat \<Rightarrow> shred list) \<Rightarrow>
   entry list \<Rightarrow> nat \<Rightarrow> bool" where
  "group_ok L shredder slot sh cs e i \<longleftrightarrow>
     shredder e (group_start i) (group_start i) = (map sh [32 * i..<32 * i + 32], cs i) \<and>
     distinct (cs i) \<and> length (cs i) = 32 \<and>
     coded_fec_set L sh (set (cs i)) slot (group_start i) (32 * i + 31) 32 \<and> completes (sh (32 * i + 31)) \<and>
     erasure_ok L sh (set (cs i)) (group_start i) (32 * i + 31) \<and>
     (\<exists>p. deshred L (map (\<lambda>j. shred_payload (sh j)) [32 * i..<32 * i + 32]) = Inr p \<and> deserialize_entries L p = Inr e)"

definition copy_ok :: "ledger \<Rightarrow> (shred \<Rightarrow> packet) \<Rightarrow> shred set \<Rightarrow> bool" where
  "copy_ok L copy_to_packet X \<longleftrightarrow> (\<forall>x\<in>X. \<exists>b. packet_data L (copy_to_packet x) = Some b \<and> decode_shred L b = Inr x)"

lemma copied_packets:
  "copy_ok L copy (set xs) \<Longrightarrow> map (decode_shred L) (List.map_filter (packet_data L) (map copy xs)) = map Inr xs"
  by (induction xs) (auto simp: copy_ok_def List.map_filter_simps)

lemma make_groups_eq:
  assumes "\<forall>k < length es. group_ok L shredder slot sh cs (es ! k) (i + k)"
  shows "make_groups shredder es (32 * i) =
     (concat es, map sh [32 * i..<32 * (i + length es)], concat (map cs [i..<i + length es]))"
  using assms
proof (induction es arbitrary: i)
  case Nil
  then show ?case by simp
next
  case (Cons e es)
  have "group_ok L shredder slot sh cs e i" using Cons.prems by (metis add.right_neutral length_greater_0_conv list.discI nth_Cons_0)
  then have sh: "shredder e (group_start i) (group_start i) = (map sh [32 * i..<32 * i + 32], cs i)"
    by (simp add: group_ok_def)
  have "\<forall>k < length es. group_ok L shredder slot sh cs (es ! k) (Suc i + k)"
    using Cons.prems by (metis Suc_less_eq add_Suc_shift length_Cons nth_Cons_Suc)
  from Cons.IH[OF this] have "make_groups shredder es (32 * i + 32) =
     (concat es, map sh [32 * i + 32..<32 * (Suc i + length es)], concat (map cs [Suc i..<Suc i + length es]))"
    by (simp add: algebra_simps)
  moreover have "[32 * i..<32 * (i + length (e # es))] = [32 * i..<32 * i + 32] @ [32 * i + 32..<32 * (Suc i + length es)]"
    using upt_add_eq_append[of "32 * i" "32 * i + 32" "32 * length es"] by (simp add: algebra_simps)
  moreover have "[i..<i + length (e # es)] = i # [Suc i..<Suc i + length es]" by (simp add: upt_rec)
  ultimately show ?case using sh unfolding group_start_def by (simp del: of_nat_mult)
qed

section \<open>The layout of the slot\<close>

definition test_layout :: "(nat \<Rightarrow> shred list) \<Rightarrow> fec_layout" where
  "test_layout cs = \<lparr>fl_sets = group_start ` {..<10}, fl_end = (\<lambda>f. unat f + 31),
     fl_codes = (\<lambda>f. set (cs (unat f div 32))), fl_num_codes = (\<lambda>_. 32),
     fl_first = (\<lambda>f. f), fl_stop = (\<lambda>f. unat f + 31)\<rparr>"

lemma test_layout_ok:
  assumes "\<forall>i < 10. group_ok L shredder slot sh cs (groups ! i) i"
  shows "layout_ok L sh slot (test_layout cs)"
proof -
  have "coded_fec_set L sh (fl_codes (test_layout cs) f) slot f (fl_end (test_layout cs) f) (fl_num_codes (test_layout cs) f)"
    if "f \<in> fl_sets (test_layout cs)" for f
  proof -
    obtain i where i: "i < 10" "f = group_start i" using \<open>f \<in> fl_sets (test_layout cs)\<close> by (auto simp: test_layout_def)
    then show ?thesis using assms by (simp add: group_ok_def test_layout_def)
  qed
  moreover have "indices (test_layout cs) f \<inter> indices (test_layout cs) g = {}"
    if fg: "f \<in> fl_sets (test_layout cs)" "g \<in> fl_sets (test_layout cs)" "f \<noteq> g" for f g
  proof -
    obtain i j where "i < 10" "f = group_start i" "j < 10" "g = group_start j" "i \<noteq> j"
      using fg by (auto simp: test_layout_def)
    then show ?thesis by (auto simp: test_layout_def)
  qed
  moreover have "batch_ok sh (test_layout cs) f" if f: "f \<in> fl_sets (test_layout cs)" for f
  proof -
    obtain i where i: "i < 10" "f = group_start i" using f by (auto simp: test_layout_def)
    then have "coded_fec_set L sh (set (cs i)) slot f (32 * i + 31) 32" "completes (sh (32 * i + 31))"
      using assms by (simp_all add: group_ok_def)
    then have "whole_fec_set L sh slot f (unat f + 31)" "completes (sh (unat f + 31))" using i by (simp_all add: coded_fec_set_def)
    then have "\<forall>j\<in>{unat f..unat f + 31}. completes (sh j) \<longleftrightarrow> j = unat f + 31" using whole_fec_setD(6) by blast
    moreover have "batch_sets (test_layout cs) f = {f}" using f by (auto simp: batch_sets_def test_layout_def)
    ultimately show ?thesis using f by (simp add: batch_ok_def test_layout_def)
  qed
  ultimately show ?thesis unfolding layout_ok_def by (simp add: test_layout_def)
qed

lemma test_layout_batches: "entry_batches (test_layout cs) = fl_sets (test_layout cs)"
  by (simp add: entry_batches_def test_layout_def)

lemma test_layout_sets: "sorted_list_of_set (fl_sets (test_layout cs)) = map group_start [0..<10]"
proof -
  have "fl_sets (test_layout cs) = set (map group_start [0..<10])" by (auto simp: test_layout_def)
  moreover have "sorted_wrt (<) (map group_start [0..<10])"
    by (simp add: upt_rec group_start_def)
  ultimately show ?thesis by (metis sorted_list_of_set.idem_if_sorted_distinct strict_sorted_iff)
qed

section \<open>One run\<close>

text \<open>Whichever shreds arrive, a run delivers all entries when every group can be recovered.\<close>

lemma recover_run_delivers:
  assumes L: "ledger_ok L" and g: "\<forall>i < 10. group_ok L shredder slot sh cs (groups ! i) i" and n: "length groups = 10"
    and copy: "copy_ok L copy (set xs)" and xs: "set xs \<subseteq> layout_shreds sh (test_layout cs)"
    and can: "\<forall>i < 10. full_set sh (test_layout cs) (set xs) (group_start i) \<or>
      recoverable L sh (test_layout cs) (set xs) (group_start i)"
  shows "\<exists>k m. recover_run L (map copy xs) metrics = Some ((k, length (concat groups), 1), m) \<and>
     (k = 0 \<longleftrightarrow> (\<forall>i < 10. full_set sh (test_layout cs) (set xs) (group_start i)))"
proof -
  let ?Y = "test_layout cs" and ?st = "(initial_recon False)\<lparr>rc_metrics := metrics\<rparr>"
  have sets: "fl_sets ?Y = group_start ` {..<10}" by (simp add: test_layout_def)
  define pl where "pl f = (SOME p. deshred L (map (\<lambda>j. shred_payload (sh j)) [unat f..<Suc (fl_stop ?Y f)]) = Inr p \<and>
      deserialize_entries L p = Inr (groups ! (unat f div 32)))" for f :: u32
  have dl: "decodable L sh ?Y pl (\<lambda>f. groups ! (unat f div 32))"
  proof
    fix f assume "f \<in> entry_batches ?Y"
    then obtain i where i: "i < 10" "f = group_start i" by (auto simp: test_layout_batches sets)
    have "\<exists>p. deshred L (map (\<lambda>j. shred_payload (sh j)) [unat f..<Suc (fl_stop ?Y f)]) = Inr p \<and>
      deserialize_entries L p = Inr (groups ! (unat f div 32))"
      using g i by (simp add: group_ok_def test_layout_def add.commute del: upt_Suc)
    then show "deshred L (map (\<lambda>j. shred_payload (sh j)) [unat f..<Suc (fl_stop ?Y f)]) = Inr (pl f) \<and>
      deserialize_entries L (pl f) = Inr (groups ! (unat f div 32))" unfolding pl_def by (rule someI_ex)
  qed
  have inv: "recon_inv L ?st" using recon_inv_initial[of L False] by (simp add: recon_inv_def)
  have fresh: "map_of (all_shreds ?st) slot = None" "slot_threshold (highest_slot_seen ?st) \<le> slot"
    by (simp_all add: initial_recon_def slot_threshold_def saturating_sub_def SLOT_LOOKBACK_def)
  have can': "\<forall>f\<in>fl_sets ?Y. full_set sh ?Y (set xs) f \<or> recoverable L sh ?Y (set xs) f" using can by (auto simp: sets)
  obtain st3 k rep where r: "reconstruct_shreds L (map copy xs) ?st = Some (count_recovered k (evicted L st3), k, rep)"
    and st3: "recon_inv L st3" "k = 0 \<longleftrightarrow> (\<forall>f\<in>fl_sets ?Y. full_set sh ?Y (set xs) f)"
      "deshredded_entries st3 = map (\<lambda>f. (slot, groups ! (unat f div 32), pl f)) (sorted_list_of_set (entry_batches ?Y))"
      "stage L sh ?Y (set xs) (fl_sets ?Y) (fl_sets ?Y) (slot_entry L slot st3)"
      "tracked_slots st3 \<subseteq> insert slot (tracked_slots ?st)" "slot_threshold (highest_slot_seen st3) \<le> slot"
    by (rule layout_delivered[OF L inv fresh test_layout_ok[OF g] xs can' copied_packets[OF copy] dl])
  have "sum_list (map (\<lambda>(slot, entries, entries_bytes). length entries) (deshredded_entries st3)) =
      sum_list (map (\<lambda>i. length (groups ! i)) [0..<10])"
    unfolding st3(3) test_layout_batches test_layout_sets map_map by (intro arg_cong[of _ _ sum_list] map_cong) simp_all
  also have "\<dots> = length (concat groups)"
    unfolding length_concat by (metis (no_types, lifting) map_nth n map_map map_cong comp_def)
  finally have total: "sum_list (map (\<lambda>(slot, entries, entries_bytes). length entries) (deshredded_entries st3)) = length (concat groups)" .
  have "slot \<in> tracked_slots st3"
  proof (rule stored_slot)
    have "0 \<in> indices ?Y (group_start 0)" "group_start 0 \<in> fl_sets ?Y" by (simp_all add: test_layout_def)
    note z = this layout_index(1)[OF test_layout_ok[OF g] this(2,1)]
    then show "0 < MAX_DATA_SHREDS_PER_SLOT L" by simp
    have "0 \<in> held sh ?Y (set xs) (fl_sets ?Y)" using z(1,2) unfolding held_def by blast
    then show "data_shreds (tracker_of L slot st3) ! 0 = Some (sh 0)"
      using stageD(7)[of L sh ?Y "set xs" _ _ "fst (slot_entry L slot st3)" "tracker_of L slot st3" 0] st3(4) z(3) by simp
  qed
  then have "tracked_slots st3 = {slot}" using st3(5) by (auto simp: initial_recon_def)
  then have "tracked_slots (evicted L st3) = {slot}"
    using evicted_lookup[OF st3(1)] st3(6) by (auto simp: dom_def not_less)
  then have "length (all_shreds (evicted L st3)) = 1"
    using alist.len_dom[of "all_shreds (evicted L st3)"] recon_inv_evicted[OF st3(1)] by (simp add: recon_inv_def)
  then show ?thesis using r st3(2) total by (auto simp: recover_run_def sets)
qed

section \<open>A third of the shreds is lost\<close>

abbreviation kept :: "nat set" where
  "kept \<equiv> {index. (index + 1) mod 3 \<noteq> 0}"

lemma kept_of_32: "16 \<le> card {j \<in> {a..<a + 32}. j \<in> kept}"
proof -
  let ?lost = "{j \<in> {a..<a + 32}. j \<notin> kept}"
  have "inj_on (\<lambda>j. j div 3) ?lost"
  proof (rule inj_onI)
    fix x y :: nat assume xy: "x \<in> ?lost" "y \<in> ?lost" "x div 3 = y div 3"
    have mod2: "z mod 3 = 2" if "(z + 1) mod 3 = 0" for z :: nat using that by presburger
    have "x mod 3 = 2" "y mod 3 = 2" using xy(1,2) by (auto intro: mod2)
    then show "x = y" using xy(3) by (metis div_mult_mod_eq)
  qed
  moreover have "(\<lambda>j. j div 3) ` ?lost \<subseteq> {a div 3..(a + 31) div 3}" by (auto intro!: div_le_mono)
  ultimately have "card ?lost \<le> card {a div 3..(a + 31) div 3}" by (metis (no_types, lifting) card_image card_mono finite_atLeastAtMost)
  moreover have "card {a div 3..(a + 31) div 3} \<le> 12" by simp
  moreover have "card {j \<in> {a..<a + 32}. j \<in> kept} + card ?lost = card {a..<a + 32}"
  proof -
    have "{a..<a + 32} = {j \<in> {a..<a + 32}. j \<in> kept} \<union> ?lost" by blast
    then show ?thesis by (metis (no_types, lifting) card_Un_disjoint disjoint_iff finite_Un finite_atLeastLessThan mem_Collect_eq)
  qed
  ultimately show ?thesis by simp
qed

lemma kept_shifted: "16 \<le> card {j \<in> {..<32}. a + j \<in> kept}"
proof -
  have "(+) a ` {j \<in> {..<32}. a + j \<in> kept} = {j \<in> {a..<a + 32}. j \<in> kept}"
  proof (intro equalityI subsetI)
    fix x assume "x \<in> {j \<in> {a..<a + 32}. j \<in> kept}"
    then show "x \<in> (+) a ` {j \<in> {..<32}. a + j \<in> kept}" by (intro image_eqI[of _ _ "x - a"]) auto
  qed auto
  then have "card {j \<in> {..<32}. a + j \<in> kept} = card {j \<in> {a..<a + 32}. j \<in> kept}"
    by (metis (no_types, lifting) card_image inj_on_add)
  then show ?thesis using kept_of_32[of a] by simp
qed

lemma length_concat_32: "\<forall>i < n. length (cs i) = 32 \<Longrightarrow> length (concat (map cs [0..<n])) = 32 * n"
  by (induction n) auto

lemma nth_concat_32:
  "\<forall>i < n. length (cs i) = 32 \<Longrightarrow> i < n \<Longrightarrow> j < 32 \<Longrightarrow> concat (map cs [0..<n]) ! (32 * i + j) = cs i ! j"
proof (induction n)
  case (Suc n)
  have len: "length (concat (map cs [0..<n])) = 32 * n" using length_concat_32[of n cs] Suc.prems(1) by simp
  show ?case
  proof (cases "i < n")
    case True
    then have "32 * i + j < 32 * n" using Suc.prems(3) by linarith
    then show ?thesis using Suc.IH True Suc.prems len by (simp add: nth_append)
  next
    case False
    then have "i = n" using Suc.prems(2) by simp
    then show ?thesis using len by (simp add: nth_append)
  qed
qed simp

section \<open>The test passes\<close>

definition test_shreds :: "(nat \<Rightarrow> shred) \<Rightarrow> (nat \<Rightarrow> shred list) \<Rightarrow> shred list" where
  "test_shreds sh cs = map sh [0..<320] @ concat (map cs [0..<10])"

lemma test_shreds_nth:
  assumes "\<forall>i < 10. length (cs i) = 32" "i < 10"
  shows "length (test_shreds sh cs) = 640" "j < 320 \<Longrightarrow> test_shreds sh cs ! j = sh j"
    "j < 32 \<Longrightarrow> test_shreds sh cs ! (320 + (32 * i + j)) = cs i ! j"
  using assms length_concat_32[of 10 cs] nth_concat_32[of 10 cs i j]
  by (simp_all add: test_shreds_def nth_append)

lemma set_test_shreds:
  assumes "\<forall>i < 10. length (cs i) = 32"
  shows "set (test_shreds sh cs) = layout_shreds sh (test_layout cs)"
proof -
  have "{0..<320 :: nat} = (\<Union>i<10. {32 * i..32 * i + 31})"
  proof (intro equalityI subsetI)
    fix j :: nat assume "j \<in> {0..<320}"
    then show "j \<in> (\<Union>i<10. {32 * i..32 * i + 31})" by (intro UN_I[of "j div 32"]) auto
  qed auto
  then have "sh ` {0..<320} = (\<Union>i<10. sh ` {32 * i..32 * i + 31})" by (simp add: image_UN)
  then show ?thesis by (auto simp: test_shreds_def layout_shreds_def set_shreds_def test_layout_def)
qed

lemma third_lost_recoverable:
  assumes g: "\<forall>i < 10. group_ok L shredder slot sh cs (groups ! i) i" and i: "i < 10"
  shows "recoverable L sh (test_layout cs) (set (nths (test_shreds sh cs) kept)) (group_start i)"
proof -
  let ?X = "set (nths (test_shreds sh cs) kept)" and ?f = "group_start i"
  have len: "\<forall>i < 10. length (cs i) = 32" using g by (simp add: group_ok_def)
  have gi: "group_ok L shredder slot sh cs (groups ! i) i" using g i by blast
  then have c: "coded_fec_set L sh (set (cs i)) slot ?f (32 * i + 31) 32" by (simp add: group_ok_def)
  then have w: "whole_fec_set L sh slot ?f (32 * i + 31)" by (simp add: coded_fec_set_def)
  have X: "?X = {test_shreds sh cs ! k |k. k < 640 \<and> k \<in> kept}"
    using test_shreds_nth(1)[OF len i] by (simp add: set_nths)
  let ?D = "{j \<in> {32 * i..<32 * i + 32}. j \<in> kept}" and ?C = "{j \<in> {..<32}. 320 + 32 * i + j \<in> kept}"
  have D: "sh ` ?D \<subseteq> of_fec ?X ?f"
  proof
    fix x assume "x \<in> sh ` ?D"
    then obtain j where j: "j \<in> {32 * i..<32 * i + 32}" "j \<in> kept" "x = sh j" by blast
    then have "x = test_shreds sh cs ! j" "j < 640" using test_shreds_nth(2)[OF len i, of j] i by auto
    then have "x \<in> ?X" unfolding X using j(2) by blast
    moreover have "shred_fec_set_index x = ?f" using whole_fec_setD(4)[OF w, of j] j i by auto
    ultimately show "x \<in> of_fec ?X ?f" by (simp add: of_fec_def)
  qed
  have C: "(!) (cs i) ` ?C \<subseteq> of_fec ?X ?f"
  proof
    fix x assume "x \<in> (!) (cs i) ` ?C"
    then obtain j where j: "j < 32" "320 + 32 * i + j \<in> kept" "x = cs i ! j" by blast
    have "x = test_shreds sh cs ! (320 + 32 * i + j)" "320 + 32 * i + j < 640"
      using test_shreds_nth(3)[OF len i j(1)] j i by (simp_all add: add.assoc)
    then have "x \<in> ?X" unfolding X using j(2) by blast
    moreover have "x \<in> set (cs i)" using j len i by simp
    then have "shred_fec_set_index x = ?f" using c by (simp add: coded_fec_set_def)
    ultimately show "x \<in> of_fec ?X ?f" by (simp add: of_fec_def)
  qed
  have inj: "inj_on sh ?D" by (rule inj_on_subset[OF whole_inj[OF w]]) (use i in auto)
  have "distinct (cs i)" "length (cs i) = 32" using gi by (simp_all add: group_ok_def)
  then have inj': "inj_on ((!) (cs i)) ?C" by (intro inj_onI) (simp add: nth_eq_iff_index_eq)
  have disj: "sh ` ?D \<inter> (!) (cs i) ` ?C = {}"
  proof -
    have "is_data x" if "x \<in> sh ` ?D" for x using that whole_fec_setD(1)[OF w] i by auto
    moreover have "\<not> is_data x" if "x \<in> (!) (cs i) ` ?C" for x
    proof -
      have "x \<in> set (cs i)" using that len i by auto
      then show ?thesis using c by (simp add: coded_fec_set_def)
    qed
    ultimately show ?thesis by blast
  qed
  have "32 \<le> card ?D + card ?C" using kept_of_32[of "32 * i"] kept_shifted[of "320 + 32 * i"] by simp
  also have "\<dots> = card (sh ` ?D \<union> (!) (cs i) ` ?C)"
    using card_image[OF inj] card_image[OF inj'] disj by (subst card_Un_disjoint) auto
  also have "\<dots> \<le> card (of_fec ?X ?f)"
    using D C by (intro card_mono) (auto intro: finite_subset[OF of_fec_subset])
  finally show ?thesis using gi i by (simp add: recoverable_def test_layout_def group_ok_def)
qed

lemma third_lost_part:
  assumes g: "\<forall>i < 10. group_ok L shredder slot sh cs (groups ! i) i"
  shows "\<not> full_set sh (test_layout cs) (set (nths (test_shreds sh cs) kept)) (group_start 0)"
proof -
  have len: "\<forall>i < 10. length (cs i) = 32" using g by (simp add: group_ok_def)
  have ok: "layout_ok L sh slot (test_layout cs)" by (rule test_layout_ok[OF g])
  have idx: "is_data (sh j) \<and> unat (shred_index (sh j)) = j" if j: "j < 320" for j
  proof -
    have "group_start (j div 32) \<in> fl_sets (test_layout cs)" using j by (auto simp: test_layout_def)
    moreover have "j \<in> indices (test_layout cs) (group_start (j div 32))" using j by (simp add: test_layout_def)
    ultimately show ?thesis using layout_index(2,3)[OF ok] by blast
  qed
  have "sh 2 \<notin> set (nths (test_shreds sh cs) kept)"
  proof
    assume "sh 2 \<in> set (nths (test_shreds sh cs) kept)"
    then obtain k where k: "k < 640" "k \<in> kept" "sh 2 = test_shreds sh cs ! k"
      using test_shreds_nth(1)[OF len, of 0] by (auto simp: set_nths)
    show False
    proof (cases "k < 320")
      case True
      then have "sh 2 = sh k" using k(3) test_shreds_nth(2)[OF len, of 0 k] by simp
      then have "k = 2" using idx[OF True] idx[of 2] by simp
      then show False using k(2) by simp
    next
      case False
      define i j where "i = (k - 320) div 32" and "j = (k - 320) mod 32"
      have ij: "i < 10" "j < 32" "k = 320 + (32 * i + j)" using False k(1) by (auto simp: i_def j_def)
      then have "sh 2 = cs i ! j" using k(3) test_shreds_nth(3)[OF len ij(1,2)] by simp
      then have "sh 2 \<in> set (cs i)" using ij len by simp
      then have "\<not> is_data (sh 2)" using g ij(1) by (auto simp: group_ok_def coded_fec_set_def)
      then show False using idx[of 2] by simp
    qed
  qed
  then show ?thesis by (auto simp: full_set_def test_layout_def image_subset_iff)
qed

lemma dedup_blocks:
  assumes "\<And>i j. i < n \<Longrightarrow> j < n \<Longrightarrow> f i = f j \<Longrightarrow> i = j"
  shows "remdups_adj (concat (map (\<lambda>i. replicate 32 (f i)) [0..<n])) = map f [0..<n]"
  using assms
proof (induction n)
  case (Suc n)
  let ?xs = "concat (map (\<lambda>i. replicate 32 (f i)) [0..<n])" and ?b = "replicate 32 (f n)"
  have "?xs = [] \<or> ?b = [] \<or> last ?xs \<noteq> hd ?b"
  proof (cases n)
    case (Suc k)
    then have "last ?xs = f k" by (simp add: last_append)
    then show ?thesis using Suc Suc.prems[of k n] by auto
  qed simp
  then show ?case using remdups_adj_append'[of ?xs ?b] Suc.IH Suc.prems by (simp add: remdups_adj_replicate)
qed simp

lemma test_groups:
  assumes g: "\<forall>i < 10. group_ok L shredder slot sh cs (groups ! i) i" and n: "length groups = 10"
  shows "make_groups shredder groups 0 = (concat groups, map sh [0..<320], concat (map cs [0..<10]))"
    "remdups_adj (map (shred_fec_set_index \<circ> sh) [0..<320]) = map group_start [0..<10]"
proof -
  show "make_groups shredder groups 0 = (concat groups, map sh [0..<320], concat (map cs [0..<10]))"
    using make_groups_eq[of groups L shredder slot sh cs 0] g n by simp
  have fec: "map (shred_fec_set_index \<circ> sh) [32 * i..<32 * i + 32] = replicate 32 (group_start i)" if "i < 10" for i
  proof (intro nth_equalityI)
    fix j assume "j < length (map (shred_fec_set_index \<circ> sh) [32 * i..<32 * i + 32])"
    moreover have "whole_fec_set L sh slot (group_start i) (32 * i + 31)"
      using g that by (simp add: group_ok_def coded_fec_set_def)
    ultimately show "map (shred_fec_set_index \<circ> sh) [32 * i..<32 * i + 32] ! j = replicate 32 (group_start i) ! j"
      using whole_fec_setD(4)[of L sh slot "group_start i" "32 * i + 31" "32 * i + j"] that by simp
  qed simp
  have "map (shred_fec_set_index \<circ> sh) [0..<32 * k] = concat (map (\<lambda>i. replicate 32 (group_start i)) [0..<k])" if "k \<le> 10" for k
    using that
  proof (induction k)
    case (Suc k)
    have "[0..<32 * Suc k] = [0..<32 * k] @ [32 * k..<32 * k + 32]"
      using upt_add_eq_append[of 0 "32 * k" 32] by (simp add: add.commute)
    then show ?case using Suc fec[of k] by (simp add: comp_def)
  qed simp
  from this[of 10] have "map (shred_fec_set_index \<circ> sh) [0..<320] = concat (map (\<lambda>i. replicate 32 (group_start i)) [0..<10])" by simp
  then show "remdups_adj (map (shred_fec_set_index \<circ> sh) [0..<320]) = map group_start [0..<10]"
    using dedup_blocks[of 10 group_start] group_start_inj by simp
qed

text \<open>C13: The repository's \<^verbatim>\<open>test_recover_shreds\<close> passes with every shredder and erasure code that behave as
documented: with all shreds nothing is recovered, with every third shred lost something is, and in both
runs exactly the entries of all ten groups are delivered and one slot is tracked.\<close>

theorem test_recover_shreds_passes:
  assumes L: "ledger_ok L" and g: "\<forall>i < 10. group_ok L shredder slot sh cs (groups ! i) i" and n: "length groups = 10"
    and copy: "copy_ok L copy (set (test_shreds sh cs))"
  shows "test_recover_shreds L shredder copy groups"
proof -
  let ?xs = "test_shreds sh cs" and ?ys = "nths (test_shreds sh cs) kept"
  have len: "\<forall>i < 10. length (cs i) = 32" using g by (simp add: group_ok_def)
  note all = set_test_shreds[OF len, of sh]
  have full: "\<forall>i < 10. full_set sh (test_layout cs) (set ?xs) (group_start i)"
    unfolding all by (auto simp: full_set_def layout_shreds_def set_shreds_def test_layout_def)
  obtain k m where r1: "recover_run L (map copy ?xs) (ShredMetrics_new False) = Some ((k, length (concat groups), 1), m)"
    "k = 0" using recover_run_delivers[OF L g n copy eq_refl[OF all]] full by blast
  have copy': "copy_ok L copy (set ?ys)" using copy set_nths_subset[of ?xs kept] by (auto simp: copy_ok_def)
  have sub: "set ?ys \<subseteq> layout_shreds sh (test_layout cs)" using set_nths_subset[of ?xs kept] all by blast
  obtain k' m' where r2: "recover_run L (map copy ?ys) m = Some ((k', length (concat groups), 1), m')" "0 < k'"
    using recover_run_delivers[OF L g n copy' sub, of m] third_lost_recoverable[OF g] third_lost_part[OF g] by auto
  have "length (remdups_adj (map shred_fec_set_index (map sh [0..<320]))) = 10" using test_groups(2)[OF g n] by simp
  then show ?thesis using r1 r2 n test_groups(1)[OF g n] unfolding test_shreds_def
    by (simp add: test_recover_shreds_def nths_map[symmetric] del: map_append)
qed

section \<open>An instance\<close>

text \<open>Ten groups of slot 11111; a packet holds the kind, the group and the position in it.\<close>

definition tl_header :: "nat \<Rightarrow> nat \<Rightarrow> ShredVariant \<Rightarrow> shred_common_header" where
  "tl_header g k v = \<lparr>ch_slot = 11111, ch_index = of_nat (32 * g + k), ch_fec_set_index = group_start g,
     ch_shred_variant = v, ch_other = []\<rparr>"

definition tl_data :: "nat \<Rightarrow> shred" where
  "tl_data j = ShredData \<lparr>sd_common_header = tl_header (j div 32) (j mod 32) (OtherVariant []), sd_data_header = [],
     sd_data_complete = (j mod 32 = 31), sd_last_in_slot = False, sd_payload = [of_nat (j div 32)]\<rparr>"

definition tl_code :: "nat \<Rightarrow> nat \<Rightarrow> shred" where
  "tl_code g k = ShredCode \<lparr>sc_common_header = tl_header g k (MerkleCode 6 True False),
     sc_coding_header = \<lparr>num_data_shreds = 32, num_coding_shreds = 32, cod_other = []\<rparr>, sc_payload = [of_nat g, of_nat k]\<rparr>"

definition tl_codes :: "nat \<Rightarrow> shred list" where
  "tl_codes g = map (tl_code g) [0..<32]"

definition tl_shredder :: "entry list \<Rightarrow> u32 \<Rightarrow> u32 \<Rightarrow> shred list \<times> shred list" where
  "tl_shredder e i j = (map tl_data [unat i..<unat i + 32], tl_codes (unat i div 32))"

definition tl_groups :: "entry list list" where
  "tl_groups = map (\<lambda>g. replicate 10 \<lparr>transactions = [[of_nat g]]\<rparr>) [0..<10]"

definition tl_copy :: "shred \<Rightarrow> packet" where
  "tl_copy x = \<lparr>pk_buffer = [if is_data x then 0 else 1, of_nat (unat (shred_fec_set_index x) div 32),
     of_nat (unat (shred_index x) mod 32)], pk_size = 3, pk_addr = V4 0, pk_discard = False\<rparr>"

definition tl_decode :: "bytes \<Rightarrow> err + shred" where
  "tl_decode b = (if length b = 3 \<and> unat (b ! 1) < 10 \<and> unat (b ! 2) < 32
     then Inr (if b ! 0 = 0 then tl_data (32 * unat (b ! 1) + unat (b ! 2)) else tl_code (unat (b ! 1)) (unat (b ! 2)))
     else Inl ''size'')"

definition tl_recover :: "shred list \<Rightarrow> err + (err + shred) list" where
  "tl_recover xs = (case filter (\<lambda>x. \<not> is_data x) xs of [] \<Rightarrow> Inl ''no coding shred''
     | c # _ \<Rightarrow> (let g = unat (shred_fec_set_index c) div 32 in
         if g < 10 \<and> (\<forall>x\<in>set xs. shred_slot x = 11111 \<and> shred_fec_set_index x = group_start g)
         then Inr (map (Inr \<circ> tl_data) [32 * g..<32 * g + 32]) else Inl ''mixed batch''))"

definition tl_ledger :: ledger where
  "tl_ledger = ex_ledger\<lparr>MAX_DATA_SHREDS_PER_SLOT := 320, CODE_SIZE_OF_PAYLOAD := 2, decode_shred := tl_decode,
     recover := tl_recover, deshred := (\<lambda>ps. Inr (take 1 (concat ps))),
     deserialize_entries := (\<lambda>p. Inr (replicate 10 \<lparr>transactions = [p]\<rparr>))\<rparr>"

lemma unat_tl_index: "g < 10 \<Longrightarrow> k < 32 \<Longrightarrow> unat (of_nat (32 * g + k) :: u32) = 32 * g + k"
  by (simp add: unsigned_of_nat take_bit_nat_eq_self del: of_nat_add of_nat_mult)

lemma tl_data_simps:
  assumes "j < 320"
  shows "is_data (tl_data j)" "shred_slot (tl_data j) = 11111" "shred_fec_set_index (tl_data j) = group_start (j div 32)"
    "unat (shred_index (tl_data j)) = j" "completes (tl_data j) \<longleftrightarrow> j mod 32 = 31" "shred_ok tl_ledger (tl_data j)"
    "shred_payload (tl_data j) = [of_nat (j div 32)]"
proof -
  have g: "j div 32 < 10" using assms by simp
  have u: "unat (of_nat j :: u32) = j" using unat_tl_index[OF g, of "j mod 32"] by simp
  show "is_data (tl_data j)" "shred_slot (tl_data j) = 11111" "shred_fec_set_index (tl_data j) = group_start (j div 32)"
    "unat (shred_index (tl_data j)) = j" "completes (tl_data j) \<longleftrightarrow> j mod 32 = 31" "shred_payload (tl_data j) = [of_nat (j div 32)]"
    using u by (simp_all add: tl_data_def tl_header_def)
  show "shred_ok tl_ledger (tl_data j)" using u g assms
    by (simp add: tl_data_def tl_header_def tl_ledger_def ex_ledger_def word_le_nat_alt)
qed

lemma tl_code_simps:
  assumes "g < 10" "k < 32"
  shows "\<not> is_data (tl_code g k)" "shred_slot (tl_code g k) = 11111" "shred_fec_set_index (tl_code g k) = group_start g"
    "unat (shred_index (tl_code g k)) = 32 * g + k" "shred_ok tl_ledger (tl_code g k)"
proof -
  note u = unat_tl_index[OF assms]
  show "\<not> is_data (tl_code g k)" "shred_slot (tl_code g k) = 11111" "shred_fec_set_index (tl_code g k) = group_start g"
    "unat (shred_index (tl_code g k)) = 32 * g + k"
    using u by (simp_all add: tl_code_def tl_header_def del: of_nat_add of_nat_mult)
  show "shred_ok tl_ledger (tl_code g k)" using u assms
    by (auto simp: tl_code_def tl_header_def tl_ledger_def simp del: of_nat_add of_nat_mult)
qed

lemma tl_ledger_ok: "ledger_ok tl_ledger"
proof -
  have "shred_ok tl_ledger s" if "tl_decode b = Inr s" for b s
    using that tl_data_simps(6)[of "32 * unat (b ! 1) + unat (b ! 2)"] tl_code_simps(5)
    by (auto simp: tl_decode_def split: if_splits)
  then have "decode_ok tl_ledger" by (simp add: decode_ok_def) (simp add: tl_ledger_def)
  moreover have "shred_ok tl_ledger s \<and> (\<forall>x\<in>set xs. shred_slot x = shred_slot s \<and> shred_fec_set_index x = shred_fec_set_index s)"
    if r: "tl_recover xs = Inr ys" "Inr s \<in> set ys" for xs ys s
  proof -
    obtain g j where g: "g < 10" "s = tl_data j" "32 * g \<le> j" "j < 32 * g + 32"
      and x: "\<forall>x\<in>set xs. shred_slot x = 11111 \<and> shred_fec_set_index x = group_start g"
      using r by (auto simp: tl_recover_def Let_def split: list.splits if_splits)
    then have "j < 320" "j div 32 = g" by auto
    then show ?thesis using tl_data_simps[of j] g(2) x by simp
  qed
  then have "recover_ok tl_ledger" by (simp add: recover_ok_def) (simp add: tl_ledger_def)
  moreover have "type_ok tl_ledger" "order_ok tl_ledger"
    using ex_ledger_ok by (simp_all add: ledger_ok_def type_ok_def order_ok_def tl_ledger_def)
  ultimately show ?thesis by (simp add: ledger_ok_def)
qed

lemma tl_group_ok:
  assumes g: "g < 10"
  shows "group_ok tl_ledger tl_shredder 11111 tl_data tl_codes (tl_groups ! g) g"
proof -
  have codes: "set (tl_codes g) = tl_code g ` {..<32}" by (auto simp: tl_codes_def)
  have inj: "x = y" if xy: "x \<in> set (tl_codes g)" "y \<in> set (tl_codes g)" "shred_index x = shred_index y" for x y
  proof -
    obtain k l where "k < 32" "x = tl_code g k" "l < 32" "y = tl_code g l" using xy unfolding codes by blast
    then show ?thesis using tl_code_simps(4)[OF g] xy(3) by (metis add_left_cancel)
  qed
  have block: "j < 320 \<and> j div 32 = g \<and> (j mod 32 = 31 \<longleftrightarrow> j = 32 * g + 31)" if "32 * g \<le> j" "j \<le> 32 * g + 31" for j
  proof -
    have "j div 32 = g" using that by auto
    moreover from this have "j = 32 * g + j mod 32" using mult_div_mod_eq[of 32 j] by simp
    ultimately show ?thesis using that g by linarith
  qed
  have whole: "whole_fec_set tl_ledger tl_data 11111 (group_start g) (32 * g + 31)"
    using g block tl_data_simps by (auto simp: whole_fec_set_def tl_ledger_def[THEN arg_cong[of _ _ MAX_DATA_SHREDS_PER_SLOT]])
  have coded: "coded_fec_set tl_ledger tl_data (set (tl_codes g)) 11111 (group_start g) (32 * g + 31) 32"
    unfolding coded_fec_set_def
  proof (intro conjI ballI allI impI whole)
    fix x assume "x \<in> set (tl_codes g)"
    then show "\<not> is_data x" "shred_ok tl_ledger x" "shred_slot x = 11111" "shred_fec_set_index x = group_start g"
      using tl_code_simps[OF g] by (auto simp: codes)
  next
    fix c assume "ShredCode c \<in> set (tl_codes g)"
    then show "num_data_shreds (sc_coding_header c) = of_nat (Suc (32 * g + 31 - unat (group_start g)))"
      "num_coding_shreds (sc_coding_header c) = 32" using g by (auto simp: codes tl_code_def)
  next
    fix x y assume xy: "x \<in> set (tl_codes g)" "y \<in> set (tl_codes g)" "comparable_eq tl_ledger x y = Some True"
    then have "shred_ok tl_ledger x" "shred_ok tl_ledger y" using tl_code_simps(5)[OF g] by (auto simp: codes)
    then show "x = y" using comparable_common(2)[OF _ _ xy(3)] inj[OF xy(1,2)] by simp
  qed
  have erasure: "erasure_ok tl_ledger tl_data (set (tl_codes g)) (group_start g) (32 * g + 31)"
    unfolding erasure_ok_def
  proof (intro allI impI)
    fix xs assume xs: "distinct xs \<and> set xs \<subseteq> tl_data ` {unat (group_start g)..32 * g + 31} \<union> set (tl_codes g) \<and>
      Suc (32 * g + 31) - unat (group_start g) \<le> length xs \<and> set xs \<inter> set (tl_codes g) \<noteq> {}"
    have all: "shred_slot x = 11111 \<and> shred_fec_set_index x = group_start g" if "x \<in> set xs" for x
      using that xs g block tl_data_simps tl_code_simps[OF g] by (auto simp: codes dest!: subsetD)
    have "\<exists>x\<in>set xs. \<not> is_data x" using xs tl_code_simps(1)[OF g] by (auto simp: codes)
    then obtain c cs where c: "filter (\<lambda>x. \<not> is_data x) xs = c # cs" by (cases "filter (\<lambda>x. \<not> is_data x) xs") (auto simp: filter_empty_conv)
    then have "c \<in> set xs" by (metis filter_is_subset list.set_intros(1) subsetD)
    then have "tl_recover xs = Inr (map (Inr \<circ> tl_data) [32 * g..<32 * g + 32])"
      using all c g by (simp add: tl_recover_def Let_def)
    then show "\<exists>rs. recover tl_ledger xs = Inr rs \<and>
       (\<forall>j\<in>{unat (group_start g)..32 * g + 31}. tl_data j \<notin> set xs \<longrightarrow> Inr (tl_data j) \<in> set rs) \<and>
       (\<forall>s. Inr s \<in> set rs \<longrightarrow> is_data s \<longrightarrow> s \<in> tl_data ` {unat (group_start g)..32 * g + 31})"
      using g by (auto simp: tl_ledger_def)
  qed
  have "map (\<lambda>j. shred_payload (tl_data j)) [32 * g..<32 * g + 32] = replicate 32 [of_nat g]"
    using block tl_data_simps(7) by (intro nth_equalityI) auto
  then have "deshred tl_ledger (map (\<lambda>j. shred_payload (tl_data j)) [32 * g..<32 * g + 32]) = Inr [of_nat g]"
    by (simp add: tl_ledger_def numeral_eq_Suc del: upt_Suc)
  moreover have "deserialize_entries tl_ledger [of_nat g] = Inr (tl_groups ! g)" using g by (simp add: tl_ledger_def tl_groups_def)
  moreover have "distinct (tl_codes g)" "length (tl_codes g) = 32"
    using tl_code_simps(4)[OF g] by (auto simp: tl_codes_def distinct_map inj_on_def) (metis add_left_cancel)
  moreover have "completes (tl_data (32 * g + 31))" using tl_data_simps(5)[of "32 * g + 31"] g by simp
  ultimately show ?thesis using coded erasure g by (simp add: group_ok_def tl_shredder_def)
qed

lemma tl_copy_ok: "copy_ok tl_ledger tl_copy (set (test_shreds tl_data tl_codes))"
proof -
  have small: "n < 32 \<Longrightarrow> unat (of_nat n :: u8) = n" for n by (simp add: unsigned_of_nat take_bit_nat_eq_self)
  have data: "tl_decode (pk_buffer (tl_copy (tl_data j))) = Inr (tl_data j)" if "j < 320" for j
  proof -
    have "j div 32 < 10" using that by simp
    then show ?thesis using tl_data_simps(1,3,4)[OF that] small[of "j div 32"] small[of "j mod 32"]
      by (simp add: tl_copy_def tl_decode_def)
  qed
  have code: "tl_decode (pk_buffer (tl_copy (tl_code g k))) = Inr (tl_code g k)" if "g < 10" "k < 32" for g k
    using that tl_code_simps(1,3,4)[OF that] small[of g] small[of k] by (simp add: tl_copy_def tl_decode_def)
  have "packet_data tl_ledger (tl_copy x) = Some (pk_buffer (tl_copy x))" for x
    by (simp add: tl_ledger_def ex_ledger_def tl_copy_def)
  then show ?thesis using data code
    by (auto simp: copy_ok_def test_shreds_def tl_codes_def) (simp_all add: tl_ledger_def)
qed

theorem test_recover_shreds_passes_witness: "test_recover_shreds tl_ledger tl_shredder tl_copy tl_groups"
  using test_recover_shreds_passes[OF tl_ledger_ok _ _ tl_copy_ok, of tl_shredder 11111 tl_groups] tl_group_ok
  by (simp add: tl_groups_def)

end
