(* ===== verification/Live_Test.thy ===== *)
theory Live_Test
  imports Slot_Stream Forwarder
begin

text \<open>
  The tests on recorded packets (\<^verbatim>\<open>proxy/src/deshred.rs\<close>, \<^verbatim>\<open>test_reconstruct_live_shreds\<close> and
  \<^verbatim>\<open>test_reconstruct_live_data_complete_shred\<close>), the tool that records them and the one that prints what
  was rebuilt. The recordings are not part of the repository, so the contents of the file are an argument.
\<close>

section \<open>Third-party interface\<close>

text \<open>
  The functions that only the tests call: \<^verbatim>\<open>borsh\<close> on \<^verbatim>\<open>Packets\<close>, the decoding of a Merkle shred
  from its payload, and the size of the buffer of a packet.
\<close>

record Packets =
  pks_packets :: "bytes list"

record test_lib =
  borsh_to_vec :: "Packets \<Rightarrow> err + bytes"
  try_from_slice :: "bytes \<Rightarrow> err + Packets"
  from_payload :: "bytes \<Rightarrow> err + shred"
  PACKET_DATA_SIZE :: nat

text \<open>Documented: what \<^verbatim>\<open>borsh\<close> writes it reads back; a decoded shred is sanitized.\<close>

definition borsh_ok :: "test_lib \<Rightarrow> bool" where
  "borsh_ok T \<longleftrightarrow> (\<forall>v b. borsh_to_vec T v = Inr b \<longrightarrow> try_from_slice T b = Inr v)"

definition from_payload_ok :: "ledger \<Rightarrow> test_lib \<Rightarrow> bool" where
  "from_payload_ok L T \<longleftrightarrow> (\<forall>b s. from_payload T b = Inr s \<longrightarrow> shred_ok L s)"

section \<open>Recording packets\<close>

text \<open>
  A result of \<^verbatim>\<open>recv_from\<close> is an error or a datagram, of which the buffer takes 1500 bytes. The counter \<open>i\<close>
  is raised first; every size is counted by the entry and again by \<^verbatim>\<open>get_mut\<close>.
\<close>

record recorder =
  rd_i :: nat
  rd_map :: "(nat \<times> nat) list"
  rd_vec :: Packets

definition count_size :: "nat \<Rightarrow> (nat \<times> nat) list \<Rightarrow> (nat \<times> nat) list" where
  "count_size amt m =
     (let m = (case map_of m amt of Some n \<Rightarrow> AList.update amt (n + 1) m | None \<Rightarrow> AList.update amt 1 m)
      in (case map_of m amt of Some n \<Rightarrow> AList.update amt (n + 1) m | None \<Rightarrow> m))"

definition record_step :: "err + bytes \<Rightarrow> recorder \<Rightarrow> recorder" where
  "record_step res r =
     (let r = r\<lparr>rd_i := rd_i r + 1\<rparr> in
      case res of Inl e \<Rightarrow> r
      | Inr datagram \<Rightarrow>
          (let amt = min 1500 (length datagram) in
           r\<lparr>rd_vec := \<lparr>pks_packets = pks_packets (rd_vec r) @ [take amt datagram]\<rparr>,
             rd_map := count_size amt (rd_map r)\<rparr>))"

definition RECORD_EVERY :: nat where
  "RECORD_EVERY = 50000"

text \<open>\<open>None\<close>: the results are used up and the loop waits for the next datagram.\<close>

fun record_loop :: "(err + bytes) list \<Rightarrow> recorder \<Rightarrow> recorder option" where
  "record_loop [] r = None"
| "record_loop (res # results) r =
     (let r = record_step res r in
      if rd_i r mod RECORD_EVERY = 0 then Some r else record_loop results r)"

definition new_recorder :: recorder where
  "new_recorder = \<lparr>rd_i = 0, rd_map = [], rd_vec = \<lparr>pks_packets = []\<rparr>\<rparr>"

text \<open>What the operating system answers; the result is an error or the contents of the file.\<close>

record disk =
  dk_bind :: "err + unit"
  dk_local_addr :: "err + unit"
  dk_create :: "err + unit"
  dk_write_all :: "err + unit"

definition listen_and_write_shreds :: "test_lib \<Rightarrow> disk \<Rightarrow> (err + bytes) list \<Rightarrow> (err + bytes) option" where
  "listen_and_write_shreds T D results = (case dk_bind D of Inl e \<Rightarrow> Some (Inl e) | Inr _ \<Rightarrow>
     (case dk_local_addr D of Inl e \<Rightarrow> Some (Inl e) | Inr _ \<Rightarrow> do {
        r \<leftarrow> record_loop results new_recorder;
        Some (case dk_create D of Inl e \<Rightarrow> Inl e | Inr _ \<Rightarrow>
          (case borsh_to_vec T (rd_vec r) of Inl e \<Rightarrow> Inl e | Inr b \<Rightarrow>
            (case dk_write_all D of Inl e \<Rightarrow> Inl e | Inr _ \<Rightarrow> Inr b))) }))"

section \<open>The tests\<close>

text \<open>\<^verbatim>\<open>unwrap\<close> on opening, reading and parsing the file.\<close>

definition load_packets :: "test_lib \<Rightarrow> err + bytes \<Rightarrow> Packets option" where
  "load_packets T contents = (case contents of Inl _ \<Rightarrow> None
     | Inr buffer \<Rightarrow> (case try_from_slice T buffer of Inl _ \<Rightarrow> None | Inr v \<Rightarrow> Some v))"

definition payload_shreds :: "test_lib \<Rightarrow> bytes list \<Rightarrow> shred list" where
  "payload_shreds T xs = List.map_filter (\<lambda>p. case from_payload T p of Inl _ \<Rightarrow> None | Inr s \<Rightarrow> Some s) xs"

text \<open>The numbers of packets, of shreds, of different shreds and of different headers.\<close>

definition live_counts :: "ledger \<Rightarrow> test_lib \<Rightarrow> bytes list \<Rightarrow> (nat \<times> nat \<times> nat \<times> nat) option" where
  "live_counts L T xs = (let shreds = payload_shreds T xs in do {
     unique_shreds \<leftarrow> foldM (hs_insert (comparable_eq L)) shreds [];
     Some (length xs, length shreds, length unique_shreds, length (remdups (map common_header shreds))) })"

text \<open>\<^verbatim>\<open>buffer_mut()[..x.len()].copy_from_slice(x)\<close> panics when the buffer is shorter.\<close>

definition make_packet :: "test_lib \<Rightarrow> bytes \<Rightarrow> packet option" where
  "make_packet T x = (if length x \<le> PACKET_DATA_SIZE T
     then Some \<lparr>pk_buffer = x @ replicate (PACKET_DATA_SIZE T - length x) 0, pk_size = length x,
                pk_addr = V4 0, pk_discard = False\<rparr>
     else None)"

record live_output =
  lo_recovered :: nat
  lo_entries :: "(u64 \<times> entry list \<times> bytes) list"
  lo_slots :: nat

definition live_run :: "ledger \<Rightarrow> test_lib \<Rightarrow> bytes list \<Rightarrow> ShredMetrics \<Rightarrow> (live_output \<times> ShredMetrics) option" where
  "live_run L T xs metrics = do {
     packets \<leftarrow> those (map (make_packet T) xs);
     (st, recovered_count, _) \<leftarrow> reconstruct_shreds L packets ((initial_recon False)\<lparr>rc_metrics := metrics\<rparr>);
     Some (\<lparr>lo_recovered = recovered_count, lo_entries = deshredded_entries st, lo_slots = length (all_shreds st)\<rparr>,
           rc_metrics st) }"

definition entry_count :: "live_output \<Rightarrow> nat" where
  "entry_count x = sum_list (map (\<lambda>(slot, entries, entries_bytes). length entries) (lo_entries x))"

definition slot_to_entry_len :: "live_output \<Rightarrow> nat" where
  "slot_to_entry_len x = length (remdups (map fst (lo_entries x)))"

definition two_thirds :: "'a list \<Rightarrow> 'a list" where
  "two_thirds xs = nths xs {index. (index + 1) mod 3 \<noteq> 0}"

text \<open>The numbers that a test asserts.\<close>

record expected =
  want_counts :: "nat \<times> nat \<times> nat \<times> nat"
  want_entries :: nat
  want_tracked :: nat
  want_slots :: nat

definition live_test :: "ledger \<Rightarrow> test_lib \<Rightarrow> expected \<Rightarrow> err + bytes \<Rightarrow> bool" where
  "live_test L T want contents = (case load_packets T contents of None \<Rightarrow> False | Some v \<Rightarrow>
     live_counts L T (pks_packets v) = Some (want_counts want) \<and>
     (case live_run L T (pks_packets v) (ShredMetrics_new False) of None \<Rightarrow> False
      | Some (x, metrics) \<Rightarrow>
          lo_recovered x < length (lo_entries x) \<and> entry_count x = want_entries want \<and>
          lo_slots x = want_tracked want \<and> slot_to_entry_len x = want_slots want \<and>
          (case live_run L T (two_thirds (pks_packets v)) metrics of None \<Rightarrow> False
           | Some (y, _) \<Rightarrow>
               lo_recovered y > length (lo_entries y) div 4 \<and> entry_count y = want_entries want \<and>
               lo_slots y > 15 \<and> slot_to_entry_len y = want_slots want)))"

definition test_reconstruct_live_shreds :: "ledger \<Rightarrow> test_lib \<Rightarrow> err + bytes \<Rightarrow> bool" where
  "test_reconstruct_live_shreds L T contents = live_test L T
     \<lparr>want_counts = (50000, 49989, 44900, 44900), want_entries = 13580, want_tracked = 30, want_slots = 29\<rparr> contents"

definition test_reconstruct_live_data_complete_shred :: "ledger \<Rightarrow> test_lib \<Rightarrow> err + bytes \<Rightarrow> bool" where
  "test_reconstruct_live_data_complete_shred L T contents = live_test L T
     \<lparr>want_counts = (150000, 149977, 109221, 109221), want_entries = 43170, want_tracked = 61, want_slots = 61\<rparr> contents"

section \<open>Printing what was rebuilt\<close>

text \<open>
  \<open>grouped\<close> is \<^verbatim>\<open>into_group_map_by\<close> on the slot, followed by an iteration over the map it returns, in
  whatever order; \<open>signatures\<close> are those of a transaction. \<^verbatim>\<open>signatures[0]\<close> panics when there is none.
\<close>

definition grouping_ok :: "((u64 \<times> 'a) list \<Rightarrow> (u64 \<times> (u64 \<times> 'a) list) list) \<Rightarrow> bool" where
  "grouping_ok grouped \<longleftrightarrow> (\<forall>xs. distinct (map fst (grouped xs)) \<and>
     set (grouped xs) = (\<lambda>k. (k, filter (\<lambda>x. fst x = k) xs)) ` fst ` set xs)"

definition first_signatures :: "(bytes \<Rightarrow> 'sig list) \<Rightarrow> entry list \<Rightarrow> 'sig list option" where
  "first_signatures signatures entries = those (map (\<lambda>x. vec_get (signatures x) 0) (concat (map transactions entries)))"

fun dedup_by_key :: "('k \<times> 'a) list \<Rightarrow> ('k \<times> 'a) list" where
  "dedup_by_key (x # y # xs) = (if fst x = fst y then dedup_by_key (x # xs) else x # dedup_by_key (y # xs))"
| "dedup_by_key xs = xs"

definition debug_entries ::
  "((u64 \<times> entry list) list \<Rightarrow> (u64 \<times> (u64 \<times> entry list) list) list) \<Rightarrow> (bytes \<Rightarrow> ('sig :: linorder) list) \<Rightarrow>
   (u64 \<times> entry list \<times> bytes) list \<Rightarrow> (u64 \<times> 'sig list) list option" where
  "debug_entries grouped signatures deshredded = do {
     let groups = grouped (map (\<lambda>(slot, entries, _). (slot, entries)) deshredded);
     let merged = map (\<lambda>(key, values). (key, fold (\<lambda>(_, v) acc. acc @ v) values [])) groups;
     entries \<leftarrow> those (map (\<lambda>(slot, entries). do {
                  vec \<leftarrow> first_signatures signatures entries;
                  Some (slot, sort_dedup vec) }) merged);
     Some (dedup_by_key (sort_key fst entries)) }"

text \<open>The text that is written; \<^verbatim>\<open>unwrap\<close> on creating and writing the file.\<close>

definition debug_to_disk ::
  "((u64 \<times> entry list) list \<Rightarrow> (u64 \<times> (u64 \<times> entry list) list) list) \<Rightarrow> (bytes \<Rightarrow> ('sig :: linorder) list) \<Rightarrow>
   ((u64 \<times> 'sig list) list \<Rightarrow> string) \<Rightarrow> disk \<Rightarrow> (u64 \<times> entry list \<times> bytes) list \<Rightarrow> string option" where
  "debug_to_disk grouped signatures fmt D deshredded = do {
     entries \<leftarrow> debug_entries grouped signatures deshredded;
     case dk_create D of Inl _ \<Rightarrow> None | Inr _ \<Rightarrow>
       (case dk_write_all D of Inl _ \<Rightarrow> None | Inr _ \<Rightarrow> Some (''entries: '' @ fmt entries)) }"

section \<open>What the recording holds\<close>

lemma count_size: "map_of (count_size amt m) = (map_of m)(amt \<mapsto> (case map_of m amt of None \<Rightarrow> 2 | Some n \<Rightarrow> n + 2))"
  by (cases "map_of m amt") (auto simp: count_size_def Let_def update_conv')

definition datagrams :: "(err + bytes) list \<Rightarrow> bytes list" where
  "datagrams results = List.map_filter (\<lambda>res. case res of Inl _ \<Rightarrow> None | Inr d \<Rightarrow> Some (take 1500 d)) results"

lemma record_step_fields:
  "rd_i (record_step res r) = rd_i r + 1"
  "pks_packets (rd_vec (record_step res r)) = pks_packets (rd_vec r) @ datagrams [res]"
  by (auto simp: record_step_def Let_def datagrams_def List.map_filter_simps min_def split: sum.splits)

lemma datagrams_Cons: "datagrams (res # results) = datagrams [res] @ datagrams results"
  by (cases res) (simp_all add: datagrams_def List.map_filter_simps)

lemma record_steps:
  "rd_i (fold record_step results r) = rd_i r + length results"
  "pks_packets (rd_vec (fold record_step results r)) = pks_packets (rd_vec r) @ datagrams results"
proof (induction results arbitrary: r)
  case (Cons res results)
  { case 1 then show ?case using Cons by (simp add: record_step_fields) }
  { case 2 then show ?case using Cons by (simp add: record_step_fields datagrams_Cons[of res results]) }
qed (simp_all add: datagrams_def List.map_filter_simps)

lemma record_loop_eq:
  assumes "rd_i r < RECORD_EVERY"
  shows "record_loop results r = (if RECORD_EVERY - rd_i r \<le> length results
     then Some (fold record_step (take (RECORD_EVERY - rd_i r) results) r) else None)"
  using assms
proof (induction results arbitrary: r)
  case (Cons res results)
  let ?r = "record_step res r"
  have i: "rd_i ?r = Suc (rd_i r)" by (simp add: record_step_fields)
  show ?case
  proof (cases "Suc (rd_i r) = RECORD_EVERY")
    case True
    then have "RECORD_EVERY - rd_i r = 1" by simp
    then show ?thesis using True i by simp
  next
    case False
    then have n: "Suc (rd_i r) < RECORD_EVERY" using Cons.prems by simp
    then have k: "RECORD_EVERY - rd_i r = Suc (RECORD_EVERY - Suc (rd_i r))" by simp
    have "record_loop (res # results) r = record_loop results ?r" using n i by simp
    then show ?thesis using Cons.IH[of ?r] n i by (simp add: k)
  qed
qed simp

text \<open>Every size is counted twice: the entry sets or raises the count, and \<^verbatim>\<open>get_mut\<close> raises it again.\<close>

lemma sizes_counted_twice:
  "map_of (rd_map (fold record_step results new_recorder)) n =
    (let k = length (filter (\<lambda>p. length p = n) (datagrams results)) in if k = 0 then None else Some (2 * k))"
proof (induction results rule: rev_induct)
  case Nil
  then show ?case by (simp add: new_recorder_def datagrams_def List.map_filter_simps)
next
  case (snoc res results)
  have "datagrams (results @ [res]) = datagrams results @ datagrams [res]"
    by (simp add: datagrams_def List.map_filter_def)
  moreover have "min 1500 (length d) = length (take 1500 d)" for d :: bytes by simp
  ultimately show ?case using snoc
    by (cases res) (auto simp: record_step_def Let_def count_size datagrams_def List.map_filter_simps)
qed

text \<open>The recorder returns after 50000 calls of \<^verbatim>\<open>recv_from\<close>, failed ones included, and what it wrote is what
the tests read: the datagrams in the order they arrived, cut at 1500 bytes.\<close>

lemma recorded_replays:
  assumes "borsh_ok T" "listen_and_write_shreds T D results = Some (Inr file)"
  shows "50000 \<le> length results \<and> load_packets T (Inr file) = Some \<lparr>pks_packets = datagrams (take 50000 results)\<rparr>"
proof -
  have loop: "record_loop results new_recorder = (if 50000 \<le> length results
      then Some (fold record_step (take 50000 results) new_recorder) else None)"
    by (subst record_loop_eq) (simp_all add: new_recorder_def RECORD_EVERY_def)
  obtain r where r: "record_loop results new_recorder = Some r" "borsh_to_vec T (rd_vec r) = Inr file"
    using assms(2) by (auto simp: listen_and_write_shreds_def split: sum.splits Option.bind_splits)
  then have n: "50000 \<le> length results" "r = fold record_step (take 50000 results) new_recorder"
    using loop by (auto split: if_splits)
  have "rd_vec r = \<lparr>pks_packets = datagrams (take 50000 results)\<rparr>"
    unfolding n(2) by (rule Packets.equality) (simp_all add: record_steps(2) new_recorder_def)
  then show ?thesis using assms(1) r(2) n(1) by (simp add: borsh_ok_def load_packets_def)
qed


section \<open>What the tests count\<close>

lemma hash_input_header: "hash_input a = hash_input b \<Longrightarrow> common_header a = common_header b"
  by (cases a; cases b) auto

lemma collected:
  assumes "\<forall>x\<in>set xs. shred_ok L x" "\<forall>y\<in>set ys. shred_ok L y"
  shows "\<exists>zs. foldM (hs_insert (comparable_eq L)) xs ys = Some zs \<and> length zs \<le> length xs + length ys \<and>
     common_header ` set zs = common_header ` (set xs \<union> set ys)"
  using assms
proof (induction xs arbitrary: ys)
  case (Cons x xs)
  let ?old = "\<exists>y\<in>set ys. comparable_eq L x y = Some True"
  have ins: "hs_insert (comparable_eq L) x ys = Some (if ?old then ys else ys @ [x])"
    using shred_key.member_eq[of L x ys] Cons.prems by (simp add: hs_insert_def)
  have "common_header x \<in> common_header ` set ys" if ?old
  proof -
    from that obtain y where y: "y \<in> set ys" "comparable_eq L x y = Some True" by blast
    then have "hash_input x = hash_input y" using Cons.prems comparable_eq_iff[of L x y] by simp
    then show ?thesis using y(1) hash_input_header by blast
  qed
  then have h: "common_header ` set (if ?old then ys else ys @ [x]) = insert (common_header x) (common_header ` set ys)" by auto
  have "\<forall>y\<in>set (if ?old then ys else ys @ [x]). shred_ok L y" using Cons.prems by auto
  from Cons.IH[OF _ this] Cons.prems obtain zs where
    zs: "foldM (hs_insert (comparable_eq L)) xs (if ?old then ys else ys @ [x]) = Some zs"
    "length zs \<le> length xs + length (if ?old then ys else ys @ [x])"
    "common_header ` set zs = common_header ` (set xs \<union> set (if ?old then ys else ys @ [x]))" by auto
  have "length zs \<le> length (x # xs) + length ys" using zs(2) by (simp split: if_splits)
  moreover have "common_header ` set zs = common_header ` (set (x # xs) \<union> set ys)"
    using zs(3) h by (simp add: image_Un Un_insert_right)
  ultimately show ?case using zs(1) ins by simp
qed simp

text \<open>Counting never panics, and the numbers it compares are ordered.\<close>

lemma live_counts_ordered:
  assumes "from_payload_ok L T"
  shows "\<exists>packets shreds unique headers. live_counts L T xs = Some (packets, shreds, unique, headers) \<and>
     headers \<le> unique \<and> unique \<le> shreds \<and> shreds \<le> packets"
proof -
  let ?s = "payload_shreds T xs"
  have "\<forall>x\<in>set ?s. shred_ok L x"
    using assms by (auto simp: payload_shreds_def from_payload_ok_def List.map_filter_def split: sum.splits)
  then obtain zs where zs: "foldM (hs_insert (comparable_eq L)) ?s [] = Some zs" "length zs \<le> length ?s"
    "common_header ` set zs = common_header ` set ?s" using collected[of ?s L "[]"] by auto
  have "length (remdups (map common_header ?s)) = card (common_header ` set zs)"
    by (simp add: length_remdups_card_conv zs(3))
  also have "\<dots> \<le> length zs" using card_image_le[of "set zs"] card_length[of zs] by (meson List.finite_set le_trans)
  finally have "length (remdups (map common_header ?s)) \<le> length zs" .
  moreover have "length ?s \<le> length xs" by (simp add: payload_shreds_def List.map_filter_def)
  ultimately show ?thesis using zs(1,2) by (simp add: live_counts_def Let_def)
qed

section \<open>The two runs\<close>

definition decoded :: "ledger \<Rightarrow> bytes list \<Rightarrow> shred list" where
  "decoded L xs = List.map_filter (\<lambda>b. case decode_shred L b of Inl _ \<Rightarrow> None | Inr s \<Rightarrow> Some s) xs"

lemma packets_made:
  assumes "packet_ok L" "\<forall>x\<in>set xs. length x \<le> PACKET_DATA_SIZE T"
  shows "\<exists>packets. those (map (make_packet T) xs) = Some packets \<and> shreds_of L packets = decoded L xs"
proof -
  have "\<exists>packets. those (map (make_packet T) xs) = Some packets \<and> List.map_filter (packet_data L) packets = xs"
    using assms by (induction xs) (auto simp: make_packet_def List.map_filter_simps packet_ok_def)
  then show ?thesis by (auto simp: shreds_of_def decoded_def)
qed

lemma live_run_total:
  assumes "ledger_ok L" "packet_ok L" "\<forall>x\<in>set xs. length x \<le> PACKET_DATA_SIZE T"
  shows "\<exists>x m'. live_run L T xs m = Some (x, m')"
proof -
  obtain packets where "those (map (make_packet T) xs) = Some packets" using packets_made[OF assms(2,3)] by blast
  moreover have "recon_inv L ((initial_recon False)\<lparr>rc_metrics := m\<rparr>)"
    using recon_inv_initial[of L False] by (simp add: recon_inv_def)
  moreover from this obtain st1 st2 st3 k rep where
    "stages L packets ((initial_recon False)\<lparr>rc_metrics := m\<rparr>) st1 st2 st3 k rep" using stages_exist[OF assms(1)] by blast
  ultimately show ?thesis by (simp add: live_run_def stages_def)
qed

text \<open>What a run delivers of a slot, given the shreds of the slot among its packets.\<close>

definition slot_items :: "u64 \<Rightarrow> live_output \<Rightarrow> (u64 \<times> entry list \<times> bytes) list" where
  "slot_items slot x = filter (\<lambda>d. fst d = slot) (lo_entries x)"

definition rebuilt :: "fec_layout \<Rightarrow> shred set \<Rightarrow> u32 list" where
  "rebuilt Y X = sorted_list_of_set {b \<in> entry_batches Y. all_enough Y X b}"

lemma live_run_slot:
  assumes L: "ledger_ok L" "packet_ok L" and Y: "layout_ok L sh slot Y" "streamable L sh Y" "decodable L sh Y pl es"
    and size: "\<forall>x\<in>set xs. length x \<le> PACKET_DATA_SIZE T" and fit: "fits sh slot Y (decoded L xs)"
  shows "\<exists>x m'. live_run L T xs m = Some (x, m') \<and>
     slot_items slot x = map (\<lambda>b. (slot, es b, pl b)) (rebuilt Y (of_slot slot (decoded L xs)))"
proof -
  obtain packets where p: "those (map (make_packet T) xs) = Some packets" "shreds_of L packets = decoded L xs"
    using packets_made[OF L(2) size] by blast
  have "stream_inv L sh slot Y {} ((initial_recon False)\<lparr>rc_metrics := m\<rparr>)"
    using stream_start[OF Y(1), of False] by (simp add: stream_inv_def initial_reconstructor_def recon_inv_def slot_entry_def)
  from stream_call[OF L(1) Y this _ refl, of packets] fit p(2) obtain st' k rep where
    "reconstruct_shreds L packets ((initial_recon False)\<lparr>rc_metrics := m\<rparr>) = Some (st', k, rep)"
    "filter (\<lambda>d. fst d = slot) (deshredded_entries st') = map (\<lambda>b. (slot, es b, pl b)) (sorted_list_of_set
       {b \<in> entry_batches Y. all_enough Y (of_slot slot (decoded L xs)) b \<and> \<not> all_enough Y {} b})" by auto
  moreover have "{b \<in> entry_batches Y. all_enough Y X b \<and> \<not> all_enough Y {} b} = {b \<in> entry_batches Y. all_enough Y X b}" for X
    using none_enough(2)[OF Y(1)] by blast
  ultimately show ?thesis using p(1) by (simp add: live_run_def slot_items_def rebuilt_def)
qed

lemma two_thirds_sub: "set (two_thirds xs) \<subseteq> set xs"
  by (simp add: two_thirds_def set_nths_subset)

lemma fits_mono: "fits sh slot Y xs \<Longrightarrow> set ys \<subseteq> set xs \<Longrightarrow> fits sh slot Y ys"
  by (auto simp: fits_def of_slot_def)

lemma decoded_mono: "set ys \<subseteq> set xs \<Longrightarrow> set (decoded L ys) \<subseteq> set (decoded L xs)"
  by (auto simp: decoded_def List.map_filter_def)


text \<open>The two entry batches of \<open>ex_layout\<close>; the packets left out are a repeated one and two that are no shreds.\<close>

definition ex_test_lib :: test_lib where
  "ex_test_lib = \<lparr>borsh_to_vec = (\<lambda>v. case pks_packets v of [p] \<Rightarrow> Inr p | _ \<Rightarrow> Inl []),
     try_from_slice = (\<lambda>b. Inr \<lparr>pks_packets = [b]\<rparr>), from_payload = ex_decode, PACKET_DATA_SIZE = 8\<rparr>"

definition ex_recording :: "bytes list" where
  "ex_recording = [ex_piece2 0, ex_parity2, ex_piece2 0, ex_piece2 2, ex_piece2 1, [5], [], [0,11,0,0,1,7,7], [5]]"

lemma ex_recording_facts:
  "decoded ex_ledger ex_recording = [ex_slot 0, ex_code ex_parity2, ex_slot 0, ex_slot 2, ex_slot 1, ex_data [0,11,0,0,1,7,7]]"
  "two_thirds ex_recording = [ex_piece2 0, ex_parity2, ex_piece2 2, ex_piece2 1, [], [0,11,0,0,1,7,7]]"
  "decoded ex_ledger [ex_piece2 0, ex_parity2, ex_piece2 2, ex_piece2 1, [], [0,11,0,0,1,7,7]] =
    [ex_slot 0, ex_code ex_parity2, ex_slot 2, ex_slot 1, ex_data [0,11,0,0,1,7,7]]"
  by (code_simp, simp add: two_thirds_def ex_recording_def nths_Cons, code_simp)


lemma ex_packets_ok: "packet_ok ex_ledger"
  by (simp add: packet_ok_def ex_ledger_def)


lemma ex_recorded:
  "load_packets ex_test_lib (Inr [1,2]) = Some \<lparr>pks_packets = [[1,2]]\<rparr>" "borsh_ok ex_test_lib"
  "listen_and_write_shreds ex_test_lib \<lparr>dk_bind = Inr (), dk_local_addr = Inr (), dk_create = Inr (), dk_write_all = Inr ()\<rparr>
     (Inr [1,2] # replicate 49999 (Inl [])) = Some (Inr [1,2])"
proof -
  show "load_packets ex_test_lib (Inr [1,2]) = Some \<lparr>pks_packets = [[1,2]]\<rparr>"
    by (simp add: load_packets_def ex_test_lib_def)
  show "borsh_ok ex_test_lib" by (auto simp: borsh_ok_def ex_test_lib_def split: list.splits)
  have "datagrams (replicate n (Inl [])) = []" for n by (simp add: datagrams_def List.map_filter_def)
  then have "datagrams (Inr [1,2] # replicate 49999 (Inl [])) = [[1,2]]"
    by (subst datagrams_Cons) (simp add: datagrams_def List.map_filter_simps)
  moreover have "record_loop (Inr [1,2] # replicate 49999 (Inl [])) new_recorder =
      Some (fold record_step (Inr [1,2] # replicate 49999 (Inl [])) new_recorder)"
    by (subst record_loop_eq) (simp_all add: new_recorder_def RECORD_EVERY_def)
  moreover have "pks_packets (rd_vec (fold record_step (Inr [1,2] # replicate 49999 (Inl [])) new_recorder)) =
      datagrams (Inr [1,2] # replicate 49999 (Inl []))" unfolding record_steps(2) by (simp add: new_recorder_def)
  ultimately show "listen_and_write_shreds ex_test_lib \<lparr>dk_bind = Inr (), dk_local_addr = Inr (), dk_create = Inr (), dk_write_all = Inr ()\<rparr>
     (Inr [1,2] # replicate 49999 (Inl [])) = Some (Inr [1,2])"
    by (simp add: listen_and_write_shreds_def ex_test_lib_def)
qed


section \<open>What is printed\<close>

lemma dedup_distinct: "distinct (map fst xs) \<Longrightarrow> dedup_by_key xs = xs"
  by (induction xs rule: dedup_by_key.induct) auto

lemma those_all:
  assumes "\<And>x. x \<in> set xs \<Longrightarrow> f x = Some (g x)"
  shows "those (map f xs) = Some (map g xs)"
  using assms by (induction xs) auto

lemma extend_all: "fold (\<lambda>(_, v) acc. acc @ v) values acc = acc @ concat (map snd values)"
  by (induction "values" arbitrary: acc) auto

lemma grouped_merged:
  assumes "grouping_ok grouped" and xs: "xs = map (\<lambda>(slot, entries, _). (slot, entries)) ds"
    and merged: "merged = map (\<lambda>(key, values). (key, fold (\<lambda>(_, v) acc. acc @ v) values [])) (grouped xs)"
  shows "distinct (map fst merged)" "fst ` set merged = fst ` set ds"
    "(k, es) \<in> set merged \<Longrightarrow> e \<in> set es \<longleftrightarrow> (\<exists>es' p. (k, es', p) \<in> set ds \<and> e \<in> set es')"
proof -
  have g: "distinct (map fst (grouped xs))" "set (grouped xs) = (\<lambda>k. (k, filter (\<lambda>x. fst x = k) xs)) ` fst ` set xs"
    using assms(1) unfolding grouping_ok_def by blast+
  have k: "fst ` set xs = fst ` set ds" by (force simp: xs)
  have m: "map fst merged = map fst (grouped xs)" by (simp add: merged case_prod_beta)
  then show "distinct (map fst merged)" using g(1) by simp
  have "fst ` set merged = fst ` set (grouped xs)" using m by (metis set_map)
  also have "\<dots> = fst ` set ds" unfolding g(2) k[symmetric] by (simp add: image_image)
  finally show "fst ` set merged = fst ` set ds" .
  assume "(k, es) \<in> set merged"
  then have "es = concat (map snd (filter (\<lambda>x. fst x = k) xs))" by (auto simp: merged g(2) extend_all)
  then show "e \<in> set es \<longleftrightarrow> (\<exists>es' p. (k, es', p) \<in> set ds \<and> e \<in> set es')" by (force simp: xs)
qed

text \<open>The signatures that belong to a slot.\<close>

definition slot_signatures :: "(bytes \<Rightarrow> 'sig list) \<Rightarrow> (u64 \<times> entry list \<times> bytes) list \<Rightarrow> u64 \<Rightarrow> 'sig set" where
  "slot_signatures signatures ds slot =
     {hd (signatures t) |t e es p. (slot, es, p) \<in> set ds \<and> e \<in> set es \<and> t \<in> set (transactions e)}"

text \<open>Whatever the order of the hash map, the file lists every slot that was delivered once, in order, with
the first signatures of its transactions, each once and in order, provided every transaction is signed.\<close>

lemma debug_entries_spec:
  assumes grp: "grouping_ok grouped"
    and signed: "\<forall>(slot, es, p)\<in>set ds. \<forall>e\<in>set es. \<forall>t\<in>set (transactions e). signatures t \<noteq> []"
  shows "\<exists>out. debug_entries grouped signatures ds = Some out \<and> sorted_wrt (<) (map fst out) \<and>
     fst ` set out = fst ` set ds \<and>
     (\<forall>(slot, vec)\<in>set out. sorted_wrt (<) vec \<and> set vec = slot_signatures signatures ds slot)"
proof -
  define merged where "merged = map (\<lambda>(key, values). (key, fold (\<lambda>(_, v) acc. acc @ v) values []))
    (grouped (map (\<lambda>(slot, entries, _). (slot, entries)) ds))"
  note m = grouped_merged[OF grp refl merged_def]
  define sigs where "sigs es = map (\<lambda>t. hd (signatures t)) (concat (map transactions es))" for es :: "entry list"
  define out where "out = sort_key fst (map (\<lambda>x. (fst x, sort_dedup (sigs (snd x)))) merged)"
  have "first_signatures signatures es = Some (sigs es)" if "(k, es) \<in> set merged" for k es
  proof -
    have "vec_get (signatures t) 0 = Some (hd (signatures t))" if "t \<in> set (concat (map transactions es))" for t
      using that signed m(3)[OF \<open>(k, es) \<in> set merged\<close>] by (fastforce simp: vec_get_def hd_conv_nth)
    then show ?thesis unfolding first_signatures_def sigs_def by (rule those_all)
  qed
  then have "those (map (\<lambda>(slot, entries). do { vec \<leftarrow> first_signatures signatures entries; Some (slot, sort_dedup vec) })
      merged) = Some (map (\<lambda>x. (fst x, sort_dedup (sigs (snd x)))) merged)"
    by (intro those_all) auto
  then have run: "debug_entries grouped signatures ds = Some (dedup_by_key out)"
    unfolding debug_entries_def Let_def merged_def[symmetric] out_def by simp
  have "mset (map fst out) = mset (map fst merged)" by (simp add: out_def multiset.map_comp comp_def)
  then have d: "distinct (map fst out)" using m(1) by (metis mset_eq_imp_distinct_iff)
  have "sorted (map fst out)" unfolding out_def by (rule sorted_sort_key)
  then have "sorted_wrt (<) (map fst out)" using d strict_sorted_iff by blast
  moreover have "fst ` set out = fst ` set ds" by (simp add: out_def image_image m(2))
  moreover have "sorted_wrt (<) vec \<and> set vec = slot_signatures signatures ds slot" if "(slot, vec) \<in> set out" for slot vec
  proof -
    obtain es where es: "(slot, es) \<in> set merged" "vec = sort_dedup (sigs es)"
      using \<open>(slot, vec) \<in> set out\<close> by (auto simp: out_def)
    have "set vec = slot_signatures signatures ds slot"
      using m(3)[OF es(1)] by (fastforce simp: es(2) sigs_def slot_signatures_def)
    then show ?thesis by (simp add: es(2) strict_sorted_sort_dedup)
  qed
  ultimately show ?thesis unfolding run dedup_distinct[OF d] by blast
qed


text \<open>Three items of two slots, with the grouping of the documentation and the keys in the order they come.\<close>

definition ex_grouped :: "(u64 \<times> 'a) list \<Rightarrow> (u64 \<times> (u64 \<times> 'a) list) list" where
  "ex_grouped xs = map (\<lambda>k. (k, filter (\<lambda>x. fst x = k) xs)) (remdups (map fst xs))"

lemma ex_debug_entries:
  "grouping_ok ex_grouped"
  "debug_entries ex_grouped (\<lambda>t. t) [(9, [\<lparr>transactions = [[7,1],[5]]\<rparr>], []), (8, [\<lparr>transactions = [[4]]\<rparr>], []),
     (9, [\<lparr>transactions = [[5,2]]\<rparr>, \<lparr>transactions = []\<rparr>], [])] = Some [(8, [4 :: u8]), (9, [5, 7])]"
  "debug_entries ex_grouped (\<lambda>t. t) [(9, [\<lparr>transactions = [[]]\<rparr>], [])] = (None :: (u64 \<times> u8 list) list option)"
proof -
  show "grouping_ok ex_grouped" by (auto simp: grouping_ok_def ex_grouped_def comp_def)
qed code_simp+

end
