(* ===== verification/Repo_Tests.thy ===== *)
theory Repo_Tests
  imports Deshred_Props Forwarder_Props Multicast
begin

text \<open>
  The repository's own unit tests (\<^verbatim>\<open>proxy/src/deshred.rs\<close>, \<^verbatim>\<open>proxy/src/forwarder.rs\<close>,
  \<^verbatim>\<open>proxy/src/multicast_config.rs\<close>) as definitions over the model, and the theorems that they pass:
  not for one run, but for every instance of the third-party interface that they could be run with.
\<close>

section \<open>get\_indexes\_tests\<close>

text \<open>\<^verbatim>\<open>tracker.data_status[..n].copy_from_slice(statuses)\<close> panics when the slice is out of range.\<close>

definition make_test_statustracker :: "ledger \<Rightarrow> ShredStatus list \<Rightarrow> ShredsStateTracker option" where
  "make_test_statustracker L statuses = (let tracker = default_tracker L in do {
     _ \<leftarrow> slice_to (data_status tracker) (length statuses);
     Some (tracker\<lparr>data_status := statuses @ drop (length statuses) (data_status tracker)\<rparr>) })"

text \<open>\<^verbatim>\<open>assert_eq!(get_indexes(&tracker, index), expected)\<close>; a panic fails the test.\<close>

definition assert_indexes :: "ShredsStateTracker option \<Rightarrow> nat \<Rightarrow> (nat \<times> nat \<times> bool) option \<Rightarrow> bool" where
  "assert_indexes tracker index expected \<longleftrightarrow> Option.bind tracker (\<lambda>t. get_indexes t index) = Some expected"

definition start_at_index_zero :: "ledger \<Rightarrow> bool" where
  "start_at_index_zero L \<longleftrightarrow>
     (let tracker = make_test_statustracker L [NotDataComplete, NotDataComplete, DataComplete]
      in assert_indexes tracker 0 (Some (0, 2, False))) \<and>
     (let tracker = make_test_statustracker L [DataComplete, NotDataComplete, DataComplete]
      in assert_indexes tracker 0 (Some (0, 0, False))) \<and>
     (let tracker = make_test_statustracker L [Unknown, NotDataComplete, DataComplete]
      in assert_indexes tracker 0 None)"

definition start_just_after_data_complete :: "ledger \<Rightarrow> bool" where
  "start_just_after_data_complete L \<longleftrightarrow>
     (let tracker = make_test_statustracker L [DataComplete, NotDataComplete, NotDataComplete, DataComplete]
      in assert_indexes tracker 1 (Some (1, 3, False)))"

definition start_just_before_data_complete :: "ledger \<Rightarrow> bool" where
  "start_just_before_data_complete L \<longleftrightarrow>
     (let tracker = make_test_statustracker L [DataComplete, NotDataComplete, DataComplete]
      in assert_indexes tracker 1 (Some (1, 2, False)))"

definition two_consecutive_data_complete :: "ledger \<Rightarrow> bool" where
  "two_consecutive_data_complete L \<longleftrightarrow>
     (let tracker = make_test_statustracker L [NotDataComplete, DataComplete, DataComplete]
      in assert_indexes tracker 1 (Some (0, 1, False)) \<and> assert_indexes tracker 2 (Some (2, 2, False)))"

definition three_consecutive_data_complete :: "ledger \<Rightarrow> bool" where
  "three_consecutive_data_complete L \<longleftrightarrow>
     (let tracker = make_test_statustracker L
            [NotDataComplete, DataComplete, DataComplete, DataComplete, NotDataComplete]
      in assert_indexes tracker 1 (Some (0, 1, False)) \<and> assert_indexes tracker 2 (Some (2, 2, False)) \<and>
         assert_indexes tracker 3 (Some (3, 3, False)))"

definition unknown_discards_segment :: "ledger \<Rightarrow> bool" where
  "unknown_discards_segment L \<longleftrightarrow>
     (let tracker = make_test_statustracker L [NotDataComplete, Unknown, DataComplete]
      in assert_indexes tracker 0 None) \<and>
     (let tracker = make_test_statustracker L [Unknown, NotDataComplete, DataComplete]
      in assert_indexes tracker 1 (Some (1, 2, True)))"

definition test_unknown :: "ledger \<Rightarrow> bool" where
  "test_unknown L \<longleftrightarrow>
     (let tracker = make_test_statustracker L
            [Unknown, DataComplete, DataComplete, NotDataComplete, DataComplete]
      in assert_indexes tracker 0 None \<and> assert_indexes tracker 1 (Some (1, 1, True)) \<and>
         assert_indexes tracker 2 (Some (2, 2, False)) \<and> assert_indexes tracker 3 (Some (3, 4, False)))"

text \<open>The tracker of a test, and one iteration of each loop on it.\<close>

definition status_tracker :: "ledger \<Rightarrow> ShredStatus list \<Rightarrow> ShredsStateTracker" where
  "status_tracker L statuses =
     (default_tracker L)\<lparr>data_status := statuses @ replicate (MAX_DATA_SHREDS_PER_SLOT L - length statuses) Unknown\<rparr>"

lemma make_test_statustracker_eq:
  "length statuses \<le> MAX_DATA_SHREDS_PER_SLOT L \<Longrightarrow> make_test_statustracker L statuses = Some (status_tracker L statuses)"
  by (simp add: make_test_statustracker_def slice_to_def status_tracker_def default_tracker_def)

lemma status_tracker_read:
  assumes "length statuses \<le> MAX_DATA_SHREDS_PER_SLOT L" "j < length statuses"
  shows "data_status (status_tracker L statuses) ! j = statuses ! j"
    "j < length (data_status (status_tracker L statuses))" "\<not> already_deshredded (status_tracker L statuses) ! j"
    "length (already_deshredded (status_tracker L statuses)) = length (data_status (status_tracker L statuses))"
  using assms by (simp_all add: status_tracker_def default_tracker_def nth_append)

lemma status_tracker_right:
  assumes "length statuses \<le> MAX_DATA_SHREDS_PER_SLOT L" "e < length statuses"
  shows "scan_right (status_tracker L statuses) e =
     (case statuses ! e of NotDataComplete \<Rightarrow> scan_right (status_tracker L statuses) (Suc e)
        | DataComplete \<Rightarrow> Some (Some e) | Unknown \<Rightarrow> Some None)"
  using status_tracker_read[OF assms] scan_right_unfold[of "status_tracker L statuses" e]
  by (simp add: same_lengths_def split: ShredStatus.splits)

lemma status_tracker_left:
  assumes "length statuses \<le> MAX_DATA_SHREDS_PER_SLOT L" "n < length statuses"
  shows "scan_left (status_tracker L statuses) e s n =
     (case statuses ! n of NotDataComplete \<Rightarrow>
          if n = 0 then Some (Some (0, e, False)) else scan_left (status_tracker L statuses) e n (n - 1)
        | DataComplete \<Rightarrow> Some (Some (s, e, False)) | Unknown \<Rightarrow> Some (Some (s, e, True)))"
  using status_tracker_read[OF assms]
  by (subst scan_left.simps) (simp add: vec_get_def split: ShredStatus.splits)

lemma assert_indexes_eq:
  assumes "length statuses \<le> MAX_DATA_SHREDS_PER_SLOT L" "i < length statuses"
  shows "assert_indexes (make_test_statustracker L statuses) i r \<longleftrightarrow>
     (case scan_right (status_tracker L statuses) i of None \<Rightarrow> False | Some None \<Rightarrow> r = None
      | Some (Some e) \<Rightarrow> if e = length (data_status (status_tracker L statuses)) then r = None
          else if e = 0 then r = Some (0, 0, False) else if i = 0 then r = Some (0, e, False)
          else scan_left (status_tracker L statuses) e i (i - 1) = Some r)"
  using status_tracker_read(2)[OF assms] make_test_statustracker_eq[OF assms(1)]
  by (auto simp: assert_indexes_def get_indexes_def split: option.splits)

lemmas status_tracker_simps = assert_indexes_eq status_tracker_right status_tracker_left

text \<open>The unit tests of \<^verbatim>\<open>get_indexes\<close> pass whatever the capacity of a slot, as long as it holds the
five shreds of the longest test.\<close>

theorem get_indexes_tests_pass:
  assumes "5 \<le> MAX_DATA_SHREDS_PER_SLOT L"
  shows "start_at_index_zero L \<and> start_just_after_data_complete L \<and> start_just_before_data_complete L \<and>
    two_consecutive_data_complete L \<and> three_consecutive_data_complete L \<and> unknown_discards_segment L \<and> test_unknown L"
proof -
  have len: "length (data_status (status_tracker L s)) = MAX_DATA_SHREDS_PER_SLOT L" if "length s \<le> MAX_DATA_SHREDS_PER_SLOT L" for s
    using that by (simp add: status_tracker_def)
  show ?thesis using assms
    by (simp add: start_at_index_zero_def start_just_after_data_complete_def start_just_before_data_complete_def
      two_consecutive_data_complete_def three_consecutive_data_complete_def unknown_discards_segment_def test_unknown_def
      status_tracker_simps len)
qed

theorem get_indexes_tests_pass_witness:
  "start_at_index_zero (ex_ledger\<lparr>MAX_DATA_SHREDS_PER_SLOT := 32768\<rparr>) \<and>
   test_unknown (ex_ledger\<lparr>MAX_DATA_SHREDS_PER_SLOT := 32768\<rparr>)"
  using get_indexes_tests_pass[of "ex_ledger\<lparr>MAX_DATA_SHREDS_PER_SLOT := 32768\<rparr>"] by simp

section \<open>test\_2shreds\_3destinations\<close>

text \<open>
  A listener receives into one buffer, again and again, and collects copies of the whole buffer:
  a shorter datagram leaves the rest of the buffer as it was, a longer one is cut.
\<close>

fun collect_from :: "bytes \<Rightarrow> bytes list \<Rightarrow> bytes list" where
  "collect_from buf [] = []"
| "collect_from buf (d # ds) =
     (let buf = take (length buf) d @ drop (length d) buf in buf # collect_from buf ds)"

definition listen_and_collect :: "nat \<Rightarrow> bytes list \<Rightarrow> bytes list" where
  "listen_and_collect packet_data_size datagrams = collect_from (replicate packet_data_size 0) datagrams"

text \<open>The datagrams that reach the listener bound to an address, when the network loses none.\<close>

definition datagrams_to :: "SocketAddr \<Rightarrow> 'd forwarder \<Rightarrow> bytes list" where
  "datagrams_to addr fw = map fst (filter (\<lambda>(data, dest). dest = addr) (concat (fw_out fw)))"

definition test_batch :: "nat \<Rightarrow> packet list" where
  "test_batch packet_data_size = map (\<lambda>b. \<lparr>pk_buffer = replicate packet_data_size b, pk_size = packet_data_size,
     pk_addr = V4 0, pk_discard = False\<rparr>) [1, 2]"

definition dest_socketaddrs :: "SocketAddr list" where
  "dest_socketaddrs = [SocketAddrV4 0 32881, SocketAddrV4 0 33881, SocketAddrV4 0 34881]"

definition test_forwarder :: "'d \<Rightarrow> 'd forwarder" where
  "test_forwarder deduper = \<lparr>fw_deduper = deduper, fw_poisoned = False, fw_metrics = ShredMetrics_new False,
     fw_prom = [], fw_reconstruct = \<lparr>ch_capacity = 10240, ch_connected = True, ch_items = []\<rparr>, fw_out = [], fw_traces = []\<rparr>"

definition test_2shreds_3destinations :: "ledger \<Rightarrow> 'd net \<Rightarrow> nat \<Rightarrow> 'd \<Rightarrow> bool" where
  "test_2shreds_3destinations L net packet_data_size deduper \<longleftrightarrow>
     (case recv_from_channel_and_send_multiple_dest L net (Inr (test_batch packet_data_size)) dest_socketaddrs
         True False (test_forwarder deduper) of
        Some (Inr _, fw) \<Rightarrow>
          (let received = map (\<lambda>a. listen_and_collect packet_data_size (datagrams_to a fw)) dest_socketaddrs
           in (\<forall>r\<in>set received. length r = 2 \<and> (\<forall>packet\<in>set r. length packet = packet_data_size) \<and>
                 r ! 0 = replicate packet_data_size 1 \<and> r ! 1 = replicate packet_data_size 2) \<and>
              foldl (\<lambda>acc elem. acc + length elem) 0 received = 6)
      | _ \<Rightarrow> False)"

lemma datagrams_of_map:
  "fw_out fw = map (\<lambda>a. map (\<lambda>d. (d, a)) ds) dests \<Longrightarrow> distinct dests \<Longrightarrow> a \<in> set dests \<Longrightarrow> datagrams_to a fw = ds"
proof -
  have out: "filter (\<lambda>(data, dest). dest = a) (map (\<lambda>d. (d, b)) ds) = (if b = a then map (\<lambda>d. (d, b)) ds else [])" for b
    by (induction ds) auto
  have "distinct dests \<Longrightarrow> a \<in> set dests \<Longrightarrow>
      filter (\<lambda>(data, dest). dest = a) (concat (map (\<lambda>a. map (\<lambda>d. (d, a)) ds) dests)) = map (\<lambda>d. (d, a)) ds"
  proof (induction dests)
    case (Cons b dests)
    have "a \<notin> set dests \<Longrightarrow> filter (\<lambda>(data, dest). dest = a) (concat (map (\<lambda>a. map (\<lambda>d. (d, a)) ds) dests)) = []"
      by (auto simp: filter_empty_conv)
    then show ?case using Cons out[of b] by (cases "b = a") auto
  qed simp
  then show "fw_out fw = map (\<lambda>a. map (\<lambda>d. (d, a)) ds) dests \<Longrightarrow> distinct dests \<Longrightarrow> a \<in> set dests \<Longrightarrow> datagrams_to a fw = ds"
    by (simp add: datagrams_to_def comp_def)
qed

text \<open>C33: The repository's \<^verbatim>\<open>test_2shreds_3destinations\<close> passes whenever the deduper takes neither packet for a
duplicate and the network delivers what the socket was given: each of the three listeners collects
the two packets, whole and in order.\<close>

theorem test_2shreds_3destinations_passes:
  assumes "packet_ok L" "dedup_and_count net d (test_batch n) = (d', test_batch n, 0)"
  shows "test_2shreds_3destinations L net n d"
proof -
  let ?fw = "test_forwarder d"
  have dd: "dedup_and_count net (fw_deduper ?fw) (test_batch n) = (d', test_batch n, 0)"
    using assms(2) by (simp add: test_forwarder_def)
  have np: "\<not> fw_poisoned ?fw" "False \<longrightarrow> traces_representable L net (test_batch n)" by (simp_all add: test_forwarder_def)
  obtain fw where r: "recv_from_channel_and_send_multiple_dest L net (Inr (test_batch n)) dest_socketaddrs True False ?fw = Some (Inr (), fw)"
    and acc: "sent_account L net (test_batch n) 0 dest_socketaddrs ?fw fw"
    by (rule forward_batch[OF dd np])
  have "deliverable (test_batch n) = [replicate n 1, replicate n 2]" by (simp add: deliverable_def test_batch_def)
  then have "packets_with_dest L (test_batch n) a = map (\<lambda>d. (d, a)) [replicate n 1, replicate n 2]" for a
    by (simp add: packets_with_dest_eq survivors_deliverable[OF assms(1)])
  moreover have "fw_out fw = map (packets_with_dest L (test_batch n)) dest_socketaddrs"
    using acc by (simp add: sent_account_def Let_def) (simp add: test_forwarder_def)
  ultimately have "fw_out fw = map (\<lambda>a. map (\<lambda>d. (d, a)) [replicate n 1, replicate n 2]) dest_socketaddrs" by simp
  then have "datagrams_to a fw = [replicate n 1, replicate n 2]" if "a \<in> set dest_socketaddrs" for a
    by (rule datagrams_of_map) (use that in \<open>simp_all add: dest_socketaddrs_def\<close>)
  then show ?thesis using r by (simp add: test_2shreds_3destinations_def dest_socketaddrs_def listen_and_collect_def Let_def)
qed

theorem test_2shreds_3destinations_passes_witness: "test_2shreds_3destinations ex_ledger ex_net 1232 []"
proof -
  have "dedup_and_count ex_net [] (test_batch 1232) = ([replicate 1232 2, replicate 1232 1], test_batch 1232, 0)"
    by (simp add: ex_net_def test_batch_def)
  then show ?thesis by (rule test_2shreds_3destinations_passes[OF ex_net_ok(2)])
qed

section \<open>The tests of the multicast configuration\<close>

text \<open>The JSON texts of the tests as bytes.\<close>

definition json_bytes :: "string \<Rightarrow> bytes" where
  "json_bytes text = map of_char text"

definition route_json :: bytes where
  \<open>route_json = json_bytes ''[{"dst":"169.254.2.112/31","protocol":"kernel","scope":"link","prefsrc":"169.254.2.113","flags":[]},{"dst":"233.84.178.2","gateway":"169.254.2.112","protocol":"static","flags":[]}]''\<close>

definition parse_ip_route_for_device_test :: "'s netdev \<Rightarrow> bool" where
  "parse_ip_route_for_device_test N \<longleftrightarrow>
     parse_ip_route_for_device N route_json = Inr [V4 (ipv4_of_octets 233 84 178 2)]"

definition addr_json :: bytes where
  \<open>addr_json = json_bytes ''[
            {"addr_info":[
                {"family":"inet6","local":"fe80::1234"},
                {"family":"inet","local":"192.168.1.10"}
            ]}
        ]''\<close>

definition parse_ipv4_addr_from_addr :: "'s netdev \<Rightarrow> bool" where
  "parse_ipv4_addr_from_addr N \<longleftrightarrow>
     parse_ipv4_addr_from_ip_addr_show_json N addr_json = Inr (Some (ipv4_of_octets 192 168 1 10))"

definition malformed_addr_json :: bytes where
  \<open>malformed_addr_json = json_bytes ''{"not":"an array"}''\<close>

definition parse_ipv4_addr_from_addr_show_malformed :: "'s netdev \<Rightarrow> bool" where
  "parse_ipv4_addr_from_addr_show_malformed N \<longleftrightarrow>
     (\<exists>e. parse_ipv4_addr_from_ip_addr_show_json N malformed_addr_json = Inl e)"

definition link_json :: bytes where
  \<open>link_json = json_bytes ''[
            {"ifindex":3,"ifname":"lo"}
        ]''\<close>

definition parse_ifindex_from_link_show_present :: "'s netdev \<Rightarrow> bool" where
  "parse_ifindex_from_link_show_present N \<longleftrightarrow> parse_ifindex_from_ip_link_show_json N link_json = Inr (Some 3)"

definition parse_ifindex_from_link_show_empty :: "'s netdev \<Rightarrow> bool" where
  "parse_ifindex_from_link_show_empty N \<longleftrightarrow>
     parse_ifindex_from_ip_link_show_json N (json_bytes ''[]'') = Inr None"

definition malformed_link_json :: bytes where
  \<open>malformed_link_json = json_bytes ''{"ifindex":3}''\<close>

definition parse_ifindex_from_link_show_malformed :: "'s netdev \<Rightarrow> bool" where
  "parse_ifindex_from_link_show_malformed N \<longleftrightarrow>
     (\<exists>e. parse_ifindex_from_ip_link_show_json N malformed_link_json = Inl e)"

text \<open>
  Documented behaviour of the JSON deserializer on the texts of the tests: missing optional fields are
  absent, other fields are ignored, and an object is no sequence.
\<close>

definition json_ok :: "'s netdev \<Rightarrow> bool" where
  "json_ok N \<longleftrightarrow> json_routes N route_json = Inr [''169.254.2.112/31'', ''233.84.178.2''] \<and>
     json_addrs N addr_json = Inr [Some [\<lparr>ai_family = Some ''inet6'', ai_local = Some ''fe80::1234''\<rparr>,
        \<lparr>ai_family = Some ''inet'', ai_local = Some ''192.168.1.10''\<rparr>]] \<and>
     (\<exists>e. json_addrs N malformed_addr_json = Inl e) \<and>
     json_links N link_json = Inr [Some 3] \<and> json_links N (json_bytes ''[]'') = Inr [] \<and>
     (\<exists>e. json_links N malformed_link_json = Inl e)"

theorem multicast_tests_pass:
  assumes "json_ok N"
  shows "parse_ip_route_for_device_test N \<and> parse_ipv4_addr_from_addr N \<and> parse_ipv4_addr_from_addr_show_malformed N \<and>
    parse_ifindex_from_link_show_present N \<and> parse_ifindex_from_link_show_empty N \<and> parse_ifindex_from_link_show_malformed N"
proof -
  have "route_group ''169.254.2.112/31'' = None" "route_group ''233.84.178.2'' = Some (V4 (ipv4_of_octets 233 84 178 2))" by code_simp+
  then have "sort_dedup (List.map_filter route_group [''169.254.2.112/31'', ''233.84.178.2'']) = [V4 (ipv4_of_octets 233 84 178 2)]"
    by (simp add: List.map_filter_simps sort_dedup_def)
  moreover have "parse_ipv4 ''192.168.1.10'' = Some (ipv4_of_octets 192 168 1 10)" by code_simp
  ultimately show ?thesis using assms
    by (auto simp: json_ok_def parse_ip_route_for_device_test_def parse_ip_route_for_device_def parse_ipv4_addr_from_addr_def
        parse_ipv4_addr_from_ip_addr_show_json_def parse_ipv4_addr_from_addr_show_malformed_def
        parse_ifindex_from_link_show_present_def parse_ifindex_from_ip_link_show_json_def
        parse_ifindex_from_link_show_empty_def parse_ifindex_from_link_show_malformed_def)
qed

text \<open>A deserializer that knows just these texts.\<close>

definition ex_json :: "unit netdev" where
  "ex_json = \<lparr>ip_output = (\<lambda>_. Inl (OtherError, ''ip'')),
     json_routes = (\<lambda>b. if b = route_json then Inr [''169.254.2.112/31'', ''233.84.178.2''] else Inl ''routes''),
     json_addrs = (\<lambda>b. if b = addr_json then Inr [Some [\<lparr>ai_family = Some ''inet6'', ai_local = Some ''fe80::1234''\<rparr>,
        \<lparr>ai_family = Some ''inet'', ai_local = Some ''192.168.1.10''\<rparr>]] else Inl ''addresses''),
     json_links = (\<lambda>b. if b = link_json then Inr [Some 3] else if b = json_bytes ''[]'' then Inr [] else Inl ''links''),
     udp_bind = (\<lambda>_. Inr ()), join_multicast_v4 = (\<lambda>_ _ _. Inr ()), join_multicast_v6 = (\<lambda>_ _ _. Inr ())\<rparr>"

theorem multicast_tests_pass_witness: "parse_ip_route_for_device_test ex_json \<and> parse_ifindex_from_link_show_malformed ex_json"
proof -
  have "malformed_addr_json \<noteq> addr_json" "malformed_link_json \<noteq> link_json" "malformed_link_json \<noteq> json_bytes ''[]''"
    "json_bytes ''[]'' \<noteq> link_json" by code_simp+
  then have "json_ok ex_json" by (simp add: json_ok_def ex_json_def)
  then show ?thesis using multicast_tests_pass by blast
qed

end
