(* ===== verification/Spec2Isabelle.thy ===== *)
theory Spec2Isabelle
  imports Shutdown Recovery_Order Stream_System Recover_Test Live_Test Repo_Tests
begin

text \<open>
  \<^bold>\<open>The shredstream proxy.\<close>

  The program receives Solana shreds over UDP, forwards them to a list of destinations and, when its
  entry service is enabled, reconstructs ledger entries from them and streams these to gRPC
  subscribers. It is a set of threads around shared state:

  \<^item> listen threads (third-party) fill channels of packet batches; one send thread per socket takes a
    batch, offers it to the reconstructor over a bounded channel, removes duplicates, and sends the
    rest to every destination;
  \<^item> the reconstructor thread collects shreds per slot and FEC set, recovers missing ones, and
    broadcasts the entries of every complete segment; the entry server forwards the broadcast to its
    subscribers;
  \<^item> the refresh thread keeps the shared destination list current, the accessory thread reports and
    resets the shared counters and the deduper, the heartbeat thread keeps the subscription at the
    block engine alive with the help of a token refresh task, and a Prometheus server exposes
    collectors;
  \<^item> \<^verbatim>\<open>main\<close> validates the arguments, starts the threads and joins them; a shutdown channel and an exit
    flag stop them.

  \<^bold>\<open>Conventions.\<close> A function that may panic returns an option, and \<open>None\<close> is the panic: an index out of
  bounds, an \<^verbatim>\<open>unwrap\<close> or \<^verbatim>\<open>expect\<close> of a failure, a poisoned lock. A \<^verbatim>\<open>Result\<close> is a sum with the
  error on the left. Counters and header fields are words of their width, and additions wrap as
  \<^verbatim>\<open>fetch_add\<close> does. A thread is a body over one event and a loop over what its iterations observe
  (\<open>event_loop\<close> in \<open>Prelude\<close>): every list of observations is a run, so no fuel is needed, and a property of
  all lists holds at every moment of the thread. Loops over finite data are structural recursions or
  \<open>foldM\<close>, and the scans in \<open>get_indexes\<close> have termination proofs. Code outside the repository
  (\<^verbatim>\<open>solana-ledger\<close>, \<^verbatim>\<open>solana-perf\<close>, sockets, clocks, HTTP, gRPC, JSON) is a record of functions that a
  definition takes as an argument; what the code relies on is a named predicate (\<open>ledger_ok\<close>,
  \<open>erasure_ok\<close>, \<open>group_ok\<close>, \<open>json_ok\<close>, \<open>packet_ok\<close>, \<open>dedup_ok\<close>, \<open>unique_ok\<close>, \<open>in_order\<close>), which \<open>Example_Ledger\<close> and the other example
  instances satisfy. Maps are association lists behind the locale \<open>hash_map\<close>; the iteration order of a
  hash set is a parameter of the ledger record. Log lines are left out; data points are values.

  \<^bold>\<open>Theories.\<close>

  \<^descr> \<open>Prelude\<close>, \<open>Net_Addr\<close>: vectors whose access may panic, \<open>foldM\<close>, hash maps, sorting with
    deduplication, thread loops; the locales \<open>fallible_step\<close>, \<open>monotone_step\<close>, \<open>thread_body\<close>,
    \<open>step_invariant\<close> and \<open>hash_map\<close> that carry the component proofs; addresses.
  \<^descr> \<open>Ledger\<close>, \<open>Example_Ledger\<close>: shreds, packets and the interface of \<^verbatim>\<open>solana-ledger\<close>; an instance.
  \<^descr> \<open>Tracker\<close>, \<open>Comparable\<close>, \<open>Deshred\<close> (\<^verbatim>\<open>proxy/src/deshred.rs\<close>): the per-slot tracker with
    \<open>update_state_tracker\<close>, \<open>get_indexes\<close> and \<open>get_data_shred_info\<close>; equality and hash of shreds; and
    \<open>reconstruct_shreds\<close> with one definition per loop body.
  \<^descr> \<open>Deshred_Safety\<close>, \<open>Deshred_Delivery\<close>, \<open>Deshred_Call\<close>: its invariant, what each stage adds, the whole
    call. \<open>Fec_Sets\<close>: the layout of a slot in FEC sets and in entry batches, each of one or several
    consecutive FEC sets up to a shred that completes the data; when a set is skipped or recovered.
    \<open>Fec_Ingest\<close>, \<open>Slot_Call\<close>: what a slot holds (\<open>stage\<close>) through the ingestion, recovery and deshredding
    loops of a call, whatever else the batch has. \<open>Whole_Fec_Set\<close>, \<open>Recovered_Fec_Set\<close>: delivery by one call
    when all data shreds arrive or when enough shreds arrive to recover the rest. \<open>Slot_Stream\<close>: delivery over
    any number of batches, as refinement of a specification that only counts shreds (\<open>announced\<close>). Where an
    entry batch spans several FEC sets and a later one is complete first, the code tries to decode what follows
    the gap; that this fails is the hypothesis \<open>suffixes_fail\<close>. \<open>Deshred_Props\<close>: the exact behaviour of the
    segment search, the shred sets, the eviction and the counters, and runs that show where FEC sets are given up. \<open>Recovery_Order\<close>: the tracker
    as a type, and the iteration order of hash sets.
  \<^descr> \<open>Reconstructor\<close> (\<^verbatim>\<open>forwarder.rs\<close>): the reconstructor thread, and safety, soundness, uniqueness
    and completeness of what it delivers.
  \<^descr> \<open>Shred_Metrics\<close>, \<open>Prom\<close>: the shared counters with \<open>report\<close> and \<open>reset\<close>, the latter also as its
    sequence of atomic operations under interference; the Prometheus collectors (\<^verbatim>\<open>prom.rs\<close>).
  \<^descr> \<open>Forwarder\<close>, \<open>Forwarder_Props\<close>, \<open>Destinations\<close> (\<^verbatim>\<open>forwarder.rs\<close>): a batch through
    \<open>recv_from_channel_and_send_multiple_dest\<close>, the send thread, the start of the threads; the refresh
    and the accessory thread.
  \<^descr> \<open>Token_Auth\<close>, \<open>Heartbeat\<close>, \<open>Proxy_Error\<close> (\<^verbatim>\<open>token_authenticator.rs\<close>, \<^verbatim>\<open>heartbeat.rs\<close>,
    \<^verbatim>\<open>main.rs\<close>): the token task and interceptor, both heartbeat loops, errors and name resolution.
  \<^descr> \<open>Ip_Text\<close>, \<open>Multicast\<close> (\<^verbatim>\<open>multicast_config.rs\<close>): the standard library's address parser, the parsers
    of the \<^verbatim>\<open>ip\<close> command's output, and the multicast sockets.
  \<^descr> \<open>Server\<close> (\<^verbatim>\<open>server.rs\<close>, \<^verbatim>\<open>examples/deshred.rs\<close>): a subscription, the service thread, the example
    client.
  \<^descr> \<open>Proxy_Main\<close> (\<^verbatim>\<open>main.rs\<close>): arguments, validation, shutdown channel, panic hook, what is started and
    joined in each mode.
  \<^descr> \<open>Proxy_System\<close>: all threads on their shared state as a step relation, and its invariants. One
    step is one iteration of one thread; interference inside an iteration is modelled for \<open>reset\<close> only.
    \<open>Stream_System\<close>: the stream of a slot through the running proxy, from the batches the send threads take to
    the messages that are sent. \<open>Shutdown\<close>: that each thread loop returns, and that after a signal all threads stop.
  \<^descr> \<open>Recover_Test\<close>, \<open>Repo_Tests\<close>: the repository's unit tests as definitions, proved to pass for every
    instance of the third-party interface; \<open>Recover_Test\<close> also has an instance with ten FEC sets of 64 shreds.
    \<open>Live_Test\<close>: the tests on recorded packets, with the recording as an argument, the tool that records it and
    the one that prints what was rebuilt.

  \<^bold>\<open>What is shown.\<close> No thread panics as long as the third-party code keeps its contracts; entries are
  delivered exactly for complete segments, at most once, and never from a run that was not complete; over a
  whole stream, however it is cut into batches, ordered, repeated and mixed with other traffic, the entry
  batches of a slot of whose every FEC set as many different shreds arrive as it has data shreds are delivered
  once, with the packet batch that completes those numbers, also in the running proxy; the iteration order of hash sets does
  not matter for a set that announces one size; every batch reaches
  every destination and only allowed destinations, and every packet is counted once however the threads
  interleave; subscribers get what was broadcast, in order, and can decode it; authentication and
  heartbeat keep their state consistent in every run; start-up and shutdown reach every thread, with the
  exceptions that the theorems state, and after a signal the proxy terminates.

  \<^bold>\<open>Not modelled.\<close> Command-line parsing (clap attributes), logging, the build script and the generated protocol
  bindings (both only name or include what the build makes of a submodule that is not part of the sources), the
  recordings of packets that two of the tests read, and the inside of third-party crates, among them the listen
  threads, the deduper, the Reed-Solomon recovery and the wire formats. Time appears only as values that clocks
  return.
\<close>

section \<open>From the socket to a subscriber\<close>

text \<open>C11: From the socket to the subscriber: whatever batches arrive and however the threads interleave, a
client whose receiver keeps up gets the messages broadcast since it subscribed, in order, and prints
one line with slot, entries and transactions for each; it never reports a failed deserialization.\<close>

theorem client_decodes_stream:
  assumes L: "ledger_ok L" and p: "px_reachable L cf d p"
    and since: "in_order (drop k (sent (px_recon p))) (recvs 100)"
  shows "\<exists>out. client_loop L (map (Inr \<circ> Some) (subscribe_entries recvs) @ [Inr None]) [] = Some out \<and>
     out = map (client_line_of L) (take (length (subscribe_entries recvs)) (drop k (sent (px_recon p)))) \<and>
     (\<forall>e. DeserializationFailed e \<notin> set out)"
proof -
  let ?ms = "subscribe_entries recvs"
  have ms: "?ms = take (length ?ms) (drop k (sent (px_recon p)))"
    using forward_entries_prefix(1)[OF since] by (simp add: subscribe_entries_def)
  have "\<exists>es. deserialize_entries L (pb_entries m) = Inr es" if "m \<in> set ?ms" for m
  proof -
    have "m \<in> set (sent (px_recon p))" using that ms by (metis in_set_takeD in_set_dropD)
    then show ?thesis using px_reachable_ok[OF L p] by (auto simp: px_ok_def)
  qed
  then have "DeserializationFailed e \<notin> set (map (client_line_of L) ?ms)" for e
    by (force simp: client_line_of_def)
  then show ?thesis using client_loop_messages[of L ?ms "[]"] ms by (metis append_Nil)
qed

theorem client_decodes_stream_witness:
  "\<exists>out. client_loop ex_ledger (map (Inr \<circ> Some)
       (subscribe_entries (\<lambda>_. [(Inr \<lparr>pb_slot = 9, pb_entries = [11,12,13,14]\<rparr>, True)])) @ [Inr None]) [] = Some out \<and>
     out = map (client_line_of ex_ledger) (sent (px_recon ex_p2))"
proof -
  let ?rs = "\<lambda>_ :: nat. [(Inr \<lparr>pb_slot = 9, pb_entries = [11,12,13,14]\<rparr>, True)] :: ((err + PbEntry) \<times> bool) list"
  have "in_order (drop 0 (sent (px_recon ex_p2))) (?rs 100)" using ex_p2_state by (simp add: in_order_def)
  from client_decodes_stream[OF ex_ledger_ok ex_system_run(2) this] show ?thesis using ex_p2_state by (simp add: subscribe_entries_def)
qed

end
